(* ===== verification/Prelude.thy ===== *)
theory Prelude
  imports Main "HOL-Library.Word" "HOL-Library.Multiset"
begin

section \<open>Shared prelude\<close>

text \<open>
  What every component theory uses: the machine integer types, the outcome type of a C++ call
  (a value, or the way the call fails), the \<open>errno\<close> values that the sources name, the
  model of \<open>std::map\<close> as a strictly sorted association list, and a few generic lemmas.

  A call that fails is \<open>Inl\<close> of a fault: a failed \<open>assert\<close> (the build defines no
  \<open>NDEBUG\<close>, so assertions are live), \<open>abort()\<close>, a thrown \<open>std::system_error\<close>,
  behaviour that the C++ standard leaves undefined, or a call that never returns.
\<close>

unbundle bit_operations_syntax

subsection \<open>Types\<close>

type_synonym u8 = "8 word"
type_synonym u16 = "16 word"
type_synonym u32 = "32 word"
type_synonym u64 = "64 word"

datatype fault = AssertFail | Abort | Throw int | Undefined | NoReturn

type_synonym 'a res = "fault + 'a"

abbreviation Ok :: "'a \<Rightarrow> 'a res" where
  "Ok \<equiv> Inr"

abbreviation Fault :: "fault \<Rightarrow> 'a res" where
  "Fault \<equiv> Inl"

definition rbind :: "'a res \<Rightarrow> ('a \<Rightarrow> 'b res) \<Rightarrow> 'b res" where
  "rbind m f = (case m of Inl e \<Rightarrow> Inl e | Inr x \<Rightarrow> f x)"

definition c_assert :: "bool \<Rightarrow> 'a res \<Rightarrow> 'a res" where
  "c_assert c k = (if c then k else Fault AssertFail)"

named_theorems res_simps "evaluation of outcomes"

lemma rbind_Inl [simp, res_simps]: "rbind (Inl e) f = Inl e"
  by (simp add: rbind_def)

lemma rbind_Inr [simp, res_simps]: "rbind (Inr x) f = f x"
  by (simp add: rbind_def)

lemma rbind_eq_Inr [simp]: "rbind m f = Inr y \<longleftrightarrow> (\<exists>x. m = Inr x \<and> f x = Inr y)"
  by (cases m) simp_all

lemma rbind_eq_Inl:
  "rbind m f = Inl e \<longleftrightarrow> m = Inl e \<or> (\<exists>x. m = Inr x \<and> f x = Inl e)"
  by (cases m) simp_all

lemma rbind_assoc: "rbind (rbind m f) g = rbind m (\<lambda>x. rbind (f x) g)"
  by (cases m) simp_all

lemma c_assert_True [simp, res_simps]: "c_assert True k = k"
  by (simp add: c_assert_def)

lemma c_assert_False [simp, res_simps]: "c_assert False k = Inl AssertFail"
  by (simp add: c_assert_def)

lemma c_assert_eq_Inr [simp]: "c_assert c k = Inr y \<longleftrightarrow> c \<and> k = Inr y"
  by (simp add: c_assert_def)

subsection \<open>Error numbers (Linux)\<close>

abbreviation (input) EPERM :: int where "EPERM \<equiv> 1"
abbreviation (input) ENOENT :: int where "ENOENT \<equiv> 2"
abbreviation (input) EINTR :: int where "EINTR \<equiv> 4"
abbreviation (input) EAGAIN :: int where "EAGAIN \<equiv> 11"
abbreviation (input) ENOMEM :: int where "ENOMEM \<equiv> 12"
abbreviation (input) EBUSY :: int where "EBUSY \<equiv> 16"
abbreviation (input) EINVAL :: int where "EINVAL \<equiv> 22"
abbreviation (input) EDEADLK :: int where "EDEADLK \<equiv> 35"
abbreviation (input) EOPNOTSUPP :: int where "EOPNOTSUPP \<equiv> 95"

subsection \<open>std::map as a strictly sorted association list\<close>

text \<open>
  The sources iterate over \<open>std::map\<close>s, whose order is the order of the keys, so the model
  keeps the entries sorted. \<open>omap_put\<close> is \<open>m[k] = v\<close> and \<open>omap_del\<close> is
  \<open>m.erase(k)\<close>.
\<close>

type_synonym ('k, 'v) omap = "('k \<times> 'v) list"

fun omap_put :: "'k::linorder \<Rightarrow> 'v \<Rightarrow> ('k, 'v) omap \<Rightarrow> ('k, 'v) omap" where
  "omap_put k v [] = [(k, v)]"
| "omap_put k v ((k', v') # m) =
     (if k < k' then (k, v) # (k', v') # m
      else if k = k' then (k, v) # m
      else (k', v') # omap_put k v m)"

definition omap_del :: "'k \<Rightarrow> ('k, 'v) omap \<Rightarrow> ('k, 'v) omap" where
  "omap_del k m = filter (\<lambda>e. fst e \<noteq> k) m"

definition omap_keys :: "('k, 'v) omap \<Rightarrow> 'k set" where
  "omap_keys m = fst ` set m"

definition omap_sorted :: "('k::linorder, 'v) omap \<Rightarrow> bool" where
  "omap_sorted m \<longleftrightarrow> sorted_wrt (<) (map fst m)"

lemma omap_keys_Nil [simp]: "omap_keys [] = {}"
  by (simp add: omap_keys_def)

lemma omap_keys_Cons [simp]: "omap_keys (e # m) = insert (fst e) (omap_keys m)"
  by (simp add: omap_keys_def)

lemma omap_keys_put [simp]: "omap_keys (omap_put k v m) = insert k (omap_keys m)"
  by (induction k v m rule: omap_put.induct) auto

lemma omap_keys_del [simp]: "omap_keys (omap_del k m) = omap_keys m - {k}"
  by (induction m) (auto simp: omap_del_def)

lemma omap_sorted_Nil [simp]: "omap_sorted []"
  by (simp add: omap_sorted_def)

lemma omap_sorted_put: "omap_sorted m \<Longrightarrow> omap_sorted (omap_put k v m)"
proof (induction k v m rule: omap_put.induct)
  case (2 k v k' v' m)
  have "fst ` set (omap_put k v m) = insert k (fst ` set m)"
    using omap_keys_put [of k v m] by (simp add: omap_keys_def)
  with 2 show ?case by (fastforce simp: omap_sorted_def)
qed (simp add: omap_sorted_def)

lemma omap_sorted_del: "omap_sorted m \<Longrightarrow> omap_sorted (omap_del k m)"
  by (induction m) (auto simp: omap_sorted_def omap_del_def)

lemma map_of_omap_put: "map_of (omap_put k v m) = (map_of m)(k \<mapsto> v)"
  by (induction k v m rule: omap_put.induct) (auto simp: fun_eq_iff)

lemma map_of_omap_del: "map_of (omap_del k m) = (map_of m)(k := None)"
  by (induction m) (auto simp: omap_del_def fun_eq_iff)

subsection \<open>Arithmetic\<close>

lemma mod_sum_eq:
  fixes x y m :: nat
  assumes "(x + y) mod m = 0" "0 < x" "x < m" "y < m"
  shows "x + y = m"
proof (cases "x + y < m")
  case True
  then show ?thesis using assms by simp
next
  case False
  then have "(x + y) mod m = x + y - m"
    using assms(3,4) by (simp add: le_mod_geq)
  then show ?thesis using False assms(1) by simp
qed

subsection \<open>Decimal numbers\<close>

text \<open>\<open>std::to_string\<close> of an unsigned number, and \<open>operator<<\<close> of a signed one.\<close>

function to_string :: "nat \<Rightarrow> string" where
  "to_string n = (if n < 10 then [char_of (48 + n)] else to_string (n div 10) @ [char_of (48 + n mod 10)])"
  by pat_completeness auto

termination
  by (relation "measure id") simp_all

declare to_string.simps [simp del]

definition int_string :: "int \<Rightarrow> string" where
  "int_string i = (if i < 0 then CHR ''-'' # to_string (nat (- i)) else to_string (nat i))"

end
