(* ===== verification/Lockdep.thy ===== *)
theory Lockdep
  imports Prelude
begin

section \<open>The lock-order checker: common/lockdep.cpp\<close>

text \<open>
  The model of \<open>lockdep.cpp\<close> as it is compiled with \<open>DEBUG_LOCKDEP\<close>. The static variables
  of the file are the fields of one record; every \<open>lockdep_*\<close> function runs under
  \<open>lockdep_mutex\<close>, so each is one atomic function from the state (and the calling thread) to
  a result. An id is an \<open>int\<close> at the interface (-1 before registration) and a \<open>nat\<close> inside.
  Messages are left out (\<open>lockdep_dump_locks\<close> is in \<open>Diagnostics\<close>); a captured backtrace is only its presence.
\<close>

subsection \<open>State\<close>

type_synonym thread = nat
type_synonym lock_id = nat

text \<open>The value of a \<open>BackTrace*\<close>: null, or a captured backtrace.\<close>

datatype bt = NullBT | ClibBackTrace

definition MAX_LOCKS :: nat where "MAX_LOCKS = 128 * 1024"

definition NR_LOCKS :: nat where "NR_LOCKS = 4096"

record lockdep =
  g_lockdep :: bool
  lock_ids :: "string \<rightharpoonup> lock_id"
  lock_names :: "lock_id \<rightharpoonup> string"
  lock_refs :: "lock_id \<rightharpoonup> int"
  free_ids :: "lock_id \<Rightarrow> bool"
  held :: "thread \<Rightarrow> (lock_id, bt) omap"
  follows :: "lock_id set list"
  follows_bt :: "lock_id \<Rightarrow> lock_id \<Rightarrow> bt"
  current_maxid :: nat
  last_freed_id :: int
  free_ids_inited :: bool

definition lockdep_start :: lockdep where
  "lockdep_start =
     \<lparr>g_lockdep = False, lock_ids = Map.empty, lock_names = Map.empty, lock_refs = Map.empty,
      free_ids = (\<lambda>_. False), held = (\<lambda>_. []), follows = replicate NR_LOCKS {},
      follows_bt = (\<lambda>_ _. NullBT), current_maxid = 0, last_freed_id = -1, free_ids_inited = False\<rparr>"

subsection \<open>Start and stop\<close>

definition lockdep_global_init :: "lockdep \<Rightarrow> lockdep" where
  "lockdep_global_init s =
     (if g_lockdep s then s
      else if free_ids_inited s then s\<lparr>g_lockdep := True\<rparr>
      else s\<lparr>g_lockdep := True, free_ids_inited := True, free_ids := (\<lambda>i. i < MAX_LOCKS)\<rparr>)"

text \<open>
  The loops over \<open>follows_bt\<close> free the backtraces and then empty the first
  \<open>current_maxid\<close> rows. \<open>lock_refs\<close>, \<open>free_ids\<close>, \<open>current_maxid\<close> and
  \<open>last_freed_id\<close> keep their values.
\<close>

definition lockdep_global_destroy :: "lockdep \<Rightarrow> lockdep" where
  "lockdep_global_destroy s =
     (if g_lockdep s
      then s\<lparr>g_lockdep := False, held := (\<lambda>_. []), lock_names := Map.empty, lock_ids := Map.empty,
             follows := replicate (min (current_maxid s) (length (follows s))) {}
                        @ drop (current_maxid s) (follows s),
             follows_bt := (\<lambda>i. if i < current_maxid s then (\<lambda>_. NullBT) else follows_bt s i)\<rparr>
      else s)"

subsection \<open>Registration\<close>

function scan_free :: "(lock_id \<Rightarrow> bool) \<Rightarrow> nat \<Rightarrow> lock_id option" where
  "scan_free free i =
     (if i < MAX_LOCKS then if free i then Some i else scan_free free (Suc i) else None)"
  by pat_completeness auto
termination
  by (relation "measure (\<lambda>(_, i). MAX_LOCKS - i)") auto

declare scan_free.simps [simp del]

definition lockdep_get_free_id :: "lockdep \<Rightarrow> int \<times> lockdep" where
  "lockdep_get_free_id s =
     (if 0 \<le> last_freed_id s \<and> free_ids s (nat (last_freed_id s))
      then (last_freed_id s,
            s\<lparr>last_freed_id := -1, free_ids := (free_ids s)(nat (last_freed_id s) := False)\<rparr>)
      else case scan_free (free_ids s) 0 of
             Some i \<Rightarrow> (int i, s\<lparr>free_ids := (free_ids s)(i := False)\<rparr>)
           | None \<Rightarrow> (-1, s))"

definition vec_resize :: "nat \<Rightarrow> 'a \<Rightarrow> 'a list \<Rightarrow> 'a list" where
  "vec_resize n d xs = take n xs @ replicate (n - length xs) d"

text \<open>The update of \<open>current_maxid\<close> and the growth of the two vectors for a fresh id.\<close>

definition grow_for :: "lock_id \<Rightarrow> lockdep \<Rightarrow> lockdep" where
  "grow_for i s =
     (if current_maxid s \<le> i
      then let s = s\<lparr>current_maxid := i + 1\<rparr> in
           if current_maxid s = length (follows s)
           then s\<lparr>follows := vec_resize (current_maxid s + 1) {} (follows s)\<rparr>
           else s
      else s)"

definition incr_ref :: "lock_id \<Rightarrow> lockdep \<Rightarrow> lockdep" where
  "incr_ref i s =
     s\<lparr>lock_refs := (lock_refs s)(i \<mapsto> (case lock_refs s i of None \<Rightarrow> 0 | Some r \<Rightarrow> r) + 1)\<rparr>"

definition lockdep_register_inner :: "string \<Rightarrow> lockdep \<Rightarrow> (int \<times> lockdep) res" where
  "lockdep_register_inner name s =
     (if \<not> g_lockdep s then Ok (-1, s)
      else case lock_ids s name of
        None \<Rightarrow>
          (case lockdep_get_free_id s of (lid, s) \<Rightarrow>
             if lid < 0 then Fault Abort
             else let i = nat lid; s = grow_for i s;
                      s = s\<lparr>lock_ids := (lock_ids s)(name \<mapsto> i), lock_names := (lock_names s)(i \<mapsto> name)\<rparr>
                  in Ok (lid, incr_ref i s))
      | Some i \<Rightarrow> Ok (int i, incr_ref i s))"

definition lockdep_register :: "string \<Rightarrow> lockdep \<Rightarrow> (int \<times> lockdep) res" where
  "lockdep_register name s = lockdep_register_inner name s"

text \<open>
  \<open>drop_edges i\<close> is the loop that clears row \<open>id\<close> and bit \<open>id\<close> of the first
  \<open>current_maxid\<close> rows; row \<open>id\<close> must exist.
\<close>

definition drop_edges :: "lock_id \<Rightarrow> lockdep \<Rightarrow> lockdep" where
  "drop_edges i s =
     (let F = (follows s)[i := {}] in
      s\<lparr>follows := map (\<lambda>j. if j < current_maxid s then F ! j - {i} else F ! j) [0..<length F],
        follows_bt := (\<lambda>a b. if a = i \<and> b < current_maxid s \<or> a < current_maxid s \<and> b = i
                             then NullBT else follows_bt s a b)\<rparr>)"

definition lockdep_unregister :: "int \<Rightarrow> lockdep \<Rightarrow> lockdep res" where
  "lockdep_unregister lid s =
     (if lid < 0 then Ok s
      else let i = nat lid in
      case lock_names s i of
        None \<Rightarrow> Fault AssertFail
      | Some name \<Rightarrow>
          let refs = (case lock_refs s i of None \<Rightarrow> 0 | Some r \<Rightarrow> r) - 1 in
          if refs = 0
          then if i < length (follows s)
               then let s = drop_edges i s in
                    Ok (s\<lparr>lock_ids := (lock_ids s)(name := None), lock_names := (lock_names s)(i := None),
                          lock_refs := (lock_refs s)(i := None), free_ids := (free_ids s)(i := True),
                          last_freed_id := lid\<rparr>)
               else Fault Undefined
          else Ok (s\<lparr>lock_refs := (lock_refs s)(i \<mapsto> refs)\<rparr>))"

subsection \<open>The order graph\<close>

fun any_res :: "('a \<Rightarrow> bool res) \<Rightarrow> 'a list \<Rightarrow> bool res" where
  "any_res f [] = Ok False"
| "any_res f (x # xs) = rbind (f x) (\<lambda>r. if r then Ok True else any_res f xs)"

text \<open>
  The recursion of \<open>does_follow\<close>, with fuel for its depth: \<open>NoReturn\<close> is a recursion
  deeper than the fuel. \<open>n\<close> is \<open>current_maxid\<close>.
\<close>

fun does_follow :: "nat \<Rightarrow> lock_id set list \<Rightarrow> nat \<Rightarrow> lock_id \<Rightarrow> lock_id \<Rightarrow> bool res" where
  "does_follow 0 F n a b = Fault NoReturn"
| "does_follow (Suc k) F n a b =
     (if length F \<le> a then Fault Undefined
      else if b \<in> F ! a then Ok True
      else any_res (\<lambda>i. if i \<in> F ! a then does_follow k F n i b else Ok False) [0..<n])"

text \<open>The body of the loop of \<open>lockdep_will_lock\<close> over the locks that the thread holds.\<close>

fun check_held :: "lock_id \<Rightarrow> bool \<Rightarrow> bool \<Rightarrow> (lock_id, bt) omap \<Rightarrow> lockdep \<Rightarrow> lockdep res" where
  "check_held i force recursive [] s = Ok s"
| "check_held i force recursive ((h, _) # m) s =
     (if h = i then (if recursive then check_held i force recursive m s else Fault Abort)
      else if length (follows s) \<le> h then Fault Undefined
      else if i \<notin> follows s ! h
      then rbind (does_follow (Suc (current_maxid s)) (follows s) (current_maxid s) i h)
             (\<lambda>r. if r then Fault Abort
                  else check_held i force recursive m
                    (s\<lparr>follows := (follows s)[h := insert i (follows s ! h)],
                       follows_bt := (follows_bt s)(h := (follows_bt s h)
                         (i := if force then ClibBackTrace else NullBT))\<rparr>))
      else check_held i force recursive m s)"

definition lockdep_will_lock ::
    "thread \<Rightarrow> string \<Rightarrow> int \<Rightarrow> bool \<Rightarrow> bool \<Rightarrow> lockdep \<Rightarrow> (int \<times> lockdep) res" where
  "lockdep_will_lock p name lid force recursive s =
     (if \<not> g_lockdep s then Ok (lid, s)
      else rbind (if lid < 0 then lockdep_register_inner name s else Ok (lid, s))
             (\<lambda>(lid, s). rbind (check_held (nat lid) force recursive (held s p) s) (\<lambda>s. Ok (lid, s))))"

definition lockdep_locked :: "thread \<Rightarrow> string \<Rightarrow> int \<Rightarrow> bool \<Rightarrow> lockdep \<Rightarrow> (int \<times> lockdep) res" where
  "lockdep_locked p name lid force s =
     (if \<not> g_lockdep s then Ok (lid, s)
      else rbind (if lid < 0 then lockdep_register_inner name s else Ok (lid, s))
             (\<lambda>(lid, s). Ok (lid, s\<lparr>held := (held s)
                (p := omap_put (nat lid) (if force then ClibBackTrace else NullBT) (held s p))\<rparr>)))"

definition lockdep_will_unlock :: "thread \<Rightarrow> string \<Rightarrow> int \<Rightarrow> lockdep \<Rightarrow> (int \<times> lockdep) res" where
  "lockdep_will_unlock p name lid s =
     (if lid < 0 then c_assert (lid = -1) (Ok (lid, s))
      else if \<not> g_lockdep s then Ok (lid, s)
      else Ok (lid, s\<lparr>held := (held s)(p := omap_del (nat lid) (held s p))\<rparr>))"


subsection \<open>The edges, and does\_follow as reachability\<close>

definition edges :: "lock_id set list \<Rightarrow> (lock_id \<times> lock_id) set" where
  "edges F = {(a, b). a < length F \<and> b \<in> F ! a}"

text \<open>All targets are below \<open>n\<close> and all rows below \<open>n\<close> exist.\<close>

definition bounded_graph :: "nat \<Rightarrow> lock_id set list \<Rightarrow> bool" where
  "bounded_graph n F \<longleftrightarrow> n \<le> length F \<and> (\<forall>(a, b) \<in> edges F. a < n \<and> b < n)"

lemma edges_iff: "(a, b) \<in> edges F \<longleftrightarrow> a < length F \<and> b \<in> F ! a"
  by (simp add: edges_def)

lemma bounded_graph_edge: "bounded_graph n F \<Longrightarrow> (a, b) \<in> edges F \<Longrightarrow> a < n \<and> b < n"
  by (auto simp: bounded_graph_def)

lemma bounded_graph_finite: "bounded_graph n F \<Longrightarrow> finite (edges F)"
  by (rule finite_subset [of _ "{..<n} \<times> {..<n}"]) (auto simp: bounded_graph_def)

lemma bounded_graph_reach: "bounded_graph n F \<Longrightarrow> (a, b) \<in> (edges F)\<^sup>+ \<Longrightarrow> b < n"
  by (metis bounded_graph_edge tranclE)

lemma bounded_graph_reach_card: "bounded_graph n F \<Longrightarrow> card ((edges F)\<^sup>+ `` {a}) \<le> n"
  using card_mono [of "{..<n}" "(edges F)\<^sup>+ `` {a}"] by (auto dest: bounded_graph_reach)

lemma any_res_Ok:
  "(\<And>x. x \<in> set xs \<Longrightarrow> f x = Ok (P x)) \<Longrightarrow> any_res f xs = Ok (\<exists>x \<in> set xs. P x)"
  by (induction xs) auto

text \<open>Along an edge of an acyclic graph the set of reachable locks shrinks.\<close>

lemma reach_shrinks:
  assumes "acyclic E" "(a, i) \<in> E" "finite (E\<^sup>+ `` {a})"
  shows "card (E\<^sup>+ `` {i}) < card (E\<^sup>+ `` {a})"
proof (rule psubset_card_mono [OF assms(3)])
  have "E\<^sup>+ `` {i} \<subseteq> E\<^sup>+ `` {a}"
    using assms(2) by (auto intro: trancl_into_trancl2)
  moreover have "i \<in> E\<^sup>+ `` {a}" "i \<notin> E\<^sup>+ `` {i}"
    using assms(1,2) by (auto simp: acyclic_def)
  ultimately show "E\<^sup>+ `` {i} \<subset> E\<^sup>+ `` {a}" by blast
qed

lemma does_follow_fuel:
  assumes "acyclic (edges F)" "bounded_graph n F"
  shows "card ((edges F)\<^sup>+ `` {a}) < k \<Longrightarrow> a < length F \<Longrightarrow>
    does_follow k F n a b = Ok ((a, b) \<in> (edges F)\<^sup>+)"
proof (induction k arbitrary: a)
  case (Suc k)
  have fin: "finite ((edges F)\<^sup>+ `` {a})"
    using finite_subset [of "(edges F)\<^sup>+ `` {a}" "{..<n}"] bounded_graph_reach [OF assms(2)] by auto
  have sub: "does_follow k F n i b = Ok ((i, b) \<in> (edges F)\<^sup>+)" if "i \<in> F ! a" for i
  proof (rule Suc.IH)
    have e: "(a, i) \<in> edges F" using that Suc.prems(2) by (simp add: edges_iff)
    show "card ((edges F)\<^sup>+ `` {i}) < k"
      using reach_shrinks [OF assms(1) e fin] Suc.prems(1) by linarith
    show "i < length F"
      using bounded_graph_edge [OF assms(2) e] assms(2) by (simp add: bounded_graph_def)
  qed
  have "any_res (\<lambda>i. if i \<in> F ! a then does_follow k F n i b else Ok False) [0..<n]
      = Ok (\<exists>i \<in> set [0..<n]. i \<in> F ! a \<and> (i, b) \<in> (edges F)\<^sup>+)"
    by (rule any_res_Ok) (simp add: sub)
  moreover have "(a, b) \<in> (edges F)\<^sup>+ \<longleftrightarrow>
      b \<in> F ! a \<or> (\<exists>i \<in> set [0..<n]. i \<in> F ! a \<and> (i, b) \<in> (edges F)\<^sup>+)"
  proof -
    have "(a, b) \<in> (edges F)\<^sup>+ \<longleftrightarrow> (a, b) \<in> edges F \<or> (\<exists>i. (a, i) \<in> edges F \<and> (i, b) \<in> (edges F)\<^sup>+)"
      by (meson converse_tranclE r_into_trancl trancl_into_trancl2)
    then show ?thesis
      using Suc.prems(2) bounded_graph_edge [OF assms(2)] by (auto simp: edges_iff)
  qed
  ultimately show ?case using Suc.prems(2) by simp
qed simp

lemma does_follow_correct:
  assumes "acyclic (edges F)" "bounded_graph n F" "a < length F"
  shows "does_follow (Suc n) F n a b = Ok ((a, b) \<in> (edges F)\<^sup>+)"
  using does_follow_fuel [OF assms(1,2) _ assms(3)] bounded_graph_reach_card [OF assms(2)]
  by (simp add: le_imp_less_Suc del: does_follow.simps)

lemma edges_insert: "h < length F \<Longrightarrow> edges (F[h := insert i (F ! h)]) = insert (h, i) (edges F)"
  by (auto simp: edges_def nth_list_update split: if_splits)

lemma trancl_insert_into:
  assumes "(i, h) \<notin> E\<^sup>+" "i \<noteq> h"
  shows "(i, x) \<in> (insert (h, i) E)\<^sup>+ \<longleftrightarrow> (i, x) \<in> E\<^sup>+"
  using assms by (auto simp: trancl_insert rtrancl_eq_or_trancl)

subsection \<open>The loop of will\_lock\<close>

text \<open>What the caller holds is ordered before the lock it asks for.\<close>

definition order_violation :: "lock_id \<Rightarrow> bool \<Rightarrow> lock_id set \<Rightarrow> (lock_id \<times> lock_id) set \<Rightarrow> bool" where
  "order_violation i recursive H E \<longleftrightarrow> i \<in> H \<and> \<not> recursive \<or> (\<exists>h \<in> H - {i}. (i, h) \<in> E\<^sup>+)"

definition graph_frame :: "lockdep \<Rightarrow> lockdep \<Rightarrow> bool" where
  "graph_frame s t \<longleftrightarrow> t = s\<lparr>follows := follows t, follows_bt := follows_bt t\<rparr>
     \<and> length (follows t) = length (follows s)"

lemma graph_frame_refl [simp]: "graph_frame s s"
  by (simp add: graph_frame_def)

lemma graph_frame_trans: "graph_frame s t \<Longrightarrow> graph_frame t u \<Longrightarrow> graph_frame s u"
  unfolding graph_frame_def by (cases s; cases t; cases u) simp

lemma check_held_spec:
  assumes "acyclic (edges (follows s))" "bounded_graph (current_maxid s) (follows s)"
    and "i < current_maxid s" "\<And>h. h \<in> omap_keys m \<Longrightarrow> h < current_maxid s"
  shows "if order_violation i recursive (omap_keys m) (edges (follows s))
    then check_held i force recursive m s = Fault Abort
    else \<exists>t. check_held i force recursive m s = Ok t \<and> graph_frame s t \<and> acyclic (edges (follows t))
      \<and> edges (follows t) = edges (follows s) \<union> (omap_keys m - {i}) \<times> {i}
      \<and> (\<forall>a b. follows_bt t a b \<noteq> NullBT \<longrightarrow> follows_bt s a b \<noteq> NullBT \<or> (a, b) \<in> edges (follows t))"
  using assms
proof (induction m arbitrary: s)
  case Nil
  then show ?case by (simp add: order_violation_def)
next
  case (Cons e m)
  obtain h b where e: "e = (h, b)" by (cases e)
  let ?E = "edges (follows s)"
  have len: "current_maxid s \<le> length (follows s)" using Cons.prems(2) by (simp add: bounded_graph_def)
  have h: "h < length (follows s)" and hn: "h < current_maxid s" and i: "i < length (follows s)"
    using Cons.prems(3,4) e len by fastforce+
  consider (same) "h = i" | (old) "h \<noteq> i" "(h, i) \<in> ?E" | (cycle) "h \<noteq> i" "(h, i) \<notin> ?E" "(i, h) \<in> ?E\<^sup>+"
    | (new) "h \<noteq> i" "(h, i) \<notin> ?E" "(i, h) \<notin> ?E\<^sup>+"
    by blast
  then show ?case
  proof cases
    case same
    have ov: "order_violation i recursive (omap_keys (e # m)) ?E \<longleftrightarrow>
        \<not> recursive \<or> order_violation i recursive (omap_keys m) ?E"
      by (auto simp: order_violation_def e same)
    show ?thesis
    proof (cases recursive)
      case True
      have step: "check_held i force recursive (e # m) s = check_held i force recursive m s"
        using True by (simp add: e same)
      have ks: "omap_keys (e # m) - {i} = omap_keys m - {i}" by (auto simp: e same)
      show ?thesis
        using Cons.IH [of s] Cons.prems True unfolding ov step ks by (auto split: if_splits simp: e)
    next
      case False
      then show ?thesis using ov by (simp add: e same)
    qed
  next
    case old
    then have "(i, h) \<notin> ?E\<^sup>+"
      using Cons.prems(1) unfolding acyclic_def by (meson trancl.intros)
    then have ov: "order_violation i recursive (omap_keys (e # m)) ?E \<longleftrightarrow>
        order_violation i recursive (omap_keys m) ?E"
      using old by (auto simp: order_violation_def e)
    have step: "check_held i force recursive (e # m) s = check_held i force recursive m s"
      using old h by (simp add: e edges_iff)
    have un: "?E \<union> (omap_keys (e # m) - {i}) \<times> {i} = ?E \<union> (omap_keys m - {i}) \<times> {i}"
      using old by (auto simp: e)
    show ?thesis
      using Cons.IH [of s] Cons.prems unfolding ov step un by (auto split: if_splits simp: e)
  next
    case cycle
    then have "order_violation i recursive (omap_keys (e # m)) ?E"
      by (auto simp: order_violation_def e)
    moreover have "check_held i force recursive (e # m) s = Fault Abort"
      using cycle h does_follow_correct [OF Cons.prems(1,2) i, of h] by (simp add: e edges_iff del: does_follow.simps)
    ultimately show ?thesis by simp
  next
    case new
    define s1 where "s1 = s\<lparr>follows := (follows s)[h := insert i (follows s ! h)],
      follows_bt := (follows_bt s)(h := (follows_bt s h)(i := if force then ClibBackTrace else NullBT))\<rparr>"
    have E1: "edges (follows s1) = insert (h, i) ?E"
      by (simp add: s1_def edges_insert h)
    have step: "check_held i force recursive (e # m) s = check_held i force recursive m s1"
      using new h does_follow_correct [OF Cons.prems(1,2) i, of h]
      by (simp add: e edges_iff s1_def del: does_follow.simps)
    have acyc: "acyclic (edges (follows s1))"
      using new Cons.prems(1) by (simp add: E1 acyclic_insert rtrancl_eq_or_trancl)
    have bnd: "bounded_graph (current_maxid s1) (follows s1)"
      using Cons.prems(2,3) hn len unfolding bounded_graph_def E1 by (auto simp: s1_def)
    have reach: "(i, x) \<in> (edges (follows s1))\<^sup>+ \<longleftrightarrow> (i, x) \<in> ?E\<^sup>+" for x
      unfolding E1 using new by (intro trancl_insert_into) auto
    have ov: "order_violation i recursive (omap_keys (e # m)) ?E \<longleftrightarrow>
        order_violation i recursive (omap_keys m) (edges (follows s1))"
      using new by (auto simp: order_violation_def e reach)
    have un: "?E \<union> (omap_keys (e # m) - {i}) \<times> {i} = edges (follows s1) \<union> (omap_keys m - {i}) \<times> {i}"
      using new by (auto simp: e E1)
    have fr: "graph_frame s s1" by (simp add: graph_frame_def s1_def)
    have bt: "follows_bt s1 a c \<noteq> NullBT \<longrightarrow> follows_bt s a c \<noteq> NullBT \<or> (a, c) \<in> edges (follows s1)" for a c
      by (simp add: E1) (simp add: s1_def)
    have mx: "current_maxid s1 = current_maxid s" by (simp add: s1_def)
    have IH: "if order_violation i recursive (omap_keys m) (edges (follows s1))
      then check_held i force recursive m s1 = Fault Abort
      else \<exists>t. check_held i force recursive m s1 = Ok t \<and> graph_frame s1 t \<and> acyclic (edges (follows t))
        \<and> edges (follows t) = edges (follows s1) \<union> (omap_keys m - {i}) \<times> {i}
        \<and> (\<forall>a b. follows_bt t a b \<noteq> NullBT \<longrightarrow> follows_bt s1 a b \<noteq> NullBT \<or> (a, b) \<in> edges (follows t))"
      using Cons.prems(3,4) by (intro Cons.IH acyc bnd) (simp_all add: mx e)
    show ?thesis
    proof (cases "order_violation i recursive (omap_keys m) (edges (follows s1))")
      case True
      then show ?thesis unfolding ov step using IH by simp
    next
      case False
      then obtain t where t: "check_held i force recursive m s1 = Ok t" "graph_frame s1 t"
          "acyclic (edges (follows t))" "edges (follows t) = edges (follows s1) \<union> (omap_keys m - {i}) \<times> {i}"
          "\<forall>a b. follows_bt t a b \<noteq> NullBT \<longrightarrow> follows_bt s1 a b \<noteq> NullBT \<or> (a, b) \<in> edges (follows t)"
        using IH by auto
      have "\<forall>a b. follows_bt t a b \<noteq> NullBT \<longrightarrow> follows_bt s a b \<noteq> NullBT \<or> (a, b) \<in> edges (follows t)"
        using t(4,5) bt by blast
      then show ?thesis
        unfolding ov step un using False t(1,3,4) graph_frame_trans [OF fr t(2)] by auto
    qed
  qed
qed


subsection \<open>The invariant\<close>

text \<open>
  \<open>ids_inv\<close>: names and ids are a bijection between the registered classes and ids below
  \<open>current_maxid\<close>, none of them free, each with a positive count; a free id has no count; all
  ids from \<open>current_maxid\<close> on are free. \<open>graph_inv\<close>: there is a row for every id and one
  to spare, edges join registered classes only, and the graph is acyclic. \<open>held_inv\<close>: threads
  hold registered classes.
\<close>

definition ids_inv :: "lockdep \<Rightarrow> bool" where
  "ids_inv s \<longleftrightarrow>
     (\<forall>n i. lock_ids s n = Some i \<longleftrightarrow> lock_names s i = Some n)
   \<and> dom (lock_names s) \<subseteq> {i. i < current_maxid s \<and> \<not> free_ids s i \<and> (\<exists>r>0. lock_refs s i = Some r)}
   \<and> Collect (free_ids s) \<subseteq> {i. i < MAX_LOCKS \<and> lock_refs s i = None}
   \<and> (free_ids_inited s \<longrightarrow> {current_maxid s ..< MAX_LOCKS} \<subseteq> Collect (free_ids s))
   \<and> current_maxid s \<le> MAX_LOCKS \<and> last_freed_id s < int (current_maxid s)
   \<and> (g_lockdep s \<longrightarrow> free_ids_inited s) \<and> (\<not> g_lockdep s \<longrightarrow> lock_names s = Map.empty)
   \<and> (\<not> free_ids_inited s \<longrightarrow> current_maxid s = 0 \<and> lock_refs s = Map.empty)"

definition graph_inv :: "lockdep \<Rightarrow> bool" where
  "graph_inv s \<longleftrightarrow>
     current_maxid s < length (follows s) \<and> acyclic (edges (follows s))
   \<and> edges (follows s) \<subseteq> dom (lock_names s) \<times> dom (lock_names s)
   \<and> (\<forall>a b. follows_bt s a b \<noteq> NullBT \<longrightarrow> (a, b) \<in> edges (follows s))"

definition held_inv :: "lockdep \<Rightarrow> bool" where
  "held_inv s \<longleftrightarrow> (\<forall>p. omap_sorted (held s p) \<and> omap_keys (held s p) \<subseteq> dom (lock_names s))"

definition lockdep_inv :: "lockdep \<Rightarrow> bool" where
  "lockdep_inv s \<longleftrightarrow> ids_inv s \<and> graph_inv s \<and> held_inv s"

lemmas lockdep_inv_defs = lockdep_inv_def ids_inv_def graph_inv_def held_inv_def

lemma edges_replicate [simp]: "edges (replicate n {}) = {}"
  by (auto simp: edges_def)

lemma NR_LOCKS_pos: "0 < NR_LOCKS"
  by (simp add: NR_LOCKS_def)

lemma lockdep_inv_start: "lockdep_inv lockdep_start"
  unfolding lockdep_inv_def
proof (intro conjI)
  show "ids_inv lockdep_start" by (simp add: ids_inv_def lockdep_start_def)
  show "held_inv lockdep_start" by (simp add: held_inv_def lockdep_start_def)
  show "graph_inv lockdep_start" by (simp add: graph_inv_def lockdep_start_def NR_LOCKS_pos acyclic_def)
qed

lemma lockdep_inv_init: "lockdep_inv s \<Longrightarrow> lockdep_inv (lockdep_global_init s)"
proof -
  assume inv: "lockdep_inv s"
  have "graph_inv (lockdep_global_init s) = graph_inv s" "held_inv (lockdep_global_init s) = held_inv s"
    by (simp_all add: lockdep_global_init_def graph_inv_def held_inv_def)
  moreover have "ids_inv (lockdep_global_init s)"
    using inv by (cases "g_lockdep s"; cases "free_ids_inited s")
      (auto simp: lockdep_global_init_def lockdep_inv_def ids_inv_def)
  ultimately show ?thesis using inv by (simp add: lockdep_inv_def)
qed

lemma ids_invI:
  assumes "\<And>n i. lock_ids s n = Some i \<longleftrightarrow> lock_names s i = Some n"
    and "\<And>i n. lock_names s i = Some n \<Longrightarrow>
      i < current_maxid s \<and> \<not> free_ids s i \<and> (\<exists>r>0. lock_refs s i = Some r)"
    and "\<And>i. free_ids s i \<Longrightarrow> i < MAX_LOCKS \<and> lock_refs s i = None"
    and "\<And>i. free_ids_inited s \<Longrightarrow> current_maxid s \<le> i \<Longrightarrow> i < MAX_LOCKS \<Longrightarrow> free_ids s i"
    and "current_maxid s \<le> MAX_LOCKS" "last_freed_id s < int (current_maxid s)"
    and "g_lockdep s \<Longrightarrow> free_ids_inited s" "\<not> g_lockdep s \<Longrightarrow> lock_names s = Map.empty"
    and "\<not> free_ids_inited s \<Longrightarrow> current_maxid s = 0 \<and> lock_refs s = Map.empty"
  shows "ids_inv s"
proof -
  have "dom (lock_names s) \<subseteq> {i. i < current_maxid s \<and> \<not> free_ids s i \<and> (\<exists>r>0. lock_refs s i = Some r)}"
    using assms(2) by blast
  moreover have "Collect (free_ids s) \<subseteq> {i. i < MAX_LOCKS \<and> lock_refs s i = None}"
    using assms(3) by blast
  moreover have "free_ids_inited s \<longrightarrow> {current_maxid s ..< MAX_LOCKS} \<subseteq> Collect (free_ids s)"
    using assms(4) by auto
  ultimately show ?thesis
    unfolding ids_inv_def using assms(1,5-9) by blast
qed

lemma inv_name:
  assumes "lockdep_inv s" "lock_names s i = Some n"
  shows "i < current_maxid s" "\<not> free_ids s i" "lock_ids s n = Some i" "\<exists>r>0. lock_refs s i = Some r"
    "g_lockdep s" "i < MAX_LOCKS"
proof -
  have i: "i \<in> dom (lock_names s)" using assms(2) by blast
  then show "i < current_maxid s" "\<not> free_ids s i" "\<exists>r>0. lock_refs s i = Some r"
    using assms(1) unfolding lockdep_inv_def ids_inv_def by blast+
  then show "i < MAX_LOCKS" using assms(1) by (simp add: lockdep_inv_def ids_inv_def)
  show "lock_ids s n = Some i" using assms by (simp add: lockdep_inv_def ids_inv_def)
  show "g_lockdep s" using assms by (cases "g_lockdep s") (simp_all add: lockdep_inv_def ids_inv_def)
qed

lemma inv_free:
  assumes "lockdep_inv s" "free_ids s i"
  shows "i < MAX_LOCKS" "lock_refs s i = None" "lock_names s i = None"
proof -
  show "i < MAX_LOCKS" "lock_refs s i = None"
    using assms unfolding lockdep_inv_def ids_inv_def by blast+
  then show "lock_names s i = None" using inv_name(4) [OF assms(1), of i] by (cases "lock_names s i") auto
qed

lemma inv_misc:
  assumes "lockdep_inv s"
  shows "lock_ids s n = Some i \<longleftrightarrow> lock_names s i = Some n"
    and "current_maxid s \<le> MAX_LOCKS" "last_freed_id s < int (current_maxid s)"
    and "g_lockdep s \<Longrightarrow> free_ids_inited s"
    and "\<not> free_ids_inited s \<Longrightarrow> current_maxid s = 0 \<and> lock_refs s = Map.empty"
    and "free_ids_inited s \<Longrightarrow> current_maxid s \<le> i \<Longrightarrow> i < MAX_LOCKS \<Longrightarrow> free_ids s i"
proof -
  have "free_ids_inited s \<Longrightarrow> {current_maxid s ..< MAX_LOCKS} \<subseteq> Collect (free_ids s)"
    using assms unfolding lockdep_inv_def ids_inv_def by blast
  then show "free_ids_inited s \<Longrightarrow> current_maxid s \<le> i \<Longrightarrow> i < MAX_LOCKS \<Longrightarrow> free_ids s i" by auto
qed (use assms in \<open>simp_all add: lockdep_inv_def ids_inv_def\<close>)

lemma inv_edge:
  assumes "lockdep_inv s" "(a, b) \<in> edges (follows s)"
  shows "a \<in> dom (lock_names s)" "b \<in> dom (lock_names s)" "a < current_maxid s" "b < current_maxid s"
proof -
  show "a \<in> dom (lock_names s)" "b \<in> dom (lock_names s)"
    using assms unfolding lockdep_inv_def graph_inv_def by blast+
  then show "a < current_maxid s" "b < current_maxid s" using inv_name(1) [OF assms(1)] by blast+
qed

lemma inv_graph:
  assumes "lockdep_inv s"
  shows "acyclic (edges (follows s))" "bounded_graph (current_maxid s) (follows s)"
    "current_maxid s < length (follows s)"
  using assms inv_edge [OF assms] by (auto simp: lockdep_inv_def graph_inv_def bounded_graph_def)

lemma inv_held:
  assumes "lockdep_inv s"
  shows "omap_sorted (held s p)" "h \<in> omap_keys (held s p) \<Longrightarrow> h \<in> dom (lock_names s)"
    "h \<in> omap_keys (held s p) \<Longrightarrow> h < current_maxid s"
  using assms inv_name(1) [OF assms] by (fastforce simp: lockdep_inv_def held_inv_def)+

lemma edges_cleared:
  assumes "\<And>a b. (a, b) \<in> edges F \<Longrightarrow> a < n"
  shows "edges (replicate (min n (length F)) {} @ drop n F) = {}"
proof -
  have "b \<notin> (replicate (min n (length F)) {} @ drop n F) ! a"
    if "a < length F" for a b
  proof (cases "a < n")
    case False
    then have "(replicate (min n (length F)) {} @ drop n F) ! a = F ! a"
      using that by (simp add: nth_append min_def)
    then show ?thesis using assms [of a b] that False by (auto simp: edges_iff)
  qed (use that in \<open>simp add: nth_append\<close>)
  then show ?thesis by (auto simp: edges_def)
qed

lemma lockdep_inv_destroy: "lockdep_inv s \<Longrightarrow> lockdep_inv (lockdep_global_destroy s)"
proof -
  assume inv: "lockdep_inv s"
  then have lt: "a < current_maxid s" if "(a, b) \<in> edges (follows s)" for a b
    using inv_edge(3) that by blast
  show ?thesis
  proof (cases "g_lockdep s")
    case True
    have "edges (follows (lockdep_global_destroy s)) = {}"
      using True edges_cleared [OF lt] by (simp add: lockdep_global_destroy_def)
    moreover have "follows_bt (lockdep_global_destroy s) a b = NullBT" for a b
    proof -
      have "follows_bt s a b \<noteq> NullBT \<Longrightarrow> a < current_maxid s"
        using inv lt unfolding lockdep_inv_def graph_inv_def by blast
      then show ?thesis using True by (auto simp: lockdep_global_destroy_def)
    qed
    moreover have "ids_inv (lockdep_global_destroy s)" "held_inv (lockdep_global_destroy s)"
      using True inv by (simp_all add: lockdep_global_destroy_def lockdep_inv_def ids_inv_def held_inv_def)
    moreover have "current_maxid (lockdep_global_destroy s) < length (follows (lockdep_global_destroy s))"
      using True inv by (simp add: lockdep_global_destroy_def lockdep_inv_def graph_inv_def)
    ultimately show ?thesis
      by (simp add: lockdep_inv_def graph_inv_def acyclic_def)
  qed (use inv in \<open>simp add: lockdep_global_destroy_def\<close>)
qed

subsection \<open>Registration\<close>

lemma scan_free_Some: "scan_free free i = Some j \<Longrightarrow>
  i \<le> j \<and> j < MAX_LOCKS \<and> free j \<and> (\<forall>k. i \<le> k \<and> k < j \<longrightarrow> \<not> free k)"
proof (induction free i rule: scan_free.induct)
  case (1 free i)
  show ?case
  proof (cases "i < MAX_LOCKS \<and> \<not> free i")
    case True
    with 1 have "Suc i \<le> j \<and> j < MAX_LOCKS \<and> free j \<and> (\<forall>k. Suc i \<le> k \<and> k < j \<longrightarrow> \<not> free k)"
      by (simp add: scan_free.simps [of free i])
    with True show ?thesis by (metis Suc_leD le_antisym not_less_eq_eq)
  next
    case False
    with "1.prems" show ?thesis by (auto simp: scan_free.simps [of free i] split: if_splits)
  qed
qed

lemma scan_free_None: "scan_free free i = None \<Longrightarrow> i \<le> k \<Longrightarrow> k < MAX_LOCKS \<Longrightarrow> \<not> free k"
proof (induction free i rule: scan_free.induct)
  case (1 free i)
  have i: "i < MAX_LOCKS" using "1.prems" by simp
  with "1.prems"(1) have nf: "\<not> free i" and rest: "scan_free free (Suc i) = None"
    by (auto simp: scan_free.simps [of free i] split: if_splits)
  show ?case
  proof (cases "k = i")
    case False
    then show ?thesis using "1.IH" [OF i nf rest] "1.prems" by simp
  qed (simp add: nf)
qed

text \<open>What a fresh id is: free before, below or at \<open>current_maxid\<close>, and only that bit changes.\<close>

lemma get_free_id_Some:
  assumes "ids_inv s" "g_lockdep s" "lockdep_get_free_id s = (lid, t)" "0 \<le> lid"
  shows "free_ids s (nat lid)" "nat lid \<le> current_maxid s" "nat lid < MAX_LOCKS"
    and "free_ids t = (free_ids s)(nat lid := False)"
    and "last_freed_id t \<in> {last_freed_id s, -1}"
    and "t = s\<lparr>free_ids := free_ids t, last_freed_id := last_freed_id t\<rparr>"
proof -
  have ini: "free_ids_inited s" and freeMAX: "\<forall>i. free_ids s i \<longrightarrow> i < MAX_LOCKS"
    and top: "\<forall>i. current_maxid s \<le> i \<and> i < MAX_LOCKS \<longrightarrow> free_ids s i"
    and lf: "last_freed_id s < int (current_maxid s)" and mx: "current_maxid s \<le> MAX_LOCKS"
    using assms(1,2) by (auto simp: ids_inv_def)
  have "free_ids s (nat lid) \<and> nat lid \<le> current_maxid s \<and> nat lid < MAX_LOCKS
    \<and> free_ids t = (free_ids s)(nat lid := False) \<and> last_freed_id t \<in> {last_freed_id s, -1}
    \<and> t = s\<lparr>free_ids := free_ids t, last_freed_id := last_freed_id t\<rparr>"
  proof (cases "0 \<le> last_freed_id s \<and> free_ids s (nat (last_freed_id s))")
    case True
    then show ?thesis using assms(3) lf freeMAX by (auto simp: lockdep_get_free_id_def)
  next
    case False
    then obtain j where j: "scan_free (free_ids s) 0 = Some j" "lid = int j" "t = s\<lparr>free_ids := (free_ids s)(j := False)\<rparr>"
      using assms(3,4) by (auto simp: lockdep_get_free_id_def split: option.splits)
    note sj = scan_free_Some [OF j(1)]
    have "j \<le> current_maxid s"
    proof (rule ccontr)
      assume "\<not> j \<le> current_maxid s"
      then show False using sj top by auto
    qed
    then show ?thesis using sj j by simp
  qed
  then show "free_ids s (nat lid)" "nat lid \<le> current_maxid s" "nat lid < MAX_LOCKS"
    "free_ids t = (free_ids s)(nat lid := False)" "last_freed_id t \<in> {last_freed_id s, -1}"
    "t = s\<lparr>free_ids := free_ids t, last_freed_id := last_freed_id t\<rparr>" by blast+
qed

lemma get_free_id_none:
  assumes "lockdep_get_free_id s = (lid, t)" "lid < 0"
  shows "\<forall>i < MAX_LOCKS. \<not> free_ids s i"
  using assms scan_free_None [of "free_ids s" 0]
  by (auto simp: lockdep_get_free_id_def split: if_splits option.splits)

lemma edges_append_empty [simp]: "edges (F @ replicate k {}) = edges F"
  by (auto simp: edges_def nth_append split: if_splits)

lemma edges_snoc_empty [simp]: "edges (F @ [{}]) = edges F"
  using edges_append_empty [of F 1] by simp

lemma grow_for_spec:
  assumes "i \<le> current_maxid s" "current_maxid s < length (follows s)"
  shows "grow_for i s = s\<lparr>current_maxid := max (current_maxid s) (i + 1), follows := follows (grow_for i s)\<rparr>"
    and "edges (follows (grow_for i s)) = edges (follows s)"
    and "max (current_maxid s) (i + 1) < length (follows (grow_for i s))"
  using assms by (auto simp: grow_for_def Let_def vec_resize_def)

text \<open>
  Registration either returns the known id of the name with one more reference, or a fresh id
  that no edge mentions; it aborts only when all \<open>MAX_LOCKS\<close> ids are taken.
\<close>

lemma inv_incr_ref:
  assumes "lockdep_inv s" "i \<in> dom (lock_names s)"
  shows "lockdep_inv (incr_ref i s)"
proof -
  obtain r where r: "lock_refs s i = Some r" "0 < r" using inv_name(4) [OF assms(1)] assms(2) by blast
  have nf: "\<not> free_ids s i" using inv_name(2) [OF assms(1)] assms(2) by blast
  have "ids_inv (incr_ref i s)"
  proof (rule ids_invI)
    show "free_ids (incr_ref i s) j \<Longrightarrow> j < MAX_LOCKS \<and> lock_refs (incr_ref i s) j = None" for j
      using inv_free [OF assms(1), of j] nf by (cases "j = i") (simp_all add: incr_ref_def)
    show "lock_names (incr_ref i s) j = Some n \<Longrightarrow> j < current_maxid (incr_ref i s)
        \<and> \<not> free_ids (incr_ref i s) j \<and> (\<exists>r>0. lock_refs (incr_ref i s) j = Some r)" for j n
      using inv_name [OF assms(1), of j n] r by (cases "j = i") (simp_all add: incr_ref_def)
    show "\<not> g_lockdep (incr_ref i s) \<Longrightarrow> lock_names (incr_ref i s) = Map.empty"
      using inv_name(5) [OF assms(1)] by (fastforce simp: incr_ref_def)
    show "\<not> free_ids_inited (incr_ref i s) \<Longrightarrow> current_maxid (incr_ref i s) = 0 \<and> lock_refs (incr_ref i s) = Map.empty"
      using inv_misc(5) [OF assms(1)] r by (simp add: incr_ref_def)
  qed (use inv_misc [OF assms(1)] in \<open>simp_all add: incr_ref_def\<close>)
  moreover have "graph_inv (incr_ref i s) = graph_inv s" "held_inv (incr_ref i s) = held_inv s"
    by (simp_all add: incr_ref_def graph_inv_def held_inv_def)
  ultimately show ?thesis using assms(1) by (simp add: lockdep_inv_def)
qed

lemma register_fresh_inv:
  assumes inv: "lockdep_inv s" and g: "g_lockdep s" and new: "lock_ids s name = None"
    and fid: "lockdep_get_free_id s = (lid, t)" and pos: "0 \<le> lid"
  defines "i \<equiv> nat lid"
  defines "u \<equiv> grow_for i t"
  defines "v \<equiv> incr_ref i (u\<lparr>lock_ids := (lock_ids u)(name \<mapsto> i), lock_names := (lock_names u)(i \<mapsto> name)\<rparr>)"
  shows "lockdep_inv v" "edges (follows v) = edges (follows s)" "held v = held s" "g_lockdep v"
    "lock_names v = (lock_names s)(i \<mapsto> name)" "lock_refs v = (lock_refs s)(i \<mapsto> 1)"
    "current_maxid v = max (current_maxid s) (i + 1)" "i \<notin> dom (lock_names s)"
    "lock_ids v = (lock_ids s)(name \<mapsto> i)"
proof -
  note fresh = get_free_id_Some [OF _ g fid pos, folded i_def]
  have idsinv: "ids_inv s" and ginv: "graph_inv s" and hinv: "held_inv s" using inv by (simp_all add: lockdep_inv_def)
  note f = fresh [OF idsinv]
  have i0: "lock_refs s i = None" "lock_names s i = None" using inv_free [OF inv f(1)] by simp_all
  have t: "current_maxid t = current_maxid s" "follows t = follows s" "follows_bt t = follows_bt s" "held t = held s" "lock_names t = lock_names s"
    "lock_ids t = lock_ids s" "lock_refs t = lock_refs s" "g_lockdep t = g_lockdep s" "free_ids_inited t = free_ids_inited s"
    by (subst f(6), simp)+
  have gr: "u = t\<lparr>current_maxid := max (current_maxid s) (i + 1), follows := follows u\<rparr>"
    "edges (follows u) = edges (follows s)" "max (current_maxid s) (i + 1) < length (follows u)"
    using grow_for_spec [of i t] f(2) inv_graph(3) [OF inv] by (simp_all add: t u_def)
  have u: "current_maxid u = max (current_maxid s) (i + 1)" "follows_bt u = follows_bt s" "held u = held s" "lock_names u = lock_names s"
    "lock_ids u = lock_ids s" "lock_refs u = lock_refs s" "g_lockdep u = g_lockdep s" "free_ids_inited u = free_ids_inited s"
    "free_ids u = (free_ids s)(i := False)" "last_freed_id u = last_freed_id t"
    by (subst gr(1), simp add: t f(4))+
  show ev: "edges (follows v) = edges (follows s)" and "held v = held s" and gv: "g_lockdep v"
    and names: "lock_names v = (lock_names s)(i \<mapsto> name)" and refs: "lock_refs v = (lock_refs s)(i \<mapsto> 1)"
    and mx: "current_maxid v = max (current_maxid s) (i + 1)" and ids: "lock_ids v = (lock_ids s)(name \<mapsto> i)"
    using g i0 by (simp_all add: v_def incr_ref_def u gr(2))
  show "i \<notin> dom (lock_names s)" using i0 by blast
  have v: "free_ids v = (free_ids s)(i := False)" "last_freed_id v = last_freed_id t" "free_ids_inited v = free_ids_inited s"
    by (simp_all add: v_def incr_ref_def u)
  note bij = inv_misc(1) [OF inv]
  have "ids_inv v"
  proof (rule ids_invI)
    show "lock_ids v n = Some j \<longleftrightarrow> lock_names v j = Some n" for n j
    proof -
      have "lock_names s j \<noteq> Some name" using bij new by (metis option.distinct(1))
      moreover have "lock_ids s n \<noteq> Some i" using bij i0 by simp
      ultimately show ?thesis
        by (cases "j = i"; cases "n = name") (simp_all add: ids names bij)
    qed
    show "lock_names v j = Some n \<Longrightarrow> j < current_maxid v \<and> \<not> free_ids v j \<and> (\<exists>r>0. lock_refs v j = Some r)" for j n
      using inv_name [OF inv, of j n] by (cases "j = i") (simp_all add: mx v names refs)
    show "free_ids v j \<Longrightarrow> j < MAX_LOCKS \<and> lock_refs v j = None" for j
      using inv_free [OF inv, of j] by (cases "j = i") (simp_all add: refs v)
    show "free_ids_inited v \<Longrightarrow> current_maxid v \<le> j \<Longrightarrow> j < MAX_LOCKS \<Longrightarrow> free_ids v j" for j
      using inv_misc(6) [OF inv, of j] by (simp add: v mx)
    show "last_freed_id v < int (current_maxid v)"
      using f(5) inv_misc(3) [OF inv] by (auto simp: v mx)
  qed (use inv_misc [OF inv] f(3) g gv in \<open>simp_all add: v mx\<close>)
  moreover have "graph_inv v"
    using ginv gr(2,3) unfolding v_def incr_ref_def graph_inv_def by (auto simp: u)
  moreover have "held_inv v"
    using hinv unfolding v_def incr_ref_def held_inv_def by (auto simp: u)
  ultimately show "lockdep_inv v" by (simp add: lockdep_inv_def)
qed


lemma register_Ok:
  assumes inv: "lockdep_inv s" and g: "g_lockdep s" and r: "lockdep_register_inner name s = Ok (lid, v)"
  shows "lockdep_inv v" "0 \<le> lid" "g_lockdep v" "held v = held s" "edges (follows v) = edges (follows s)"
    "lock_names v = (lock_names s)(nat lid \<mapsto> name)" "lock_ids v = (lock_ids s)(name \<mapsto> nat lid)"
    "lock_ids s name = Some (nat lid) \<or> lock_ids s name = None \<and> nat lid \<notin> dom (lock_names s)"
    "lock_refs v = (lock_refs s)(nat lid \<mapsto> (case lock_refs s (nat lid) of None \<Rightarrow> 1 | Some k \<Rightarrow> k + 1))"
    "current_maxid s \<le> current_maxid v"
proof -
  have "lockdep_inv v \<and> 0 \<le> lid \<and> g_lockdep v \<and> held v = held s \<and> edges (follows v) = edges (follows s)
    \<and> lock_names v = (lock_names s)(nat lid \<mapsto> name) \<and> lock_ids v = (lock_ids s)(name \<mapsto> nat lid)
    \<and> (lock_ids s name = Some (nat lid) \<or> lock_ids s name = None \<and> nat lid \<notin> dom (lock_names s))
    \<and> lock_refs v = (lock_refs s)(nat lid \<mapsto> (case lock_refs s (nat lid) of None \<Rightarrow> 1 | Some k \<Rightarrow> k + 1))
    \<and> current_maxid s \<le> current_maxid v"
  proof (cases "lock_ids s name")
    case None
    obtain l t where f: "lockdep_get_free_id s = (l, t)" by fastforce
    have l: "lid = l" "0 \<le> l" and v: "v = (let u = grow_for (nat l) t in incr_ref (nat l)
        (u\<lparr>lock_ids := (lock_ids u)(name \<mapsto> nat l), lock_names := (lock_names u)(nat l \<mapsto> name)\<rparr>))"
      using r g None f by (auto simp: lockdep_register_inner_def Let_def split: if_splits)
    have "lock_refs s (nat l) = None"
      using get_free_id_Some(1) [OF _ g f l(2)] inv_free(2) [OF inv] inv by (simp add: lockdep_inv_def)
    then show ?thesis
      using register_fresh_inv [OF inv g None f l(2)] None by (simp add: v l Let_def)
  next
    case (Some i)
    then have nm: "lock_names s i = Some name" using inv_misc(1) [OF inv] by simp
    then obtain k where "lock_refs s i = Some k" using inv_name(4) [OF inv] by blast
    then show ?thesis
      using r g Some nm inv_incr_ref [OF inv, of i]
      by (auto simp: lockdep_register_inner_def incr_ref_def fun_upd_idem)
  qed
  then show "lockdep_inv v" "0 \<le> lid" "g_lockdep v" "held v = held s" "edges (follows v) = edges (follows s)"
    "lock_names v = (lock_names s)(nat lid \<mapsto> name)" "lock_ids v = (lock_ids s)(name \<mapsto> nat lid)"
    "lock_ids s name = Some (nat lid) \<or> lock_ids s name = None \<and> nat lid \<notin> dom (lock_names s)"
    "lock_refs v = (lock_refs s)(nat lid \<mapsto> (case lock_refs s (nat lid) of None \<Rightarrow> 1 | Some k \<Rightarrow> k + 1))"
    "current_maxid s \<le> current_maxid v"
    by blast+
qed

lemma register_Fault:
  "lockdep_register_inner name s = Fault e \<Longrightarrow> e = Abort \<and> lock_ids s name = None \<and> (\<forall>i<MAX_LOCKS. \<not> free_ids s i)"
  using get_free_id_none [of s]
  by (auto simp: lockdep_register_inner_def Let_def split: if_splits option.splits prod.splits)

lemma register_names_le:
  assumes "lockdep_inv s" "g_lockdep s" "lockdep_register_inner name s = Ok (lid, v)"
  shows "lock_names s \<subseteq>\<^sub>m lock_names v"
  using register_Ok(6,8) [OF assms] inv_misc(1) [OF assms(1)] by (auto simp: map_le_def)

subsection \<open>Unregistration\<close>

lemma edges_drop_edges:
  assumes "i < length (follows s)" "\<And>a b. (a, b) \<in> edges (follows s) \<Longrightarrow> a < current_maxid s"
  shows "edges (follows (drop_edges i s)) = {(a, b) \<in> edges (follows s). a \<noteq> i \<and> b \<noteq> i}"
proof -
  have len: "length (follows (drop_edges i s)) = length (follows s)"
    by (simp add: drop_edges_def Let_def)
  have "b \<in> follows (drop_edges i s) ! a \<longleftrightarrow> b \<in> follows s ! a \<and> a \<noteq> i \<and> b \<noteq> i"
    if a: "a < length (follows s)" for a b
  proof -
    have "follows (drop_edges i s) ! a =
        (if a < current_maxid s then (follows s)[i := {}] ! a - {i} else (follows s)[i := {}] ! a)"
      using a by (simp add: drop_edges_def Let_def)
    then show ?thesis
      using a assms(2) [of a b] by (cases "a = i") (auto simp: nth_list_update edges_iff)
  qed
  then show ?thesis by (auto simp: edges_iff len)
qed

lemma unregister_inv:
  assumes inv: "lockdep_inv s" and nm: "lock_names s i = Some name"
    and unheld: "lock_refs s i = Some 1 \<Longrightarrow> \<forall>p. i \<notin> omap_keys (held s p)"
  shows "\<exists>t. lockdep_unregister (int i) s = Ok t \<and> lockdep_inv t
    \<and> (if lock_refs s i = Some 1
       then edges (follows t) = {(a, b) \<in> edges (follows s). a \<noteq> i \<and> b \<noteq> i}
          \<and> lock_names t = (lock_names s)(i := None) \<and> lock_ids t = (lock_ids s)(name := None)
          \<and> lock_refs t = (lock_refs s)(i := None)
          \<and> free_ids t = (free_ids s)(i := True) \<and> last_freed_id t = int i
       else edges (follows t) = edges (follows s) \<and> lock_names t = lock_names s \<and> lock_ids t = lock_ids s)
    \<and> held t = held s \<and> g_lockdep t = g_lockdep s"
proof -
  obtain r where r: "lock_refs s i = Some r" "0 < r" using inv_name(4) [OF inv nm] by blast
  note i = inv_name [OF inv nm]
  have len: "i < length (follows s)" using i(1) inv_graph(3) [OF inv] by simp
  show ?thesis
  proof (cases "r = 1")
    case False
    define t where "t = s\<lparr>lock_refs := (lock_refs s)(i \<mapsto> r - 1)\<rparr>"
    have "ids_inv t"
    proof (rule ids_invI)
      show "lock_names t j = Some n \<Longrightarrow> j < current_maxid t \<and> \<not> free_ids t j \<and> (\<exists>r>0. lock_refs t j = Some r)" for j n
        using inv_name [OF inv, of j n] r False by (cases "j = i") (simp_all add: t_def)
      show "free_ids t j \<Longrightarrow> j < MAX_LOCKS \<and> lock_refs t j = None" for j
        using inv_free [OF inv, of j] i(2) by (cases "j = i") (simp_all add: t_def)
    qed (use inv_misc [OF inv] i(5) r in \<open>simp_all add: t_def\<close>)
    moreover have "graph_inv t = graph_inv s" "held_inv t = held_inv s"
      by (simp_all add: t_def graph_inv_def held_inv_def)
    ultimately have "lockdep_inv t" using inv by (simp add: lockdep_inv_def)
    moreover have "lockdep_unregister (int i) s = Ok t"
      using nm r False by (simp add: lockdep_unregister_def t_def)
    ultimately show ?thesis using r False by (simp add: t_def)
  next
    case True
    define d where "d = drop_edges i s"
    define t where "t = d\<lparr>lock_ids := (lock_ids d)(name := None), lock_names := (lock_names d)(i := None),
      lock_refs := (lock_refs d)(i := None), free_ids := (free_ids d)(i := True), last_freed_id := int i\<rparr>"
    have d: "d = s\<lparr>follows := follows d, follows_bt := follows_bt d\<rparr>" "length (follows d) = length (follows s)"
      by (simp_all add: d_def drop_edges_def Let_def)
    have ed: "edges (follows t) = {(a, b) \<in> edges (follows s). a \<noteq> i \<and> b \<noteq> i}"
      using edges_drop_edges [OF len inv_edge(3) [OF inv]] by (simp add: t_def d_def)
    have t: "lock_ids t = (lock_ids s)(name := None)" "lock_names t = (lock_names s)(i := None)"
      "lock_refs t = (lock_refs s)(i := None)" "free_ids t = (free_ids s)(i := True)" "last_freed_id t = int i"
      "current_maxid t = current_maxid s" "held t = held s" "g_lockdep t = g_lockdep s" "free_ids_inited t = free_ids_inited s"
      by (simp_all add: t_def) (subst d(1), simp)+
    have "ids_inv t"
    proof (rule ids_invI)
      show "lock_ids t n = Some j \<longleftrightarrow> lock_names t j = Some n" for n j
      proof -
        have "j \<noteq> i \<Longrightarrow> lock_names s j \<noteq> Some name"
          using inv_misc(1) [OF inv, of name j] i(3) by simp
        then show ?thesis
          using inv_misc(1) [OF inv, of n j] nm by (cases "j = i"; cases "n = name") (auto simp: t)
      qed
      show "lock_names t j = Some n \<Longrightarrow> j < current_maxid t \<and> \<not> free_ids t j \<and> (\<exists>r>0. lock_refs t j = Some r)" for j n
        using inv_name [OF inv, of j n] by (cases "j = i") (simp_all add: t)
      show "free_ids t j \<Longrightarrow> j < MAX_LOCKS \<and> lock_refs t j = None" for j
        using inv_free [OF inv, of j] i(6) by (cases "j = i") (simp_all add: t)
      show "free_ids_inited t \<Longrightarrow> current_maxid t \<le> j \<Longrightarrow> j < MAX_LOCKS \<Longrightarrow> free_ids t j" for j
        using inv_misc(6) [OF inv, of j] by (cases "j = i") (simp_all add: t)
    qed (use inv_misc [OF inv] i(1,5) in \<open>simp_all add: t\<close>)
    moreover have "graph_inv t"
    proof -
      have "acyclic (edges (follows t))"
        by (rule acyclic_subset [OF inv_graph(1) [OF inv]]) (auto simp: ed)
      moreover have "edges (follows t) \<subseteq> dom (lock_names t) \<times> dom (lock_names t)"
        using inv_edge(1,2) [OF inv] by (fastforce simp: ed t)
      moreover have "(a, b) \<in> edges (follows t)" if "follows_bt t a b \<noteq> NullBT" for a b
      proof -
        have "follows_bt s a b \<noteq> NullBT" and ne: "\<not> (a = i \<and> b < current_maxid s \<or> a < current_maxid s \<and> b = i)"
          using that by (auto simp: t_def d_def drop_edges_def Let_def split: if_splits)
        then have "(a, b) \<in> edges (follows s)" using inv by (simp add: lockdep_inv_def graph_inv_def)
        then show ?thesis using ne inv_edge(3,4) [OF inv] by (auto simp: ed)
      qed
      ultimately show ?thesis
        using inv_graph(3) [OF inv] d(2) by (auto simp: graph_inv_def t(6)) (simp add: t_def)
    qed
    moreover have "held_inv t"
      using inv unheld r True by (fastforce simp: lockdep_inv_def held_inv_def t)
    ultimately have "lockdep_inv t" by (simp add: lockdep_inv_def)
    moreover have "lockdep_unregister (int i) s = Ok t"
      using nm r True len by (simp add: lockdep_unregister_def t_def d_def Let_def)
    ultimately show ?thesis using r True ed by (simp add: t)
  qed
qed

subsection \<open>Locking\<close>

lemma inv_graph_frame:
  assumes "lockdep_inv s" "graph_frame s t" "acyclic (edges (follows t))"
    and "edges (follows t) \<subseteq> dom (lock_names s) \<times> dom (lock_names s)"
    and "\<And>a b. follows_bt t a b \<noteq> NullBT \<Longrightarrow> follows_bt s a b \<noteq> NullBT \<or> (a, b) \<in> edges (follows t)"
    and "edges (follows s) \<subseteq> edges (follows t)"
  shows "lockdep_inv t"
proof -
  have t: "t = s\<lparr>follows := follows t, follows_bt := follows_bt t\<rparr>" "length (follows t) = length (follows s)"
    using assms(2) by (simp_all add: graph_frame_def)
  have "ids_inv t \<longleftrightarrow> ids_inv s" "held_inv t \<longleftrightarrow> held_inv s"
    by (subst t(1), simp add: ids_inv_def held_inv_def)+
  moreover have "graph_inv t"
  proof -
    have f: "current_maxid t = current_maxid s" "lock_names t = lock_names s"
      by (subst t(1), simp)+
    have "(a, b) \<in> edges (follows t)" if "follows_bt t a b \<noteq> NullBT" for a b
      using assms(5) [OF that] assms(1,6) by (auto simp: lockdep_inv_def graph_inv_def)
    then show ?thesis
      using assms(3,4) inv_graph(3) [OF assms(1)] by (simp add: graph_inv_def f t(2))
  qed
  ultimately show ?thesis using assms(1) by (simp add: lockdep_inv_def)
qed

lemma graph_frame_fields:
  assumes "graph_frame s t"
  shows "held t = held s" "lock_names t = lock_names s" "lock_ids t = lock_ids s" "lock_refs t = lock_refs s"
    "g_lockdep t = g_lockdep s" "current_maxid t = current_maxid s" "free_ids t = free_ids s"
  using assms by (cases s; cases t; simp add: graph_frame_def)+

lemma check_held_inv:
  assumes inv: "lockdep_inv s" and i: "i \<in> dom (lock_names s)"
  shows "if order_violation i recursive (omap_keys (held s p)) (edges (follows s))
    then check_held i force recursive (held s p) s = Fault Abort
    else \<exists>t. check_held i force recursive (held s p) s = Ok t \<and> graph_frame s t \<and> lockdep_inv t
      \<and> edges (follows t) = edges (follows s) \<union> (omap_keys (held s p) - {i}) \<times> {i}"
proof (cases "order_violation i recursive (omap_keys (held s p)) (edges (follows s))")
  case True
  then show ?thesis
    using check_held_spec [OF inv_graph(1,2) [OF inv], of i "held s p" recursive force] inv_held(3) [OF inv]
      inv_name(1) [OF inv] i by auto
next
  case False
  then obtain t where t: "check_held i force recursive (held s p) s = Ok t" "graph_frame s t"
      "acyclic (edges (follows t))" "edges (follows t) = edges (follows s) \<union> (omap_keys (held s p) - {i}) \<times> {i}"
      "\<forall>a b. follows_bt t a b \<noteq> NullBT \<longrightarrow> follows_bt s a b \<noteq> NullBT \<or> (a, b) \<in> edges (follows t)"
    using check_held_spec [OF inv_graph(1,2) [OF inv], of i "held s p" recursive force] inv_held(3) [OF inv]
      inv_name(1) [OF inv] i by auto
  have "edges (follows t) \<subseteq> dom (lock_names s) \<times> dom (lock_names s)"
    using inv_edge(1,2) [OF inv] inv_held(2) [OF inv] i unfolding t(4) by fastforce
  then have "lockdep_inv t"
    by (rule inv_graph_frame [OF inv t(2,3)]) (use t(4,5) in auto)
  then show ?thesis using False t by auto
qed

lemma will_lock_known:
  assumes inv: "lockdep_inv s" and nm: "0 \<le> lid" "nat lid \<in> dom (lock_names s)"
  shows "if order_violation (nat lid) recursive (omap_keys (held s p)) (edges (follows s))
    then lockdep_will_lock p name lid force recursive s = Fault Abort
    else \<exists>t. lockdep_will_lock p name lid force recursive s = Ok (lid, t) \<and> graph_frame s t \<and> lockdep_inv t
      \<and> edges (follows t) = edges (follows s) \<union> (omap_keys (held s p) - {nat lid}) \<times> {nat lid}"
proof -
  have g: "g_lockdep s" using inv_name(5) [OF inv] nm(2) by blast
  show ?thesis
    using check_held_inv [OF inv nm(2), of recursive p force] nm(1) g
    by (cases "order_violation (nat lid) recursive (omap_keys (held s p)) (edges (follows s))")
      (auto simp: lockdep_will_lock_def)
qed

lemma locked_inv:
  assumes inv: "lockdep_inv s" and nm: "i \<in> dom (lock_names s)"
  shows "lockdep_inv (s\<lparr>held := (held s)(p := omap_put i b (held s p))\<rparr>)"
proof -
  let ?t = "s\<lparr>held := (held s)(p := omap_put i b (held s p))\<rparr>"
  have "ids_inv ?t \<longleftrightarrow> ids_inv s" "graph_inv ?t \<longleftrightarrow> graph_inv s"
    by (simp_all add: ids_inv_def graph_inv_def)
  moreover have "held_inv ?t"
    using inv nm by (auto simp: lockdep_inv_def held_inv_def omap_sorted_put)
  ultimately show ?thesis using inv by (simp add: lockdep_inv_def)
qed

lemma will_unlock_inv:
  assumes inv: "lockdep_inv s"
  shows "lockdep_inv (s\<lparr>held := (held s)(p := omap_del i (held s p))\<rparr>)"
proof -
  let ?t = "s\<lparr>held := (held s)(p := omap_del i (held s p))\<rparr>"
  have "ids_inv ?t \<longleftrightarrow> ids_inv s" "graph_inv ?t \<longleftrightarrow> graph_inv s"
    by (simp_all add: ids_inv_def graph_inv_def)
  moreover have "held_inv ?t"
    using inv by (auto simp: lockdep_inv_def held_inv_def omap_sorted_del)
  ultimately show ?thesis using inv by (simp add: lockdep_inv_def)
qed

subsection \<open>Calls, and runs of calls\<close>

datatype call =
    Init | Destroy | Register string | Unregister int
  | WillLock thread string int bool bool | Locked thread string int bool | WillUnlock thread string int

fun lockdep_call :: "call \<Rightarrow> lockdep \<Rightarrow> (int \<times> lockdep) res" where
  "lockdep_call Init s = Ok (0, lockdep_global_init s)"
| "lockdep_call Destroy s = Ok (0, lockdep_global_destroy s)"
| "lockdep_call (Register name) s = lockdep_register name s"
| "lockdep_call (Unregister lid) s = rbind (lockdep_unregister lid s) (\<lambda>t. Ok (0, t))"
| "lockdep_call (WillLock p name lid force recursive) s = lockdep_will_lock p name lid force recursive s"
| "lockdep_call (Locked p name lid force) s = lockdep_locked p name lid force s"
| "lockdep_call (WillUnlock p name lid) s = lockdep_will_unlock p name lid s"

text \<open>
  What a caller owes: it passes -1 or the id of a registered class (whose name need not be the name
  that it passes, which is only printed then), and it drops the
  last reference of a class only while no thread holds it.
\<close>

definition valid_id :: "lockdep \<Rightarrow> int \<Rightarrow> bool" where
  "valid_id s lid \<longleftrightarrow> lid = -1 \<or> 0 \<le> lid \<and> (g_lockdep s \<longrightarrow> nat lid \<in> dom (lock_names s))"

fun call_ok :: "call \<Rightarrow> lockdep \<Rightarrow> bool" where
  "call_ok (Unregister lid) s \<longleftrightarrow> lid < 0 \<or> nat lid \<in> dom (lock_names s)
     \<and> (lock_refs s (nat lid) = Some 1 \<longrightarrow> (\<forall>p. nat lid \<notin> omap_keys (held s p)))"
| "call_ok (WillLock p name lid force recursive) s \<longleftrightarrow> valid_id s lid"
| "call_ok (Locked p name lid force) s \<longleftrightarrow> valid_id s lid"
| "call_ok (WillUnlock p name lid) s \<longleftrightarrow> valid_id s lid"
| "call_ok _ s \<longleftrightarrow> True"

fun lockdep_run :: "call list \<Rightarrow> lockdep \<Rightarrow> lockdep res" where
  "lockdep_run [] s = Ok s"
| "lockdep_run (c # cs) s = rbind (lockdep_call c s) (\<lambda>(_, t). lockdep_run cs t)"

fun run_ok :: "call list \<Rightarrow> lockdep \<Rightarrow> bool" where
  "run_ok [] s \<longleftrightarrow> True"
| "run_ok (c # cs) s \<longleftrightarrow> call_ok c s \<and> (case lockdep_call c s of Inl _ \<Rightarrow> True | Inr (_, t) \<Rightarrow> run_ok cs t)"

lemma register_call_inv:
  assumes "lockdep_inv s"
  shows "case lockdep_register_inner name s of Inl e \<Rightarrow> e = Abort | Inr (_, t) \<Rightarrow> lockdep_inv t"
proof (cases "g_lockdep s")
  case True
  then show ?thesis
    using register_Ok(1) [OF assms] register_Fault [of name s] by (auto split: sum.splits)
qed (use assms in \<open>simp add: lockdep_register_inner_def\<close>)

text \<open>With id -1 the checker registers the name first and then does what it does for a known id.\<close>

lemma valid_id_resolve:
  assumes inv: "lockdep_inv s" and g: "g_lockdep s" and v: "valid_id s lid"
  obtains (abort) "(if lid < 0 then lockdep_register_inner name s else Ok (lid, s)) = Fault Abort"
  | (known) l t where "(if lid < 0 then lockdep_register_inner name s else Ok (lid, s)) = Ok (l, t)"
      "lockdep_inv t" "0 \<le> l" "nat l \<in> dom (lock_names t)" "g_lockdep t"
      "edges (follows t) = edges (follows s)" "held t = held s" "lock_names s \<subseteq>\<^sub>m lock_names t"
proof (cases "lid < 0")
  case True
  show ?thesis
  proof (cases "lockdep_register_inner name s")
    case (Inl e)
    then show ?thesis using register_Fault abort True by auto
  next
    case (Inr r)
    then obtain l t where r: "lockdep_register_inner name s = Ok (l, t)" by (cases r) auto
    note R = register_Ok [OF inv g r]
    show ?thesis
      using known [of l t] R register_names_le [OF inv g r] True r by simp
  qed
next
  case False
  then show ?thesis using known [of lid s] inv g v by (auto simp: valid_id_def)
qed

lemma lockdep_call_inv:
  assumes inv: "lockdep_inv s" and ok: "call_ok c s"
  shows "case lockdep_call c s of Inl e \<Rightarrow> e = Abort | Inr (_, t) \<Rightarrow> lockdep_inv t"
proof (cases c)
  case (Unregister lid)
  show ?thesis
  proof (cases "lid < 0")
    case True
    then show ?thesis using inv by (simp add: Unregister lockdep_unregister_def)
  next
    case False
    then obtain name where "lock_names s (nat lid) = Some name" using ok Unregister by auto
    then show ?thesis using unregister_inv [OF inv, of "nat lid" name] ok False by (auto simp: Unregister)
  qed
next
  case (WillLock p name lid force recursive)
  show ?thesis
  proof (cases "g_lockdep s")
    case True
    have v: "valid_id s lid" using ok by (simp add: WillLock)
    show ?thesis
    proof (cases rule: valid_id_resolve [where name = name, OF inv True v])
      case 1
      then show ?thesis using True by (simp add: WillLock lockdep_will_lock_def)
    next
      case (2 l t)
      show ?thesis
        using check_held_inv [OF 2(2,4), of recursive p force] True 2(1)
        by (cases "order_violation (nat l) recursive (omap_keys (held t p)) (edges (follows t))")
          (auto simp: WillLock lockdep_will_lock_def)
    qed
  qed (use inv in \<open>simp add: WillLock lockdep_will_lock_def\<close>)
next
  case (Locked p name lid force)
  show ?thesis
  proof (cases "g_lockdep s")
    case True
    have v: "valid_id s lid" using ok by (simp add: Locked)
    show ?thesis
    proof (cases rule: valid_id_resolve [where name = name, OF inv True v])
      case 1
      then show ?thesis using True by (simp add: Locked lockdep_locked_def)
    next
      case (2 l t)
      then show ?thesis
        using locked_inv [OF 2(2,4)] True by (simp add: Locked lockdep_locked_def)
    qed
  qed (use inv in \<open>simp add: Locked lockdep_locked_def\<close>)
next
  case (WillUnlock p name lid)
  then show ?thesis
    using inv ok will_unlock_inv [OF inv] by (auto simp: lockdep_will_unlock_def valid_id_def)
qed (use inv lockdep_inv_init lockdep_inv_destroy register_call_inv in \<open>simp_all add: lockdep_register_def\<close>)

lemma lockdep_run_inv:
  "lockdep_inv s \<Longrightarrow> run_ok cs s \<Longrightarrow>
    case lockdep_run cs s of Inl e \<Rightarrow> e = Abort | Inr t \<Rightarrow> lockdep_inv t"
proof (induction cs arbitrary: s)
  case (Cons c cs)
  show ?case
    using lockdep_call_inv [OF Cons.prems(1), of c] Cons.prems(2) Cons.IH
    by (cases "lockdep_call c s") (auto split: prod.splits)
qed simp

subsection \<open>The recorded order only grows while no class is dropped\<close>

fun keeps_order :: "call \<Rightarrow> bool" where
  "keeps_order Destroy = False"
| "keeps_order (Unregister lid) = False"
| "keeps_order _ = True"

lemma call_keeps_order:
  assumes inv: "lockdep_inv s" and ok: "call_ok c s" and c: "keeps_order c"
    and r: "lockdep_call c s = Ok (l, t)"
  shows "edges (follows s) \<subseteq> edges (follows t) \<and> lock_names s \<subseteq>\<^sub>m lock_names t
    \<and> (g_lockdep s \<longrightarrow> g_lockdep t)"
proof (cases c)
  case Init
  then show ?thesis using r by (auto simp: lockdep_global_init_def)
next
  case (Register name)
  show ?thesis
  proof (cases "g_lockdep s")
    case True
    have e: "lockdep_register_inner name s = Ok (l, t)" using r Register by (simp add: lockdep_register_def)
    show ?thesis using register_Ok(3,5) [OF inv True e] register_names_le [OF inv True e] by simp
  qed (use r Register in \<open>simp add: lockdep_register_def lockdep_register_inner_def\<close>)
next
  case (WillLock p name lid force recursive)
  show ?thesis
  proof (cases "g_lockdep s")
    case True
    have v: "valid_id s lid" using ok by (simp add: WillLock)
    show ?thesis
    proof (cases rule: valid_id_resolve [where name = name, OF inv True v])
      case 1
      then show ?thesis using r True by (simp add: WillLock lockdep_will_lock_def)
    next
      case (2 k u)
      have c: "check_held (nat k) force recursive (held u p) u = Ok t"
        using r True 2(1) by (auto simp: WillLock lockdep_will_lock_def)
      have "graph_frame u t" "edges (follows u) \<subseteq> edges (follows t)"
        using check_held_inv [OF 2(2,4), of recursive p force] c by (auto split: if_splits)
      then show ?thesis using graph_frame_fields [of u t] 2 by simp
    qed
  qed (use r in \<open>simp add: WillLock lockdep_will_lock_def\<close>)
next
  case (Locked p name lid force)
  show ?thesis
  proof (cases "g_lockdep s")
    case True
    have v: "valid_id s lid" using ok by (simp add: Locked)
    show ?thesis
    proof (cases rule: valid_id_resolve [where name = name, OF inv True v])
      case 1
      then show ?thesis using r True by (simp add: Locked lockdep_locked_def)
    next
      case (2 k u)
      then show ?thesis using r True by (auto simp: Locked lockdep_locked_def)
    qed
  qed (use r in \<open>simp add: Locked lockdep_locked_def\<close>)
next
  case (WillUnlock p name lid)
  then show ?thesis using r by (auto simp: lockdep_will_unlock_def split: if_splits)
qed (use c in simp_all)

lemma run_keeps_order:
  "lockdep_inv s \<Longrightarrow> run_ok cs s \<Longrightarrow> list_all keeps_order cs \<Longrightarrow> lockdep_run cs s = Ok t \<Longrightarrow>
    edges (follows s) \<subseteq> edges (follows t) \<and> lock_names s \<subseteq>\<^sub>m lock_names t \<and> lockdep_inv t"
proof (induction cs arbitrary: s)
  case (Cons c cs)
  obtain l u where u: "lockdep_call c s = Ok (l, u)" "lockdep_run cs u = Ok t"
    using Cons.prems(4) by auto
  have "lockdep_inv u" using lockdep_call_inv [OF Cons.prems(1), of c] Cons.prems(2) u by simp
  with Cons.IH [of u] call_keeps_order [OF Cons.prems(1) _ _ u(1)] Cons.prems u show ?case
    by (auto intro: map_le_trans)
qed simp

subsection \<open>Properties\<close>

text \<open>Two classes, ''a'' (0) and ''b'' (1), registered once each; thread 1 holds ''a''.\<close>

definition lockdep_sample :: lockdep where
  "lockdep_sample =
     \<lparr>g_lockdep = True, lock_ids = [''a'' \<mapsto> 0, ''b'' \<mapsto> 1], lock_names = [0 \<mapsto> ''a'', 1 \<mapsto> ''b''],
      lock_refs = [0 \<mapsto> 1, 1 \<mapsto> 1], free_ids = (\<lambda>i. 2 \<le> i \<and> i < MAX_LOCKS),
      held = (\<lambda>_. [])(1 := [(0, NullBT)]), follows = [{}, {}, {}],
      follows_bt = (\<lambda>_ _. NullBT), current_maxid = 2, last_freed_id = -1, free_ids_inited = True\<rparr>"

lemma lockdep_sample_inv: "lockdep_inv lockdep_sample"
  unfolding lockdep_inv_def
proof (intro conjI)
  show "ids_inv lockdep_sample"
    by (rule ids_invI) (auto simp: lockdep_sample_def MAX_LOCKS_def split: if_splits)
  have "edges [{}, {}, {}] = {}" using edges_replicate [of 3] by (simp add: numeral_3_eq_3)
  then show "graph_inv lockdep_sample"
    by (simp add: graph_inv_def lockdep_sample_def acyclic_def)
  show "held_inv lockdep_sample"
    by (auto simp: held_inv_def lockdep_sample_def omap_sorted_def)
qed

text \<open>C3: every run of well-formed calls from the initial state either ends in a state with the
  invariant (ids, names and counts consistent, acyclic order graph over registered classes, rows
  for all ids), or stops with \<open>abort()\<close>: never a failed assertion, an index out of range, or a
  search that does not return.\<close>

theorem lockdep_run_safe:
  assumes "run_ok cs lockdep_start"
  shows "case lockdep_run cs lockdep_start of Inl e \<Rightarrow> e = Abort | Inr t \<Rightarrow> lockdep_inv t"
  using assms by (rule lockdep_run_inv [OF lockdep_inv_start])

lemma lockdep_run_safe_witness:
  "case lockdep_run [Init, Register ''a'', WillLock 1 ''a'' 0 True False, Locked 1 ''a'' 0 True,
      WillUnlock 1 ''a'' 0, Unregister 0] lockdep_start of Inl e \<Rightarrow> e = Abort | Inr t \<Rightarrow> lockdep_inv t"
proof (rule lockdep_run_safe)
  show "run_ok [Init, Register ''a'', WillLock 1 ''a'' 0 True False, Locked 1 ''a'' 0 True,
      WillUnlock 1 ''a'' 0, Unregister 0] lockdep_start"
    by (simp add: lockdep_start_def lockdep_global_init_def lockdep_register_def lockdep_register_inner_def
        lockdep_get_free_id_def scan_free.simps MAX_LOCKS_def grow_for_def incr_ref_def valid_id_def Let_def
        lockdep_will_lock_def lockdep_locked_def lockdep_will_unlock_def omap_del_def lockdep_unregister_def
        drop_edges_def NR_LOCKS_pos)
qed

text \<open>C19: \<open>lockdep_will_lock\<close> aborts exactly when the caller already holds the class (and the
  lock is not recursive) or a class it holds must, by the recorded order, come after the requested
  one; otherwise it records an edge from every class held, and nothing else changes.\<close>

theorem will_lock_decides:
  assumes "lockdep_inv s" "0 \<le> lid" "nat lid \<in> dom (lock_names s)"
  shows "if nat lid \<in> omap_keys (held s p) \<and> \<not> recursive
        \<or> (\<exists>h \<in> omap_keys (held s p) - {nat lid}. (nat lid, h) \<in> (edges (follows s))\<^sup>+)
    then lockdep_will_lock p name lid force recursive s = Fault Abort
    else \<exists>t. lockdep_will_lock p name lid force recursive s = Ok (lid, t) \<and> lockdep_inv t
      \<and> edges (follows t) = edges (follows s) \<union> (omap_keys (held s p) - {nat lid}) \<times> {nat lid}
      \<and> t = s\<lparr>follows := follows t, follows_bt := follows_bt t\<rparr>"
  using will_lock_known [OF assms, where recursive = recursive and p = p and force = force and name = name] unfolding order_violation_def graph_frame_def
  by (auto split: if_splits)

lemma will_lock_decides_witness:
  "\<exists>t. lockdep_will_lock 1 ''b'' 1 False False lockdep_sample = Ok (1, t)
     \<and> edges (follows t) = edges (follows lockdep_sample) \<union> {(0, 1)}"
proof -
  have "edges (follows lockdep_sample) = {}"
    using edges_replicate [of 3] by (simp add: lockdep_sample_def numeral_3_eq_3)
  then show ?thesis
    using will_lock_decides [OF lockdep_sample_inv, where lid = 1 and name = "''b''" and p = 1 and recursive = False and force = False]
    by (auto simp: lockdep_sample_def)
qed

text \<open>C8: a lock order, once used, is enforced. A thread that holds \<open>a\<close> is allowed to take
  \<open>b\<close>; after any further calls that neither drop a class nor stop the checker, every thread
  that holds \<open>b\<close> and asks for \<open>a\<close> is aborted.\<close>

theorem order_enforced:
  assumes inv: "lockdep_inv s" and a: "a \<in> omap_keys (held s p)" "a \<noteq> b"
    and b: "b \<in> dom (lock_names s)"
    and wl: "lockdep_will_lock p nb (int b) f1 r1 s = Ok (l, s1)"
    and run: "run_ok cs s1" "list_all keeps_order cs" "lockdep_run cs s1 = Ok t"
    and q: "b \<in> omap_keys (held t q)"
  shows "lockdep_will_lock q na (int a) f2 r2 t = Fault Abort"
proof -
  have "(a, b) \<in> edges (follows s1)" "lockdep_inv s1"
    using will_lock_known [OF inv, where lid = "int b" and recursive = r1 and p = p and name = nb and force = f1] b wl a by (auto split: if_splits)
  then have t: "(a, b) \<in> edges (follows t)" "lockdep_inv t"
    using run_keeps_order [OF _ run] by blast+
  then have "a \<in> dom (lock_names t)" by (auto dest: inv_edge(1))
  then show ?thesis
    using will_lock_known [OF t(2), where lid = "int a" and recursive = r2 and p = q and name = na and force = f2] q a(2) t(1)
    by (auto simp: order_violation_def split: if_splits)
qed

lemma order_enforced_witness:
  "\<exists>t. lockdep_run [WillLock 1 ''b'' 1 False False, Locked 1 ''b'' 1 False, WillUnlock 1 ''b'' 1,
        WillUnlock 1 ''a'' 0, Locked 2 ''b'' 1 False] lockdep_sample = Ok t
     \<and> lockdep_will_lock 2 ''a'' 0 False False t = Fault Abort"
proof -
  define s1 where "s1 = lockdep_sample\<lparr>follows := [{1}, {}, {}],
    follows_bt := (follows_bt lockdep_sample)(0 := ((follows_bt lockdep_sample) 0)(1 := NullBT))\<rparr>"
  define cs where "cs = [Locked 1 ''b'' 1 False, WillUnlock 1 ''b'' 1, WillUnlock 1 ''a'' 0, Locked 2 ''b'' 1 False]"
  have wl: "lockdep_will_lock 1 ''b'' (int 1) False False lockdep_sample = Ok (1, s1)"
    by (auto simp: s1_def lockdep_sample_def lockdep_will_lock_def upt_rec numeral_3_eq_3)
  obtain t where t: "lockdep_run cs s1 = Ok t" "1 \<in> omap_keys (held t 2)"
    by (simp add: cs_def s1_def lockdep_sample_def lockdep_locked_def lockdep_will_unlock_def omap_del_def)
  have ok: "run_ok cs s1" "list_all keeps_order cs"
    by (simp_all add: cs_def s1_def lockdep_sample_def lockdep_locked_def lockdep_will_unlock_def
        omap_del_def valid_id_def)
  have h: "0 \<in> omap_keys (held lockdep_sample 1)" "0 \<noteq> (1::nat)" "1 \<in> dom (lock_names lockdep_sample)"
    by (simp_all add: lockdep_sample_def)
  have "lockdep_will_lock 2 ''a'' (int 0) False False t = Fault Abort"
    by (rule order_enforced [OF lockdep_sample_inv h wl ok t])
  then show ?thesis using wl t(1) by (auto simp: cs_def)
qed

text \<open>C28: the cycle search of \<open>does_follow\<close> always returns, with recursion depth at most
  \<open>current_maxid\<close>, and answers whether \<open>b\<close> is reachable from \<open>a\<close> in the order graph.\<close>

theorem does_follow_decides:
  assumes "lockdep_inv s" "a < current_maxid s" "current_maxid s < k"
  shows "does_follow k (follows s) (current_maxid s) a b = Ok ((a, b) \<in> (edges (follows s))\<^sup>+)"
proof (rule does_follow_fuel [OF inv_graph(1,2) [OF assms(1)]])
  show "card ((edges (follows s))\<^sup>+ `` {a}) < k"
    using bounded_graph_reach_card [OF inv_graph(2) [OF assms(1)], of a] assms(3) by simp
  show "a < length (follows s)" using assms(2) inv_graph(3) [OF assms(1)] by simp
qed

lemma does_follow_decides_witness:
  "does_follow 3 (follows lockdep_sample) (current_maxid lockdep_sample) 0 1
     = Ok ((0, 1) \<in> (edges (follows lockdep_sample))\<^sup>+)"
  by (rule does_follow_decides [OF lockdep_sample_inv]) (simp_all add: lockdep_sample_def)

text \<open>A name that is not registered gets an id that no class uses, that no thread holds and
  that has no edge into or out of it (also when the id was used and dropped before); a registered
  name gets its id again and one more reference.\<close>

theorem register_gives_clean_id:
  assumes inv: "lockdep_inv s" and g: "g_lockdep s" and r: "lockdep_register name s = Ok (lid, t)"
  shows "lockdep_inv t \<and> lock_names t = (lock_names s)(nat lid \<mapsto> name)
    \<and> edges (follows t) = edges (follows s) \<and> held t = held s
    \<and> (case lock_ids s name of
         Some i \<Rightarrow> lid = int i \<and> (\<exists>n. lock_refs s i = Some n \<and> lock_refs t i = Some (n + 1))
       | None \<Rightarrow> lock_names s (nat lid) = None \<and> lock_refs t (nat lid) = Some 1
           \<and> (\<forall>p. nat lid \<notin> omap_keys (held t p))
           \<and> (\<forall>j. (nat lid, j) \<notin> edges (follows t) \<and> (j, nat lid) \<notin> edges (follows t)))"
proof -
  have r': "lockdep_register_inner name s = Ok (lid, t)" using r by (simp add: lockdep_register_def)
  note R = register_Ok [OF inv g r']
  show ?thesis
  proof (cases "lock_ids s name")
    case (Some i)
    then have nm: "lock_names s i = Some name" using inv_misc(1) [OF inv] by simp
    then obtain n where "lock_refs s i = Some n" using inv_name(4) [OF inv] by blast
    moreover have "lid = int i" using R(2,8) Some by auto
    ultimately show ?thesis using R(1,4-9) Some by simp
  next
    case None
    then have n: "nat lid \<notin> dom (lock_names s)" using R(8) by simp
    then have "\<forall>p. nat lid \<notin> omap_keys (held t p)"
      using inv_held(2) [OF inv] unfolding R(4) by blast
    moreover have "\<forall>j. (nat lid, j) \<notin> edges (follows t) \<and> (j, nat lid) \<notin> edges (follows t)"
      using inv_edge(1,2) [OF inv] n unfolding R(5) by blast
    moreover have "lock_refs s (nat lid) = None"
    proof -
      obtain l u where f: "lockdep_get_free_id s = (l, u)" by fastforce
      have l: "lid = l" "0 \<le> l"
        using r' g None f by (auto simp: lockdep_register_inner_def Let_def split: if_splits)
      show ?thesis
        using get_free_id_Some(1) [OF _ g f l(2)] inv_free(2) [OF inv] inv l by (simp add: lockdep_inv_def)
    qed
    ultimately show ?thesis using R(1,4-9) None n by auto
  qed
qed

lemma register_gives_clean_id_witness:
  "\<exists>lid t. lockdep_register ''a'' lockdep_sample = Ok (lid, t) \<and> lid = 0 \<and> lock_refs t 0 = Some 2"
proof -
  obtain t where t: "lockdep_register ''a'' lockdep_sample = Ok (0, t)"
    by (simp add: lockdep_register_def lockdep_register_inner_def lockdep_sample_def)
  have "g_lockdep lockdep_sample" by (simp add: lockdep_sample_def)
  from register_gives_clean_id [OF lockdep_sample_inv this t] t show ?thesis
    by (auto simp: lockdep_sample_def)
qed

text \<open>The fields that registering a new name and dropping the last reference change besides the tables.\<close>

lemma register_new_fields:
  assumes "ids_inv s" "g_lockdep s" "lock_ids s name = None" "lockdep_register_inner name s = Ok (lid, t)"
  shows "0 \<le> lid" "free_ids s (nat lid)" "free_ids t = (free_ids s)(nat lid := False)"
    "current_maxid t = max (current_maxid s) (nat lid + 1)" "follows_bt t = follows_bt s"
    "length (follows t) = (if current_maxid s \<le> nat lid \<and> nat lid + 1 = length (follows s) then length (follows s) + 1
       else length (follows s))"
    "free_ids_inited t = free_ids_inited s"
proof -
  obtain l u where f: "lockdep_get_free_id s = (l, u)" by fastforce
  have l: "l = lid" "0 \<le> lid"
    using assms(2-4) f by (auto simp: lockdep_register_inner_def Let_def split: if_splits)
  note F = get_free_id_Some [OF assms(1,2) f [unfolded l(1)] l(2)]
  have t: "t = incr_ref (nat lid) ((grow_for (nat lid) u)\<lparr>lock_ids := (lock_ids (grow_for (nat lid) u))(name \<mapsto> nat lid),
      lock_names := (lock_names (grow_for (nat lid) u))(nat lid \<mapsto> name)\<rparr>)"
    using assms(2-4) f l by (auto simp: lockdep_register_inner_def Let_def split: if_splits)
  have u: "current_maxid u = current_maxid s" "follows u = follows s" "follows_bt u = follows_bt s"
    "free_ids_inited u = free_ids_inited s" by (subst F(6), simp)+
  show "0 \<le> lid" "free_ids s (nat lid)" "free_ids t = (free_ids s)(nat lid := False)"
    "current_maxid t = max (current_maxid s) (nat lid + 1)" "follows_bt t = follows_bt s"
    "length (follows t) = (if current_maxid s \<le> nat lid \<and> nat lid + 1 = length (follows s) then length (follows s) + 1
       else length (follows s))"
    "free_ids_inited t = free_ids_inited s"
    using l(2) F(1,4) u by (auto simp: t incr_ref_def grow_for_def vec_resize_def Let_def)
qed

lemma unregister_last_fields:
  assumes "lockdep_unregister lid t = Ok u" "0 \<le> lid" "lock_refs t (nat lid) = Some 1"
  shows "free_ids u = (free_ids t)(nat lid := True)" "current_maxid u = current_maxid t" "g_lockdep u = g_lockdep t"
    "length (follows u) = length (follows t)" "free_ids_inited u = free_ids_inited t"
    "\<forall>a b. a \<noteq> nat lid \<longrightarrow> b \<noteq> nat lid \<longrightarrow> follows_bt u a b = follows_bt t a b"
  using assms by (auto simp: lockdep_unregister_def drop_edges_def Let_def split: option.splits if_splits)

text \<open>C36: registering a new name and dropping that reference gives back the names, the ids, the counts, the free
  ids, what the threads hold, and the order graph with the backtraces of its other classes. What remembers it is named:
  the hint for the next free id is the dropped one, \<open>current_maxid\<close> stays at least one above it, and the table of
  edges keeps the empty row it may have grown by.\<close>

theorem register_unregister_roundtrip:
  assumes inv: "lockdep_inv s" and g: "g_lockdep s" and new: "lock_ids s name = None"
    and r: "lockdep_register name s = Ok (lid, t)"
  shows "\<exists>u. lockdep_unregister lid t = Ok u \<and> lockdep_inv u \<and> lock_names u = lock_names s
    \<and> lock_ids u = lock_ids s \<and> lock_refs u = lock_refs s \<and> held u = held s \<and> free_ids u = free_ids s
    \<and> g_lockdep u = g_lockdep s \<and> free_ids_inited u = free_ids_inited s
    \<and> edges (follows u) = edges (follows s)
    \<and> (\<forall>a b. a \<noteq> nat lid \<longrightarrow> b \<noteq> nat lid \<longrightarrow> follows_bt u a b = follows_bt s a b)
    \<and> last_freed_id u = lid \<and> current_maxid u = max (current_maxid s) (nat lid + 1)
    \<and> length (follows u) = (if current_maxid s \<le> nat lid \<and> nat lid + 1 = length (follows s) then length (follows s) + 1
         else length (follows s))"
proof -
  have r': "lockdep_register_inner name s = Ok (lid, t)" using r by (simp add: lockdep_register_def)
  note R = register_Ok [OF inv g r']
  have ids: "ids_inv s" using inv by (simp add: lockdep_inv_def)
  note N = register_new_fields [OF ids g new r']
  have n: "lock_names s (nat lid) = None" using R(8) new by auto
  have c: "lock_refs s (nat lid) = None" using inv_free(2) [OF inv] N(2) by simp
  have nm: "lock_names t (nat lid) = Some name" "lock_refs t (nat lid) = Some 1"
    using R(6,9) c by simp_all
  have unheld: "\<forall>p. nat lid \<notin> omap_keys (held t p)"
    using inv_held(2) [OF inv] n unfolding R(4) by blast
  have un: "edges (follows s) = {(a, b) \<in> edges (follows s). a \<noteq> nat lid \<and> b \<noteq> nat lid}"
    using inv_edge(1,2) [OF inv] n by blast
  obtain v where v: "lockdep_unregister (int (nat lid)) t = Ok v" "lockdep_inv v"
      "edges (follows v) = {(a, b) \<in> edges (follows t). a \<noteq> nat lid \<and> b \<noteq> nat lid}"
      "lock_names v = (lock_names t)(nat lid := None)" "lock_ids v = (lock_ids t)(name := None)"
      "lock_refs v = (lock_refs t)(nat lid := None)" "last_freed_id v = int (nat lid)" "held v = held t"
    using unregister_inv [OF R(1) nm(1)] unheld nm(2) by auto
  have vl: "lockdep_unregister lid t = Ok v" using v(1) N(1) by simp
  note U = unregister_last_fields [OF vl N(1) nm(2)]
  have "lock_names v = lock_names s" "lock_ids v = lock_ids s" "lock_refs v = lock_refs s" "free_ids v = free_ids s"
    using n new c N(2) by (simp_all add: v R U N fun_upd_idem)
  then show ?thesis using vl v(2,3,7,8) R(2,3,4,5) un U N g by (intro exI [of _ v]) simp
qed

lemma register_unregister_roundtrip_witness:
  "\<exists>t u. lockdep_register ''c'' lockdep_sample = Ok (2, t) \<and> lockdep_unregister 2 t = Ok u
     \<and> lock_names u = lock_names lockdep_sample \<and> last_freed_id u = 2"
proof -
  have g: "g_lockdep lockdep_sample" and n: "lock_ids lockdep_sample ''c'' = None"
    by (simp_all add: lockdep_sample_def)
  obtain t where t: "lockdep_register ''c'' lockdep_sample = Ok (2, t)"
    by (simp add: lockdep_register_def lockdep_register_inner_def lockdep_sample_def lockdep_get_free_id_def
        scan_free.simps MAX_LOCKS_def Let_def)
  from register_unregister_roundtrip [OF lockdep_sample_inv g n t] t show ?thesis by auto
qed

text \<open>\<open>lockdep_global_destroy\<close> followed by \<open>lockdep_global_init\<close> forgets the names and
  edges but keeps the counts and the free set: an id handed out before is not free, its count
  survives, and the owner of that id fails the assertion of \<open>lockdep_unregister\<close>.\<close>

theorem restart_keeps_ids:
  assumes inv: "lockdep_inv s" and nm: "lock_names s i = Some name"
  defines "t \<equiv> lockdep_global_init (lockdep_global_destroy s)"
  shows "lockdep_inv t \<and> lock_names t = Map.empty \<and> edges (follows t) = {} \<and> \<not> free_ids t i
    \<and> lock_refs t i = lock_refs s i \<and> lockdep_unregister (int i) t = Fault AssertFail"
proof -
  have g: "g_lockdep s" by (rule inv_name(5) [OF inv nm])
  have fi: "free_ids_inited s" using inv_misc(4) [OF inv] g by simp
  have t: "lock_names t = Map.empty" "free_ids t = free_ids s" "lock_refs t = lock_refs s"
    using g fi by (simp_all add: t_def lockdep_global_init_def lockdep_global_destroy_def)
  have it: "lockdep_inv t" unfolding t_def by (intro lockdep_inv_init lockdep_inv_destroy inv)
  have "edges (follows t) = {}"
    using inv_edge(1) [OF it] t(1) by fastforce
  then show ?thesis
    using it t inv_name(2) [OF inv nm] by (simp add: lockdep_unregister_def)
qed

lemma restart_keeps_ids_witness:
  "lockdep_unregister (int 1) (lockdep_global_init (lockdep_global_destroy lockdep_sample)) = Fault AssertFail"
  using restart_keeps_ids [OF lockdep_sample_inv, of 1 "''b''"] by (simp add: lockdep_sample_def)

end
