(* ===== verification/Transition_Systems.thy ===== *)
theory Transition_Systems
  imports Prelude
begin

section \<open>Interleaved systems: what their invariants and their progress give\<close>

text \<open>
  The concurrent parts of the program are step relations. Two contracts carry their proofs: an
  invariant that every step keeps holds in every state that can be reached, and a system whose own
  steps cannot go on for ever, and which is stuck only where its calls are served, always serves them.
  Each component interprets them on its own steps.
\<close>

locale invariant_system =
  fixes step :: "'s \<Rightarrow> 's \<Rightarrow> bool"
    and inv :: "'s \<Rightarrow> bool"
  assumes step_inv: "step s t \<Longrightarrow> inv s \<Longrightarrow> inv t"
begin

lemma steps_inv: "step\<^sup>*\<^sup>* s t \<Longrightarrow> inv s \<Longrightarrow> inv t"
  by (induction rule: rtranclp_induct) (blast intro: step_inv)+

lemma run_inv: "inv (f 0) \<Longrightarrow> (\<And>n. step (f n) (f (Suc n))) \<Longrightarrow> inv (f n)" for f :: "nat \<Rightarrow> 's"
  by (induction n) (blast intro: step_inv)+

end

text \<open>
  \<open>own\<close> are the steps that the system makes without new calls, \<open>rank\<close> what they decrease; it stops
  where every call is served, or where it is blocked.
\<close>

locale serving_system = invariant_system step inv
  for step :: "'s \<Rightarrow> 's \<Rightarrow> bool" and inv +
  fixes own :: "'s \<Rightarrow> 's \<Rightarrow> bool"
    and rank :: "('s \<times> 's) set"
    and served :: "'s \<Rightarrow> bool"
    and blocked :: "'s \<Rightarrow> bool"
  assumes own_step: "own s t \<Longrightarrow> step s t"
    and wf_rank: "wf rank"
    and own_rank: "own s t \<Longrightarrow> inv s \<Longrightarrow> (t, s) \<in> rank"
    and stuck: "inv s \<Longrightarrow> (\<And>t. \<not> own s t) \<Longrightarrow> served s \<or> blocked s"
begin

lemma own_wf: "wf {(t, s). inv s \<and> own s t}"
  by (rule wf_subset [OF wf_rank]) (use own_rank in blast)

lemma own_inv: "own\<^sup>*\<^sup>* s t \<Longrightarrow> inv s \<Longrightarrow> inv t"
  by (induction rule: rtranclp_induct) (blast intro: step_inv own_step)+

text \<open>From every good state the system's own steps lead to a state that is served or blocked.\<close>

lemma served_at_last: "inv s \<Longrightarrow> \<exists>t. own\<^sup>*\<^sup>* s t \<and> (served t \<or> blocked t)"
proof (induction s rule: wf_induct_rule [OF wf_rank])
  case (1 s)
  show ?case
  proof (cases "\<exists>t. own s t")
    case True
    then obtain t where t: "own s t" by blast
    obtain u where "own\<^sup>*\<^sup>* t u" "served u \<or> blocked u"
      using 1(1) [OF own_rank [OF t 1(2)] step_inv [OF own_step [OF t] 1(2)]] by blast
    then show ?thesis using t by (meson converse_rtranclp_into_rtranclp)
  next
    case False
    then show ?thesis using stuck [OF 1(2)] by blast
  qed
qed

text \<open>And no run of its own steps is infinite.\<close>

lemma no_infinite_run:
  assumes "inv (f 0)"
  shows "\<exists>n. \<not> own (f n) (f (Suc n))"
proof (rule ccontr)
  assume "\<nexists>n. \<not> own (f n) (f (Suc n))"
  then have f: "own (f n) (f (Suc n))" for n by blast
  then have "inv (f n)" for n using run_inv [of f, OF assms own_step [OF f]] by blast
  then have "\<forall>n. (f (Suc n), f n) \<in> {(t, s). inv s \<and> own s t}" using f by blast
  then show False using own_wf wf_iff_no_infinite_down_chain by blast
qed

end

end
