(* ===== verification/Mutex_Debug.thy ===== *)
theory Mutex_Debug
  imports Lockdep Transition_Systems
begin

section \<open>Debug mutexes: common/mutex\_debug.hpp and common/mutex\_debug.cpp\<close>

text \<open>
  The debug mutexes as compiled with \<open>DEBUG_MUTEX\<close> and \<open>DEBUG_LOCKDEP\<close>. A mutex object is a
  record: the fields of \<open>mutex_debugging_base\<close>, and the state of the pthread object inside it
  (who owns it, how often). Every member function is a function of the calling thread, the mutex
  and the state of the lock-order checker. A call that waits for another thread is
  \<open>NoReturn\<close> as a function; the step relation below gives the wait its own program point.
\<close>

subsection \<open>mutex\_debugging\_base\<close>

record mutex_debugging_base =
  group :: string
  mid :: int
  lockdep_on :: bool
  backtrace :: bool
  nlock :: int
  locked_by :: "thread option"

record mutex_debug = mutex_debugging_base +
  m_owner :: "thread option"
  m_count :: nat

definition base_lockdep_enabled :: "('a mutex_debugging_base_scheme) \<Rightarrow> lockdep \<Rightarrow> bool" where
  "base_lockdep_enabled x l \<longleftrightarrow> lockdep_on x \<and> g_lockdep l"

definition base_is_locked :: "('a mutex_debugging_base_scheme) \<Rightarrow> bool" where
  "base_is_locked x \<longleftrightarrow> 0 < nlock x"

definition base_is_locked_by_me :: "thread \<Rightarrow> ('a mutex_debugging_base_scheme) \<Rightarrow> bool" where
  "base_is_locked_by_me p x \<longleftrightarrow> 0 < nlock x \<and> locked_by x = Some p"

definition base_will_lock ::
    "thread \<Rightarrow> bool \<Rightarrow> 'a mutex_debugging_base_scheme \<Rightarrow> lockdep \<Rightarrow> ('a mutex_debugging_base_scheme \<times> lockdep) res" where
  "base_will_lock p recursive x l =
     rbind (lockdep_will_lock p (group x) (mid x) (backtrace x) recursive l) (\<lambda>(i, l). Ok (x\<lparr>mid := i\<rparr>, l))"

definition base_locked ::
    "thread \<Rightarrow> 'a mutex_debugging_base_scheme \<Rightarrow> lockdep \<Rightarrow> ('a mutex_debugging_base_scheme \<times> lockdep) res" where
  "base_locked p x l =
     rbind (lockdep_locked p (group x) (mid x) (backtrace x) l) (\<lambda>(i, l). Ok (x\<lparr>mid := i\<rparr>, l))"

definition base_will_unlock ::
    "thread \<Rightarrow> 'a mutex_debugging_base_scheme \<Rightarrow> lockdep \<Rightarrow> ('a mutex_debugging_base_scheme \<times> lockdep) res" where
  "base_will_unlock p x l =
     rbind (lockdep_will_unlock p (group x) (mid x) l) (\<lambda>(i, l). Ok (x\<lparr>mid := i\<rparr>, l))"

text \<open>
  The constructor moves its parameter \<open>group\<close> into the member of the same name and then passes
  the parameter, not the member, to \<open>lockdep_register\<close>. \<open>moved\<close> is what a moved-from
  \<open>std::string\<close> holds, which the standard leaves to the library (libstdc++: the empty string).
\<close>

definition mutex_debugging_base_init ::
    "(string \<Rightarrow> string) \<Rightarrow> string \<Rightarrow> bool \<Rightarrow> bool \<Rightarrow> lockdep \<Rightarrow> (mutex_debugging_base \<times> lockdep) res" where
  "mutex_debugging_base_init moved grp ld bt l =
     (let x = \<lparr>group = grp, mid = -1, lockdep_on = ld, backtrace = bt, nlock = 0, locked_by = None\<rparr> in
      if base_lockdep_enabled x l
      then rbind (lockdep_register (moved grp) l) (\<lambda>(i, l). Ok (x\<lparr>mid := i\<rparr>, l))
      else Ok (x, l))"

definition mutex_debugging_base_destroy :: "'a mutex_debugging_base_scheme \<Rightarrow> lockdep \<Rightarrow> lockdep res" where
  "mutex_debugging_base_destroy x l =
     c_assert (nlock x = 0) (if base_lockdep_enabled x l then lockdep_unregister (mid x) l else Ok l)"

subsection \<open>mutex\_debug\_impl\<close>

text \<open>\<open>recursive\<close> is the template argument.\<close>

definition impl_init ::
    "(string \<Rightarrow> string) \<Rightarrow> string \<Rightarrow> bool \<Rightarrow> bool \<Rightarrow> lockdep \<Rightarrow> (mutex_debug \<times> lockdep) res" where
  "impl_init moved grp ld bt l =
     rbind (mutex_debugging_base_init moved grp ld bt l)
       (\<lambda>(x, l). Ok (mutex_debugging_base.extend x \<lparr>m_owner = None, m_count = 0\<rparr>, l))"

text \<open>\<open>pthread_mutex_destroy\<close> answers \<open>EBUSY\<close> for a locked mutex.\<close>

definition impl_destroy :: "mutex_debug \<Rightarrow> lockdep \<Rightarrow> lockdep res" where
  "impl_destroy x l = c_assert (m_owner x = None) (mutex_debugging_base_destroy x l)"

definition impl_lockdep_enabled :: "bool \<Rightarrow> bool \<Rightarrow> mutex_debug \<Rightarrow> lockdep \<Rightarrow> bool" where
  "impl_lockdep_enabled recursive no_lockdep x l =
     (if recursive then False else if no_lockdep then False else base_lockdep_enabled x l)"

text \<open>
  The pthread calls. The type of the mutex is RECURSIVE or ERRORCHECK: locking it again is counted
  or refused with \<open>EDEADLK\<close>, unlocking it from another thread is refused with \<open>EPERM\<close>.
\<close>

definition lock_impl :: "bool \<Rightarrow> thread \<Rightarrow> mutex_debug \<Rightarrow> mutex_debug res" where
  "lock_impl recursive p x =
     (case m_owner x of
        None \<Rightarrow> Ok (x\<lparr>m_owner := Some p, m_count := 1\<rparr>)
      | Some q \<Rightarrow> if q \<noteq> p then Fault NoReturn
                   else if recursive then Ok (x\<lparr>m_count := m_count x + 1\<rparr>)
                   else Fault (Throw EDEADLK))"

definition unlock_impl :: "thread \<Rightarrow> mutex_debug \<Rightarrow> mutex_debug res" where
  "unlock_impl p x =
     c_assert (m_owner x = Some p)
       (Ok (if m_count x \<le> 1 then x\<lparr>m_owner := None, m_count := 0\<rparr> else x\<lparr>m_count := m_count x - 1\<rparr>))"

definition try_lock_impl :: "bool \<Rightarrow> thread \<Rightarrow> mutex_debug \<Rightarrow> (bool \<times> mutex_debug) res" where
  "try_lock_impl recursive p x =
     (case m_owner x of
        None \<Rightarrow> Ok (True, x\<lparr>m_owner := Some p, m_count := 1\<rparr>)
      | Some q \<Rightarrow> if q = p \<and> recursive then Ok (True, x\<lparr>m_count := m_count x + 1\<rparr>) else Ok (False, x))"

definition post_lock :: "bool \<Rightarrow> thread \<Rightarrow> mutex_debug \<Rightarrow> mutex_debug res" where
  "post_lock recursive p x =
     c_assert (recursive \<or> nlock x = 0) (Ok (x\<lparr>locked_by := Some p, nlock := nlock x + 1\<rparr>))"

definition pre_unlock :: "bool \<Rightarrow> thread \<Rightarrow> mutex_debug \<Rightarrow> mutex_debug res" where
  "pre_unlock recursive p x =
     c_assert (if recursive then 0 < nlock x else nlock x = 1)
       (c_assert (locked_by x = Some p)
         (Ok (x\<lparr>locked_by := (if nlock x = 1 then None else locked_by x), nlock := nlock x - 1\<rparr>)))"

text \<open>
  \<open>lock\<close>, \<open>try_lock\<close> and \<open>unlock\<close> from their parts: \<open>lock_enter\<close> is what
  \<open>lock\<close> does before it tries, \<open>after_acquire\<close> what follows a successful pthread call,
  \<open>unlock_enter\<close> what precedes the release.
\<close>

definition lock_enter ::
    "bool \<Rightarrow> bool \<Rightarrow> thread \<Rightarrow> mutex_debug \<Rightarrow> lockdep \<Rightarrow> (mutex_debug \<times> lockdep) res" where
  "lock_enter recursive no_lockdep p x l =
     (if impl_lockdep_enabled recursive no_lockdep x l then base_will_lock p recursive x l else Ok (x, l))"

definition after_acquire ::
    "bool \<Rightarrow> bool \<Rightarrow> thread \<Rightarrow> mutex_debug \<Rightarrow> lockdep \<Rightarrow> (mutex_debug \<times> lockdep) res" where
  "after_acquire recursive no_lockdep p x l =
     rbind (if impl_lockdep_enabled recursive no_lockdep x l then base_locked p x l else Ok (x, l))
       (\<lambda>(x, l). rbind (post_lock recursive p x) (\<lambda>x. Ok (x, l)))"

definition unlock_enter ::
    "bool \<Rightarrow> bool \<Rightarrow> thread \<Rightarrow> mutex_debug \<Rightarrow> lockdep \<Rightarrow> (mutex_debug \<times> lockdep) res" where
  "unlock_enter recursive no_lockdep p x l =
     rbind (pre_unlock recursive p x)
       (\<lambda>x. if impl_lockdep_enabled recursive no_lockdep x l then base_will_unlock p x l else Ok (x, l))"

definition try_lock ::
    "bool \<Rightarrow> bool \<Rightarrow> thread \<Rightarrow> mutex_debug \<Rightarrow> lockdep \<Rightarrow> (bool \<times> mutex_debug \<times> lockdep) res" where
  "try_lock recursive no_lockdep p x l =
     rbind (try_lock_impl recursive p x)
       (\<lambda>(locked, x). if locked
          then rbind (after_acquire recursive no_lockdep p x l) (\<lambda>(x, l). Ok (True, x, l))
          else Ok (False, x, l))"

definition lock ::
    "bool \<Rightarrow> bool \<Rightarrow> thread \<Rightarrow> mutex_debug \<Rightarrow> lockdep \<Rightarrow> (mutex_debug \<times> lockdep) res" where
  "lock recursive no_lockdep p x l =
     rbind (lock_enter recursive no_lockdep p x l)
       (\<lambda>(x, l). rbind (try_lock recursive no_lockdep p x l)
          (\<lambda>(locked, x, l). if locked then Ok (x, l)
             else rbind (lock_impl recursive p x) (\<lambda>x. after_acquire recursive no_lockdep p x l)))"

definition unlock ::
    "bool \<Rightarrow> bool \<Rightarrow> thread \<Rightarrow> mutex_debug \<Rightarrow> lockdep \<Rightarrow> (mutex_debug \<times> lockdep) res" where
  "unlock recursive no_lockdep p x l =
     rbind (unlock_enter recursive no_lockdep p x l)
       (\<lambda>(x, l). rbind (unlock_impl p x) (\<lambda>x. Ok (x, l)))"

subsection \<open>shared\_mutex\_debug\_impl\<close>

text \<open>
  \<open>w_owner\<close> and \<open>r_count\<close> are the state of the \<open>pthread_rwlock_t\<close> (glibc: the writer that
  asks again for either lock gets \<open>EDEADLK\<close>).
\<close>

record shared_mutex_debug = mutex_debugging_base +
  track :: bool
  nrlock :: u32
  w_owner :: "thread option"
  r_count :: nat

definition shared_init ::
    "(string \<Rightarrow> string) \<Rightarrow> string \<Rightarrow> bool \<Rightarrow> bool \<Rightarrow> lockdep \<Rightarrow> (shared_mutex_debug \<times> lockdep) res" where
  "shared_init moved grp track_lock enable_lock_dep l =
     rbind (mutex_debugging_base_init moved grp enable_lock_dep False l)
       (\<lambda>(x, l). Ok (mutex_debugging_base.extend x
          \<lparr>track = track_lock, nrlock = 0, w_owner = None, r_count = 0\<rparr>, l))"

definition rw_wrlock :: "thread \<Rightarrow> shared_mutex_debug \<Rightarrow> shared_mutex_debug res" where
  "rw_wrlock p x =
     (if w_owner x = Some p then Fault (Throw EDEADLK)
      else if w_owner x = None \<and> r_count x = 0 then Ok (x\<lparr>w_owner := Some p\<rparr>)
      else Fault NoReturn)"

definition rw_rdlock :: "thread \<Rightarrow> shared_mutex_debug \<Rightarrow> shared_mutex_debug res" where
  "rw_rdlock p x =
     (if w_owner x = Some p then Fault (Throw EDEADLK)
      else if w_owner x = None then Ok (x\<lparr>r_count := r_count x + 1\<rparr>)
      else Fault NoReturn)"

definition rw_unlock :: "shared_mutex_debug \<Rightarrow> shared_mutex_debug" where
  "rw_unlock x = (if w_owner x \<noteq> None then x\<lparr>w_owner := None\<rparr> else x\<lparr>r_count := r_count x - 1\<rparr>)"

definition shared_post_lock :: "thread \<Rightarrow> shared_mutex_debug \<Rightarrow> shared_mutex_debug res" where
  "shared_post_lock p x =
     (if track x then c_assert (nlock x = 0) (Ok (x\<lparr>locked_by := Some p, nlock := nlock x + 1\<rparr>)) else Ok x)"

definition shared_pre_unlock :: "thread \<Rightarrow> shared_mutex_debug \<Rightarrow> shared_mutex_debug res" where
  "shared_pre_unlock p x =
     (if track x
      then c_assert (0 < nlock x) (c_assert (locked_by x = Some p) (c_assert (nlock x - 1 = 0)
             (Ok (x\<lparr>nlock := nlock x - 1, locked_by := None\<rparr>))))
      else Ok x)"

definition shared_post_lock_shared :: "shared_mutex_debug \<Rightarrow> shared_mutex_debug" where
  "shared_post_lock_shared x = (if track x then x\<lparr>nrlock := nrlock x + 1\<rparr> else x)"

definition shared_pre_unlock_shared :: "shared_mutex_debug \<Rightarrow> shared_mutex_debug res" where
  "shared_pre_unlock_shared x =
     (if track x then c_assert (0 < nrlock x) (Ok (x\<lparr>nrlock := nrlock x - 1\<rparr>)) else Ok x)"

definition shared_locked :: "thread \<Rightarrow> shared_mutex_debug \<Rightarrow> lockdep \<Rightarrow> (shared_mutex_debug \<times> lockdep) res" where
  "shared_locked p x l = (if base_lockdep_enabled x l then base_locked p x l else Ok (x, l))"

definition shared_lock :: "thread \<Rightarrow> shared_mutex_debug \<Rightarrow> lockdep \<Rightarrow> (shared_mutex_debug \<times> lockdep) res" where
  "shared_lock p x l =
     rbind (if base_lockdep_enabled x l then base_will_lock p False x l else Ok (x, l))
       (\<lambda>(x, l). rbind (rw_wrlock p x)
         (\<lambda>x. rbind (shared_locked p x l) (\<lambda>(x, l). rbind (shared_post_lock p x) (\<lambda>x. Ok (x, l)))))"

definition shared_try_lock ::
    "thread \<Rightarrow> shared_mutex_debug \<Rightarrow> lockdep \<Rightarrow> (bool \<times> shared_mutex_debug \<times> lockdep) res" where
  "shared_try_lock p x l =
     (if w_owner x = None \<and> r_count x = 0
      then rbind (shared_locked p (x\<lparr>w_owner := Some p\<rparr>) l)
             (\<lambda>(x, l). rbind (shared_post_lock p x) (\<lambda>x. Ok (True, x, l)))
      else Ok (False, x, l))"

definition shared_unlock :: "thread \<Rightarrow> shared_mutex_debug \<Rightarrow> lockdep \<Rightarrow> (shared_mutex_debug \<times> lockdep) res" where
  "shared_unlock p x l =
     rbind (shared_pre_unlock p x)
       (\<lambda>x. rbind (if base_lockdep_enabled x l then base_will_unlock p x l else Ok (x, l))
          (\<lambda>(x, l). Ok (rw_unlock x, l)))"

definition shared_lock_shared :: "thread \<Rightarrow> shared_mutex_debug \<Rightarrow> lockdep \<Rightarrow> (shared_mutex_debug \<times> lockdep) res" where
  "shared_lock_shared p x l =
     rbind (if base_lockdep_enabled x l then base_will_lock p False x l else Ok (x, l))
       (\<lambda>(x, l). rbind (rw_rdlock p x)
         (\<lambda>x. rbind (shared_locked p x l) (\<lambda>(x, l). Ok (shared_post_lock_shared x, l))))"

text \<open>\<open>try_lock_shared\<close> as it is: it announces an unlock and then calls the waiting \<open>rdlock\<close>.\<close>

definition shared_try_lock_shared ::
    "thread \<Rightarrow> shared_mutex_debug \<Rightarrow> lockdep \<Rightarrow> (bool \<times> shared_mutex_debug \<times> lockdep) res" where
  "shared_try_lock_shared p x l =
     rbind (if base_lockdep_enabled x l then base_will_unlock p x l else Ok (x, l))
       (\<lambda>(x, l). rbind (rw_rdlock p x)
         (\<lambda>x. rbind (shared_locked p x l) (\<lambda>(x, l). Ok (True, shared_post_lock_shared x, l))))"

definition shared_unlock_shared ::
    "thread \<Rightarrow> shared_mutex_debug \<Rightarrow> lockdep \<Rightarrow> (shared_mutex_debug \<times> lockdep) res" where
  "shared_unlock_shared p x l =
     rbind (shared_pre_unlock_shared x)
       (\<lambda>x. rbind (if base_lockdep_enabled x l then base_will_unlock p x l else Ok (x, l))
          (\<lambda>(x, l). Ok (rw_unlock x, l)))"

definition is_wlocked :: "shared_mutex_debug \<Rightarrow> bool" where
  "is_wlocked x \<longleftrightarrow> 0 < nlock x"

definition is_rlocked :: "shared_mutex_debug \<Rightarrow> bool" where
  "is_rlocked x \<longleftrightarrow> 0 < nrlock x"

definition shared_is_locked :: "shared_mutex_debug \<Rightarrow> bool" where
  "shared_is_locked x \<longleftrightarrow> 0 < nlock x \<or> 0 < nrlock x"

subsection \<open>Threads that lock and unlock: the step relation\<close>

text \<open>
  Threads run \<open>lock()\<close>, \<open>try_lock()\<close> and \<open>unlock()\<close> of non-recursive mutexes with the checker
  on. A program point names the pthread call a thread has reached: \<open>TryLock m\<close> and
  \<open>BlockOn m\<close> inside \<open>lock()\<close>, \<open>Acquired m\<close> between the successful pthread call and the end
  of \<open>_post_lock\<close>, \<open>Unlocking m\<close> before \<open>pthread_mutex_unlock\<close>. There is no step when the
  checker aborts: the process is gone.
\<close>

datatype pc = Idle | TryLock nat | BlockOn nat | Acquired nat | Unlocking nat

record sys =
  ld :: lockdep
  mx :: "nat \<Rightarrow> mutex_debug"
  pc :: "thread \<Rightarrow> pc"

inductive step :: "sys \<Rightarrow> sys \<Rightarrow> bool" where
  enter: "pc s p = Idle \<Longrightarrow> lock_enter False False p (mx s m) (ld s) = Ok (x, l) \<Longrightarrow>
    step s (s\<lparr>ld := l, mx := (mx s)(m := x), pc := (pc s)(p := TryLock m)\<rparr>)"
| try_ok: "pc s p = TryLock m \<Longrightarrow> try_lock_impl False p (mx s m) = Ok (True, x) \<Longrightarrow>
    step s (s\<lparr>mx := (mx s)(m := x), pc := (pc s)(p := Acquired m)\<rparr>)"
| try_busy: "pc s p = TryLock m \<Longrightarrow> try_lock_impl False p (mx s m) = Ok (False, x) \<Longrightarrow>
    step s (s\<lparr>pc := (pc s)(p := BlockOn m)\<rparr>)"
| wake: "pc s p = BlockOn m \<Longrightarrow> lock_impl False p (mx s m) = Ok x \<Longrightarrow>
    step s (s\<lparr>mx := (mx s)(m := x), pc := (pc s)(p := Acquired m)\<rparr>)"
| try_lock: "pc s p = Idle \<Longrightarrow> try_lock_impl False p (mx s m) = Ok (True, x) \<Longrightarrow>
    step s (s\<lparr>mx := (mx s)(m := x), pc := (pc s)(p := Acquired m)\<rparr>)"
| post: "pc s p = Acquired m \<Longrightarrow> after_acquire False False p (mx s m) (ld s) = Ok (x, l) \<Longrightarrow>
    step s (s\<lparr>ld := l, mx := (mx s)(m := x), pc := (pc s)(p := Idle)\<rparr>)"
| unlock: "pc s p = Idle \<Longrightarrow> unlock_enter False False p (mx s m) (ld s) = Ok (x, l) \<Longrightarrow>
    step s (s\<lparr>ld := l, mx := (mx s)(m := x), pc := (pc s)(p := Unlocking m)\<rparr>)"
| release: "pc s p = Unlocking m \<Longrightarrow> unlock_impl p (mx s m) = Ok x \<Longrightarrow>
    step s (s\<lparr>mx := (mx s)(m := x), pc := (pc s)(p := Idle)\<rparr>)"

text \<open>
  The class of a mutex: the registered one, or the one that its group has until it is. A thread that calls \<open>try_lock()\<close>
  with care does not take a mutex of a class that it holds: \<open>lock()\<close> has the checker refuse that, \<open>try_lock()\<close> does
  not ask, and the checker forgets the class as soon as one of the two is given back (a
  run at the end of this theory shows what follows). Only a step of \<open>try_lock()\<close> takes an idle thread to \<open>Acquired\<close>.
\<close>

definition lock_class :: "lockdep \<Rightarrow> 'a mutex_debugging_base_scheme \<Rightarrow> lock_id option" where
  "lock_class l x = (if 0 \<le> mid x then Some (nat (mid x)) else lock_ids l (group x))"

definition fresh_class :: "lockdep \<Rightarrow> thread \<Rightarrow> 'a mutex_debugging_base_scheme \<Rightarrow> bool" where
  "fresh_class l p x \<longleftrightarrow> (\<forall>c. lock_class l x = Some c \<longrightarrow> c \<notin> omap_keys (held l p))"

definition careful_step :: "sys \<Rightarrow> sys \<Rightarrow> bool" where
  "careful_step s t \<longleftrightarrow> step s t
     \<and> (\<forall>p m. pc s p = Idle \<longrightarrow> pc t p = Acquired m \<longrightarrow> fresh_class (ld s) p (mx s m))"

text \<open>A thread waits for a mutex; it owns a mutex whose \<open>lock()\<close> has returned to it.\<close>

definition wants :: "sys \<Rightarrow> thread \<Rightarrow> nat option" where
  "wants s p = (case pc s p of TryLock m \<Rightarrow> Some m | BlockOn m \<Rightarrow> Some m | _ \<Rightarrow> None)"

definition holds :: "sys \<Rightarrow> thread \<Rightarrow> nat \<Rightarrow> bool" where
  "holds s p m \<longleftrightarrow> m_owner (mx s m) = Some p \<and> pc s p \<noteq> Acquired m \<and> pc s p \<noteq> Unlocking m"

definition busy :: "sys \<Rightarrow> thread \<Rightarrow> nat option" where
  "busy s p = (case pc s p of TryLock m \<Rightarrow> Some m | BlockOn m \<Rightarrow> Some m | Acquired m \<Rightarrow> Some m | _ \<Rightarrow> None)"

abbreviation cls :: "sys \<Rightarrow> nat \<Rightarrow> nat" where
  "cls s m \<equiv> nat (mid (mx s m))"

text \<open>
  The invariant: the checker's own invariant; every mutex is tracked, by a registered class or not
  yet; a held mutex is in the checker's table of its thread, at most one per class, and the debug fields
  say who holds it; a thread
  that waits for a mutex has an edge from every class it holds, and does not hold its class.
\<close>

definition sys_base :: "sys \<Rightarrow> bool" where
  "sys_base s \<longleftrightarrow> lockdep_inv (ld s) \<and> g_lockdep (ld s)
     \<and> (\<forall>m. lockdep_on (mx s m) \<and> valid_id (ld s) (mid (mx s m)) \<and> m_count (mx s m) \<le> 1)"

definition sys_held :: "sys \<Rightarrow> bool" where
  "sys_held s \<longleftrightarrow>
     (\<forall>p m. holds s p m \<longrightarrow> 0 \<le> mid (mx s m) \<and> cls s m \<in> omap_keys (held (ld s) p))
   \<and> (\<forall>p m m'. holds s p m \<longrightarrow> holds s p m' \<longrightarrow> cls s m = cls s m' \<longrightarrow> m = m')
   \<and> (\<forall>p m. pc s p = Acquired m \<or> pc s p = Unlocking m \<longrightarrow> m_owner (mx s m) = Some p)
   \<and> (\<forall>p m. locked_by (mx s m) = Some p \<longleftrightarrow> holds s p m)
   \<and> (\<forall>m. nlock (mx s m) = (if locked_by (mx s m) = None then 0 else 1))"

definition sys_wait :: "sys \<Rightarrow> bool" where
  "sys_wait s \<longleftrightarrow>
     (\<forall>p m. busy s p = Some m \<longrightarrow> fresh_class (ld s) p (mx s m))
   \<and> (\<forall>p m. wants s p = Some m \<longrightarrow> 0 \<le> mid (mx s m))
   \<and> (\<forall>p m m'. wants s p = Some m' \<longrightarrow> holds s p m \<longrightarrow> (cls s m, cls s m') \<in> edges (follows (ld s)))"

definition sys_inv :: "sys \<Rightarrow> bool" where
  "sys_inv s \<longleftrightarrow> sys_base s \<and> sys_held s \<and> sys_wait s"

text \<open>What the functions do to a tracked mutex while the checker is on.\<close>

text \<open>A name that becomes known gets an id that no name had.\<close>

definition ids_grow :: "lockdep \<Rightarrow> lockdep \<Rightarrow> bool" where
  "ids_grow l k \<longleftrightarrow> (\<forall>g i. lock_ids k g = Some i \<longrightarrow> lock_ids l g = Some i \<or> i \<notin> dom (lock_names l))"

lemma ids_grow_class: "ids_grow l k \<Longrightarrow> lock_class k x = Some c \<Longrightarrow> lock_class l x = Some c \<or> c \<notin> dom (lock_names l)"
  by (auto simp: ids_grow_def lock_class_def split: if_splits)

lemma ids_grow_fresh:
  assumes "lockdep_inv l" "ids_grow l k" "fresh_class l p x" "held k p = held l p"
  shows "fresh_class k p x"
  using assms(3,4) ids_grow_class [OF assms(2), of x] inv_held(2) [OF assms(1), of _ p]
  by (fastforce simp: fresh_class_def)

text \<open>How \<open>_will_lock\<close> and \<open>_locked\<close> find the class, registering it when it is new.\<close>

lemma resolve_class:
  assumes inv: "lockdep_inv l" "g_lockdep l" "valid_id l (mid x)"
    and r: "(if mid x < 0 then lockdep_register_inner (group x) l else Ok (mid x, l)) = Ok (i, t)"
  shows "0 \<le> i" "0 \<le> mid x \<Longrightarrow> i = mid x" "lockdep_inv t" "g_lockdep t" "held t = held l"
    "edges (follows t) = edges (follows l)" "lock_names l \<subseteq>\<^sub>m lock_names t" "nat i \<in> dom (lock_names t)"
    "lock_class t x = Some (nat i)" "ids_grow l t"
proof -
  have g: "lock_class t x = Some (nat i) \<and> ids_grow l t"
  proof (cases "mid x < 0")
    case True
    then have r': "lockdep_register_inner (group x) l = Ok (i, t)" using r by simp
    note R = register_Ok [OF inv(1,2) r']
    show ?thesis using R(2,7,8) True by (auto simp: lock_class_def ids_grow_def)
  qed (use r in \<open>auto simp: lock_class_def ids_grow_def\<close>)
  then show "lock_class t x = Some (nat i)" "ids_grow l t" by blast+
  show "0 \<le> mid x \<Longrightarrow> i = mid x" using r by simp
  show "0 \<le> i" "lockdep_inv t" "g_lockdep t" "held t = held l" "edges (follows t) = edges (follows l)"
      "lock_names l \<subseteq>\<^sub>m lock_names t" "nat i \<in> dom (lock_names t)"
    by (cases rule: valid_id_resolve [where name = "group x", OF inv]; use r in simp)+
qed

lemma lock_enter_Ok:
  assumes inv: "lockdep_inv l" "g_lockdep l" "lockdep_on x" "valid_id l (mid x)"
    and r: "lock_enter False False p x l = Ok (y, k)"
  shows "y = x\<lparr>mid := mid y\<rparr>" "0 \<le> mid y" "0 \<le> mid x \<Longrightarrow> mid y = mid x"
    "lockdep_inv k" "g_lockdep k" "held k = held l" "edges (follows l) \<subseteq> edges (follows k)"
    "lock_names l \<subseteq>\<^sub>m lock_names k" "nat (mid y) \<in> dom (lock_names k)"
    "nat (mid y) \<notin> omap_keys (held l p)" "\<forall>c \<in> omap_keys (held l p). (c, nat (mid y)) \<in> edges (follows k)"
    "lock_class k x = Some (nat (mid y))" "ids_grow l k"
proof -
  obtain i where w: "lockdep_will_lock p (group x) (mid x) (backtrace x) False l = Ok (i, k)" and y: "y = x\<lparr>mid := i\<rparr>"
    using r inv(2,3) by (auto simp: lock_enter_def impl_lockdep_enabled_def base_lockdep_enabled_def base_will_lock_def)
  obtain t where t: "(if mid x < 0 then lockdep_register_inner (group x) l else Ok (mid x, l)) = Ok (i, t)"
      and c: "check_held (nat i) (backtrace x) False (held t p) t = Ok k"
    using w inv(2) by (auto simp: lockdep_will_lock_def)
  note R = resolve_class [OF inv(1,2,4) t]
  have nov: "\<not> order_violation (nat i) False (omap_keys (held t p)) (edges (follows t))"
    and k: "graph_frame t k" "lockdep_inv k"
      "edges (follows k) = edges (follows t) \<union> (omap_keys (held t p) - {nat i}) \<times> {nat i}"
    using check_held_inv [OF R(3,8), of False p "backtrace x"] c by (auto split: if_splits)
  have nh: "nat i \<notin> omap_keys (held t p)" using nov by (auto simp: order_violation_def)
  note F = graph_frame_fields [OF k(1)]
  show "y = x\<lparr>mid := mid y\<rparr>" "0 \<le> mid y" "0 \<le> mid x \<Longrightarrow> mid y = mid x"
    "lockdep_inv k" "g_lockdep k" "held k = held l" "edges (follows l) \<subseteq> edges (follows k)"
    "lock_names l \<subseteq>\<^sub>m lock_names k" "nat (mid y) \<in> dom (lock_names k)"
    "nat (mid y) \<notin> omap_keys (held l p)" "\<forall>c \<in> omap_keys (held l p). (c, nat (mid y)) \<in> edges (follows k)"
    "lock_class k x = Some (nat (mid y))" "ids_grow l k"
    using R k(2,3) nh F by (auto simp: y lock_class_def ids_grow_def)
qed

text \<open>The end of a successful \<open>lock()\<close> or \<open>try_lock()\<close>, whether its class is registered yet or not.\<close>

lemma after_acquire_resolved:
  assumes "lockdep_inv l" "g_lockdep l" "lockdep_on x" "valid_id l (mid x)"
    and r: "after_acquire False False p x l = Ok (y, k)"
  obtains i t b where "(if mid x < 0 then lockdep_register_inner (group x) l else Ok (mid x, l)) = Ok (i, t)"
    "y = x\<lparr>mid := i, locked_by := Some p, nlock := 1\<rparr>" "nlock x = 0" "lockdep_inv k"
    "k = t\<lparr>held := (held t)(p := omap_put (nat i) b (held t p))\<rparr>"
proof -
  obtain i t where t: "(if mid x < 0 then lockdep_register_inner (group x) l else Ok (mid x, l)) = Ok (i, t)"
      and k: "k = t\<lparr>held := (held t)(p := omap_put (nat i) (if backtrace x then ClibBackTrace else NullBT) (held t p))\<rparr>"
        "y = x\<lparr>mid := i, locked_by := Some p, nlock := 1\<rparr>" "nlock x = 0"
    using r assms(2,3) by (auto simp: after_acquire_def impl_lockdep_enabled_def base_lockdep_enabled_def base_locked_def
        lockdep_locked_def post_lock_def)
  note R = resolve_class [OF assms(1,2,4) t]
  have "lockdep_inv k" unfolding k(1) by (rule locked_inv [OF R(3,8)])
  then show thesis using that [OF t k(2,3)] k(1) by blast
qed

lemma after_acquire_Ok:
  assumes "lockdep_inv l" "g_lockdep l" "lockdep_on x" "0 \<le> mid x" "nat (mid x) \<in> dom (lock_names l)"
    and r: "after_acquire False False p x l = Ok (y, k)"
  shows "y = x\<lparr>locked_by := Some p, nlock := 1\<rparr>" "nlock x = 0" "lockdep_inv k"
    "k = l\<lparr>held := (held l)(p := omap_put (nat (mid x)) (if backtrace x then ClibBackTrace else NullBT) (held l p))\<rparr>"
proof -
  have k: "k = l\<lparr>held := (held l)(p := omap_put (nat (mid x)) (if backtrace x then ClibBackTrace else NullBT) (held l p))\<rparr>
      \<and> y = x\<lparr>locked_by := Some p, nlock := 1\<rparr> \<and> nlock x = 0"
    using r assms(2-4) by (auto simp: after_acquire_def impl_lockdep_enabled_def base_lockdep_enabled_def base_locked_def
        lockdep_locked_def post_lock_def)
  then show "y = x\<lparr>locked_by := Some p, nlock := 1\<rparr>" "nlock x = 0"
    "k = l\<lparr>held := (held l)(p := omap_put (nat (mid x)) (if backtrace x then ClibBackTrace else NullBT) (held l p))\<rparr>"
    by simp_all
  show "lockdep_inv k" using locked_inv [OF assms(1,5)] k by blast
qed

lemma unlock_enter_Ok:
  assumes "lockdep_inv l" "g_lockdep l" "lockdep_on x" "0 \<le> mid x"
    and r: "unlock_enter False False p x l = Ok (y, k)"
  shows "y = x\<lparr>locked_by := None, nlock := 0\<rparr>" "nlock x = 1" "locked_by x = Some p" "lockdep_inv k"
    "k = l\<lparr>held := (held l)(p := omap_del (nat (mid x)) (held l p))\<rparr>"
proof -
  have k: "k = l\<lparr>held := (held l)(p := omap_del (nat (mid x)) (held l p))\<rparr>
      \<and> y = x\<lparr>locked_by := None, nlock := 0\<rparr> \<and> nlock x = 1 \<and> locked_by x = Some p"
    using r assms(2-4) by (auto simp: unlock_enter_def impl_lockdep_enabled_def base_lockdep_enabled_def
        base_will_unlock_def lockdep_will_unlock_def pre_unlock_def)
  then show "y = x\<lparr>locked_by := None, nlock := 0\<rparr>" "nlock x = 1" "locked_by x = Some p"
    "k = l\<lparr>held := (held l)(p := omap_del (nat (mid x)) (held l p))\<rparr>" by simp_all
  show "lockdep_inv k" using will_unlock_inv [OF assms(1)] k by blast
qed

lemma sys_heldD:
  assumes "sys_held s"
  shows "holds s p m \<Longrightarrow> 0 \<le> mid (mx s m)" "holds s p m \<Longrightarrow> cls s m \<in> omap_keys (held (ld s) p)"
    "holds s p m \<Longrightarrow> holds s p m' \<Longrightarrow> cls s m = cls s m' \<Longrightarrow> m = m'"
    "pc s p = Acquired m \<Longrightarrow> m_owner (mx s m) = Some p" "pc s p = Unlocking m \<Longrightarrow> m_owner (mx s m) = Some p"
    "locked_by (mx s m) = Some p \<longleftrightarrow> holds s p m"
    "nlock (mx s m) = (if locked_by (mx s m) = None then 0 else 1)"
  using assms unfolding sys_held_def by blast+

lemma sys_heldI:
  assumes "\<And>p m. holds s p m \<Longrightarrow> 0 \<le> mid (mx s m) \<and> cls s m \<in> omap_keys (held (ld s) p)"
    "\<And>p m m'. holds s p m \<Longrightarrow> holds s p m' \<Longrightarrow> cls s m = cls s m' \<Longrightarrow> m = m'"
    "\<And>p m. pc s p = Acquired m \<or> pc s p = Unlocking m \<Longrightarrow> m_owner (mx s m) = Some p"
    "\<And>p m. locked_by (mx s m) = Some p \<longleftrightarrow> holds s p m"
    "\<And>m. nlock (mx s m) = (if locked_by (mx s m) = None then 0 else 1)"
  shows "sys_held s"
  using assms unfolding sys_held_def by blast

lemma sys_waitD:
  assumes "sys_wait s"
  shows "busy s p = Some m \<Longrightarrow> fresh_class (ld s) p (mx s m)" "wants s p = Some m \<Longrightarrow> 0 \<le> mid (mx s m)"
    "wants s p = Some m' \<Longrightarrow> holds s p m \<Longrightarrow> (cls s m, cls s m') \<in> edges (follows (ld s))"
  using assms unfolding sys_wait_def by blast+

lemma sys_waitI:
  assumes "\<And>p m. busy s p = Some m \<Longrightarrow> fresh_class (ld s) p (mx s m)"
    "\<And>p m. wants s p = Some m \<Longrightarrow> 0 \<le> mid (mx s m)"
    "\<And>p m m'. wants s p = Some m' \<Longrightarrow> holds s p m \<Longrightarrow> (cls s m, cls s m') \<in> edges (follows (ld s))"
  shows "sys_wait s"
  using assms unfolding sys_wait_def by blast

lemma fresh_cls: "fresh_class l p x \<Longrightarrow> 0 \<le> mid x \<Longrightarrow> nat (mid x) \<notin> omap_keys (held l p)"
  by (simp add: fresh_class_def lock_class_def)

lemma fresh_cong: "mid y = mid x \<Longrightarrow> group y = group x \<Longrightarrow> fresh_class l p y = fresh_class l p x"
  by (simp add: fresh_class_def lock_class_def)

lemma sys_baseD:
  assumes "sys_base s"
  shows "lockdep_inv (ld s)" "g_lockdep (ld s)" "lockdep_on (mx s m)" "valid_id (ld s) (mid (mx s m))"
    "0 \<le> mid (mx s m) \<Longrightarrow> cls s m \<in> dom (lock_names (ld s))" "m_count (mx s m) \<le> 1"
proof -
  show v: "lockdep_inv (ld s)" "g_lockdep (ld s)" "lockdep_on (mx s m)" "valid_id (ld s) (mid (mx s m))"
    "m_count (mx s m) \<le> 1"
    using assms unfolding sys_base_def by blast+
  show "0 \<le> mid (mx s m) \<Longrightarrow> cls s m \<in> dom (lock_names (ld s))"
    using v(2,4) by (auto simp: valid_id_def)
qed

lemma enter_inv:
  assumes inv: "sys_inv s" and pc: "pc s p = Idle"
    and r: "lock_enter False False p (mx s m) (ld s) = Ok (x, l)"
  shows "sys_inv (s\<lparr>ld := l, mx := (mx s)(m := x), pc := (pc s)(p := TryLock m)\<rparr>)"
proof -
  let ?t = "s\<lparr>ld := l, mx := (mx s)(m := x), pc := (pc s)(p := TryLock m)\<rparr>"
  have b: "sys_base s" and h: "sys_held s" and w: "sys_wait s" using inv by (simp_all add: sys_inv_def)
  note E = lock_enter_Ok [OF sys_baseD(1-4) [OF b] r]
  have x: "m_owner x = m_owner (mx s m)" "locked_by x = locked_by (mx s m)" "nlock x = nlock (mx s m)"
    "lockdep_on x = lockdep_on (mx s m)" "m_count x = m_count (mx s m)"
    by (subst E(1), simp)+
  have hold: "holds ?t q n = holds s q n" for q n
    using pc by (simp add: holds_def x)
  have mid: "mid (mx ?t n) = mid (mx s n)" if "0 \<le> mid (mx s n)" for n
    using that E(3) by (cases "n = m") simp_all
  have "sys_base ?t"
  proof -
    have "valid_id l (mid (mx ?t n))" for n
      using sys_baseD(4) [OF b, of n] E(2,5,8,9) sys_baseD(2) [OF b] by (auto simp: valid_id_def map_le_def dom_def)
    then show ?thesis using sys_baseD(3,6) [OF b] E(4,5) by (simp add: sys_base_def x)
  qed
  moreover have "sys_held ?t"
  proof (rule sys_heldI)
    fix q n
    show "holds ?t q n \<Longrightarrow> 0 \<le> mid (mx ?t n) \<and> cls ?t n \<in> omap_keys (held (ld ?t) q)"
      using mid [of n] sys_heldD(1,2) [OF h, of q n] unfolding hold by (simp add: E(6))
    show "holds ?t q n \<Longrightarrow> holds ?t q n' \<Longrightarrow> cls ?t n = cls ?t n' \<Longrightarrow> n = n'" for n'
      using mid sys_heldD(1,3) [OF h] unfolding hold by metis
    show "pc ?t q = Acquired n \<or> pc ?t q = Unlocking n \<Longrightarrow> m_owner (mx ?t n) = Some q"
      using sys_heldD(4,5) [OF h, of q n] by (auto simp: x split: if_splits)
    show "locked_by (mx ?t n) = Some q \<longleftrightarrow> holds ?t q n"
      using sys_heldD(6) [OF h] unfolding hold by (simp add: x)
    show "nlock (mx ?t n) = (if locked_by (mx ?t n) = None then 0 else 1)"
      using sys_heldD(7) [OF h] by (simp add: x)
  qed
  moreover have "sys_wait ?t"
  proof (rule sys_waitI)
    fix q n
    show "busy ?t q = Some n \<Longrightarrow> fresh_class (ld ?t) q (mx ?t n)"
    proof (cases "q = p")
      case False
      assume "busy ?t q = Some n"
      then have "fresh_class (ld s) q (mx s n)" using False sys_waitD(1) [OF w] by (simp add: busy_def)
      then have "fresh_class l q (mx s n)" by (rule ids_grow_fresh [OF sys_baseD(1) [OF b] E(13)]) (simp add: E(6))
      then show ?thesis using E(2,12) by (auto simp: fresh_class_def lock_class_def)
    qed (use E(2,10) in \<open>auto simp: busy_def E(6) fresh_class_def lock_class_def\<close>)
    show "wants ?t q = Some n \<Longrightarrow> 0 \<le> mid (mx ?t n)"
      using E(2) sys_waitD(2) [OF w, of q n] by (auto simp: wants_def split: if_splits)
    show "wants ?t q = Some n' \<Longrightarrow> holds ?t q n \<Longrightarrow> (cls ?t n, cls ?t n') \<in> edges (follows (ld ?t))" for n'
    proof (cases "q = p")
      case True
      assume "wants ?t q = Some n'" and "holds ?t q n"
      then have n': "n' = m" "holds s p n" using True unfolding hold by (simp_all add: wants_def)
      have "cls s n \<in> omap_keys (held (ld s) p)" using sys_heldD(2) [OF h] n' by blast
      then have "(cls s n, nat (mid x)) \<in> edges (follows l)" using E(11) by blast
      moreover have "cls ?t n = cls s n" using mid sys_heldD(1) [OF h n'(2)] by simp
      ultimately show ?thesis using n'(1) by simp
    next
      case False
      assume a: "wants ?t q = Some n'" and "holds ?t q n"
      then have wq: "wants s q = Some n'" "holds s q n" using False unfolding hold by (simp_all add: wants_def)
      have "cls ?t n = cls s n" "cls ?t n' = cls s n'"
        using mid sys_heldD(1) [OF h wq(2)] sys_waitD(2) [OF w wq(1)] by simp_all
      then show ?thesis using sys_waitD(3) [OF w wq] E(7) by auto
    qed
  qed
  ultimately show ?thesis by (simp add: sys_inv_def)
qed

text \<open>The steps that only change who owns one mutex, or only the program point.\<close>

lemma owner_inv:
  assumes inv: "sys_inv s" and x: "x = (mx s m)\<lparr>m_owner := Some p, m_count := 1\<rparr>" and own: "m_owner (mx s m) = None"
    and c: "fresh_class (ld s) p (mx s m)" and pc: "\<forall>n. pc s p \<noteq> Acquired n \<and> pc s p \<noteq> Unlocking n"
  shows "sys_inv (s\<lparr>mx := (mx s)(m := x), pc := (pc s)(p := Acquired m)\<rparr>)"
proof -
  let ?t = "s\<lparr>mx := (mx s)(m := x), pc := (pc s)(p := Acquired m)\<rparr>"
  have b: "sys_base s" and h: "sys_held s" and w: "sys_wait s" using inv by (simp_all add: sys_inv_def)
  have hold: "holds ?t q n = holds s q n" for q n
    using pc own by (auto simp: holds_def x)
  have mid: "mid (mx ?t n) = mid (mx s n)" for n by (simp add: x)
  have "sys_base ?t" using b by (simp add: sys_base_def x)
  moreover have "sys_held ?t"
  proof (rule sys_heldI)
    fix q n
    show "pc ?t q = Acquired n \<or> pc ?t q = Unlocking n \<Longrightarrow> m_owner (mx ?t n) = Some q"
      using sys_heldD(4,5) [OF h, of q n] own by (auto simp: x split: if_splits)
    show "locked_by (mx ?t n) = Some q \<longleftrightarrow> holds ?t q n"
      using sys_heldD(6) [OF h] unfolding hold by (simp add: x)
    show "nlock (mx ?t n) = (if locked_by (mx ?t n) = None then 0 else 1)"
      using sys_heldD(7) [OF h] by (simp add: x)
    show "holds ?t q n \<Longrightarrow> 0 \<le> mid (mx ?t n) \<and> cls ?t n \<in> omap_keys (held (ld ?t) q)"
      using sys_heldD(1,2) [OF h, of q n] unfolding hold mid by simp
    show "holds ?t q n \<Longrightarrow> holds ?t q n' \<Longrightarrow> cls ?t n = cls ?t n' \<Longrightarrow> n = n'" for n'
      using sys_heldD(3) [OF h] unfolding hold mid by blast
  qed
  moreover have "sys_wait ?t"
  proof (rule sys_waitI)
    fix q n
    have "fresh_class (ld s) q (mx ?t n) = fresh_class (ld s) q (mx s n)" by (rule fresh_cong) (simp_all add: x)
    then show "busy ?t q = Some n \<Longrightarrow> fresh_class (ld ?t) q (mx ?t n)"
      using sys_waitD(1) [OF w, of q n] c by (auto simp: busy_def split: if_splits)
    show "wants ?t q = Some n \<Longrightarrow> 0 \<le> mid (mx ?t n)"
      using sys_waitD(2) [OF w, of q n] unfolding mid by (auto simp: wants_def split: if_splits)
    show "wants ?t q = Some n' \<Longrightarrow> holds ?t q n \<Longrightarrow> (cls ?t n, cls ?t n') \<in> edges (follows (ld ?t))" for n'
      using sys_waitD(3) [OF w, of q n' n] unfolding mid hold by (auto simp: wants_def split: if_splits)
  qed
  ultimately show ?thesis by (simp add: sys_inv_def)
qed

lemma busy_inv:
  assumes inv: "sys_inv s" and pc: "pc s p = TryLock m"
  shows "sys_inv (s\<lparr>pc := (pc s)(p := BlockOn m)\<rparr>)"
proof -
  let ?t = "s\<lparr>pc := (pc s)(p := BlockOn m)\<rparr>"
  have b: "sys_base s" and h: "sys_held s" and w: "sys_wait s" using inv by (simp_all add: sys_inv_def)
  have hold: "holds ?t = holds s" using pc by (auto simp: holds_def fun_eq_iff)
  have pcs: "wants ?t = wants s" "busy ?t = busy s" using pc by (auto simp: wants_def busy_def fun_eq_iff)
  have acq: "pc ?t q = Acquired n \<or> pc ?t q = Unlocking n \<longleftrightarrow> pc s q = Acquired n \<or> pc s q = Unlocking n" for q n
    using pc by auto
  have "sys_held ?t" using h unfolding sys_held_def hold acq by simp
  moreover have "sys_wait ?t" using w unfolding sys_wait_def hold pcs by simp
  ultimately show ?thesis using b by (simp add: sys_inv_def sys_base_def)
qed

lemma release_inv:
  assumes inv: "sys_inv s" and pc: "pc s p = Unlocking m" and r: "unlock_impl p (mx s m) = Ok x"
  shows "sys_inv (s\<lparr>mx := (mx s)(m := x), pc := (pc s)(p := Idle)\<rparr>)"
proof -
  let ?t = "s\<lparr>mx := (mx s)(m := x), pc := (pc s)(p := Idle)\<rparr>"
  have b: "sys_base s" and h: "sys_held s" and w: "sys_wait s" using inv by (simp_all add: sys_inv_def)
  have own: "m_owner (mx s m) = Some p" using sys_heldD(5) [OF h pc] .
  have x: "x = (mx s m)\<lparr>m_owner := None, m_count := 0\<rparr>"
    using r own sys_baseD(6) [OF b, of m] by (auto simp: unlock_impl_def)
  have hold: "holds ?t q n = holds s q n" for q n
    using pc own by (auto simp: holds_def x)
  have mid: "mid (mx ?t n) = mid (mx s n)" for n by (simp add: x)
  have "sys_base ?t" using b by (simp add: sys_base_def x)
  moreover have "sys_held ?t"
  proof (rule sys_heldI)
    fix q n
    show "holds ?t q n \<Longrightarrow> 0 \<le> mid (mx ?t n) \<and> cls ?t n \<in> omap_keys (held (ld ?t) q)"
      using sys_heldD(1,2) [OF h, of q n] unfolding hold mid by simp
    show "holds ?t q n \<Longrightarrow> holds ?t q n' \<Longrightarrow> cls ?t n = cls ?t n' \<Longrightarrow> n = n'" for n'
      using sys_heldD(3) [OF h] unfolding hold mid by blast
    show "pc ?t q = Acquired n \<or> pc ?t q = Unlocking n \<Longrightarrow> m_owner (mx ?t n) = Some q"
      using sys_heldD(4,5) [OF h, of q n] own by (auto simp: x split: if_splits)
    show "locked_by (mx ?t n) = Some q \<longleftrightarrow> holds ?t q n"
      using sys_heldD(6) [OF h] unfolding hold by (simp add: x)
    show "nlock (mx ?t n) = (if locked_by (mx ?t n) = None then 0 else 1)"
      using sys_heldD(7) [OF h] by (simp add: x)
  qed
  moreover have "sys_wait ?t"
  proof (rule sys_waitI)
    fix q n
    have "fresh_class (ld s) q (mx ?t n) = fresh_class (ld s) q (mx s n)" by (rule fresh_cong) (simp_all add: x)
    then show "busy ?t q = Some n \<Longrightarrow> fresh_class (ld ?t) q (mx ?t n)"
      using sys_waitD(1) [OF w, of q n] by (auto simp: busy_def split: if_splits)
    show "wants ?t q = Some n \<Longrightarrow> 0 \<le> mid (mx ?t n)"
      using sys_waitD(2) [OF w, of q n] unfolding mid by (auto simp: wants_def split: if_splits)
    show "wants ?t q = Some n' \<Longrightarrow> holds ?t q n \<Longrightarrow> (cls ?t n, cls ?t n') \<in> edges (follows (ld ?t))" for n'
      using sys_waitD(3) [OF w, of q n' n] unfolding mid hold by (auto simp: wants_def split: if_splits)
  qed
  ultimately show ?thesis by (simp add: sys_inv_def)
qed

lemma post_inv:
  assumes inv: "sys_inv s" and pc: "pc s p = Acquired m"
    and r: "after_acquire False False p (mx s m) (ld s) = Ok (x, l)"
  shows "sys_inv (s\<lparr>ld := l, mx := (mx s)(m := x), pc := (pc s)(p := Idle)\<rparr>)"
proof -
  let ?t = "s\<lparr>ld := l, mx := (mx s)(m := x), pc := (pc s)(p := Idle)\<rparr>"
  have b: "sys_base s" and h: "sys_held s" and w: "sys_wait s" using inv by (simp_all add: sys_inv_def)
  have own: "m_owner (mx s m) = Some p" using sys_heldD(4) [OF h pc] .
  have fr: "fresh_class (ld s) p (mx s m)" using sys_waitD(1) [OF w] pc by (simp add: busy_def)
  obtain i t b' where A: "(if mid (mx s m) < 0 then lockdep_register_inner (group (mx s m)) (ld s) else Ok (mid (mx s m), ld s)) = Ok (i, t)"
    "x = (mx s m)\<lparr>mid := i, locked_by := Some p, nlock := 1\<rparr>" "nlock (mx s m) = 0" "lockdep_inv l"
    "l = t\<lparr>held := (held t)(p := omap_put (nat i) b' (held t p))\<rparr>"
    by (rule after_acquire_resolved [OF sys_baseD(1-4) [OF b] r])
  note R = resolve_class [OF sys_baseD(1,2,4) [OF b] A(1)]
  have ni: "nat i \<notin> omap_keys (held (ld s) p)"
    using ids_grow_class [OF R(10,9)] fr inv_held(2) [OF sys_baseD(1) [OF b], of "nat i" p] by (auto simp: fresh_class_def)
  have lk: "locked_by (mx s m) = None" using sys_heldD(7) [OF h, of m] A(3) by (auto split: if_splits)
  have hold: "holds ?t q n \<longleftrightarrow> holds s q n \<or> q = p \<and> n = m" for q n
    using pc own by (auto simp: holds_def A(2))
  have mid: "mid (mx ?t n) = mid (mx s n)" if "0 \<le> mid (mx s n)" for n
    using that R(2) by (cases "n = m") (simp_all add: A(2))
  have midm: "mid (mx ?t m) = i" by (simp add: A(2))
  have held: "omap_keys (held (ld ?t) q) = (if q = p then insert (nat i) (omap_keys (held (ld s) q)) else omap_keys (held (ld s) q))" for q
    by (simp add: A(5) R(5))
  have k: "g_lockdep l" "lock_names l = lock_names t" "lock_ids l = lock_ids t" "edges (follows l) = edges (follows (ld s))"
    using R(4,6) by (simp_all add: A(5))
  have "sys_base ?t"
  proof -
    have "valid_id l (mid (mx ?t n))" for n
      using sys_baseD(4) [OF b, of n] R(1,7,8) k(1,2) sys_baseD(2) [OF b]
      by (auto simp: valid_id_def map_le_def dom_def A(2))
    then show ?thesis using sys_baseD(3,6) [OF b] A(4) k(1) by (simp add: sys_base_def A(2))
  qed
  moreover have "sys_held ?t"
  proof (rule sys_heldI)
    fix q n
    show "holds ?t q n \<Longrightarrow> 0 \<le> mid (mx ?t n) \<and> cls ?t n \<in> omap_keys (held (ld ?t) q)"
      using sys_heldD(1,2) [OF h, of q n] R(1) mid [of n] midm unfolding hold held by auto
    show "holds ?t q n \<Longrightarrow> holds ?t q n' \<Longrightarrow> cls ?t n = cls ?t n' \<Longrightarrow> n = n'" for n'
    proof -
      have old: "mid (mx ?t u) = mid (mx s u) \<and> cls s u \<noteq> nat i" if "holds s p u" for u
        using mid [OF sys_heldD(1) [OF h that]] sys_heldD(2) [OF h that] ni by auto
      have old': "mid (mx ?t u) = mid (mx s u)" if "holds s q u" for u using mid [OF sys_heldD(1) [OF h that]] .
      show "holds ?t q n \<Longrightarrow> holds ?t q n' \<Longrightarrow> cls ?t n = cls ?t n' \<Longrightarrow> n = n'"
        using sys_heldD(3) [OF h, of q n n'] old old' midm unfolding hold by metis
    qed
    show "pc ?t q = Acquired n \<or> pc ?t q = Unlocking n \<Longrightarrow> m_owner (mx ?t n) = Some q"
      using sys_heldD(4,5) [OF h, of q n] own by (auto simp: A(2) split: if_splits)
    show "locked_by (mx ?t n) = Some q \<longleftrightarrow> holds ?t q n"
      using sys_heldD(6) [OF h, of n q] lk unfolding hold by (auto simp: A(2))
    show "nlock (mx ?t n) = (if locked_by (mx ?t n) = None then 0 else 1)"
      using sys_heldD(7) [OF h, of n] by (simp add: A(2))
  qed
  moreover have "sys_wait ?t"
  proof (rule sys_waitI)
    fix q n
    show "busy ?t q = Some n \<Longrightarrow> fresh_class (ld ?t) q (mx ?t n)"
    proof -
      assume bq: "busy ?t q = Some n"
      then have q: "q \<noteq> p" by (auto simp: busy_def)
      then have "fresh_class (ld s) q (mx s n)" using bq sys_waitD(1) [OF w] by (simp add: busy_def)
      then have "fresh_class t q (mx s n)" by (rule ids_grow_fresh [OF sys_baseD(1) [OF b] R(10)]) (simp add: R(5))
      then show ?thesis using R(1,9) q by (auto simp: fresh_class_def lock_class_def A(2,5))
    qed
    show "wants ?t q = Some n \<Longrightarrow> 0 \<le> mid (mx ?t n)"
      using sys_waitD(2) [OF w, of q n] mid [of n] by (auto simp: wants_def split: if_splits)
    show "wants ?t q = Some n' \<Longrightarrow> holds ?t q n \<Longrightarrow> (cls ?t n, cls ?t n') \<in> edges (follows (ld ?t))" for n'
    proof -
      assume wq: "wants ?t q = Some n'" and hq: "holds ?t q n"
      then have "q \<noteq> p" by (auto simp: wants_def)
      then have o: "wants s q = Some n'" "holds s q n" using wq hq unfolding hold by (simp_all add: wants_def)
      show ?thesis
        using sys_waitD(3) [OF w o] mid [OF sys_waitD(2) [OF w o(1)]] mid [OF sys_heldD(1) [OF h o(2)]] k(4) by simp
    qed
  qed
  ultimately show ?thesis by (simp add: sys_inv_def)
qed

lemma unlock_enter_inv:
  assumes inv: "sys_inv s" and pc: "pc s p = Idle"
    and r: "unlock_enter False False p (mx s m) (ld s) = Ok (x, l)"
  shows "sys_inv (s\<lparr>ld := l, mx := (mx s)(m := x), pc := (pc s)(p := Unlocking m)\<rparr>)"
proof -
  let ?t = "s\<lparr>ld := l, mx := (mx s)(m := x), pc := (pc s)(p := Unlocking m)\<rparr>"
  have b: "sys_base s" and h: "sys_held s" and w: "sys_wait s" using inv by (simp_all add: sys_inv_def)
  have lk: "locked_by (mx s m) = Some p" using r by (auto simp: unlock_enter_def pre_unlock_def)
  then have hp: "holds s p m" using sys_heldD(6) [OF h] by simp
  then have own: "m_owner (mx s m) = Some p" by (simp add: holds_def)
  note U = unlock_enter_Ok [OF sys_baseD(1-3) [OF b] sys_heldD(1) [OF h hp] r]
  have hold: "holds ?t q n \<longleftrightarrow> holds s q n \<and> \<not> (q = p \<and> n = m)" for q n
    using pc own by (auto simp: holds_def U(1))
  have mid: "mid (mx ?t n) = mid (mx s n)" for n by (simp add: U(1))
  have held: "omap_keys (held (ld ?t) q) = (if q = p then omap_keys (held (ld s) q) - {cls s m} else omap_keys (held (ld s) q))" for q
    by (simp add: U(5))
  have g: "valid_id l i = valid_id (ld s) i" "g_lockdep l = g_lockdep (ld s)" for i
    by (simp_all add: U(5) valid_id_def)
  have "sys_base ?t" using b U(4) by (simp add: sys_base_def U(1) g)
  moreover have "sys_held ?t"
  proof (rule sys_heldI)
    fix q n
    show "holds ?t q n \<Longrightarrow> 0 \<le> mid (mx ?t n) \<and> cls ?t n \<in> omap_keys (held (ld ?t) q)"
      using sys_heldD(1,2) [OF h, of q n] sys_heldD(3) [OF h, of p m n] hp unfolding hold mid held by auto
    show "holds ?t q n \<Longrightarrow> holds ?t q n' \<Longrightarrow> cls ?t n = cls ?t n' \<Longrightarrow> n = n'" for n'
      using sys_heldD(3) [OF h, of q n n'] unfolding hold mid by blast
    show "pc ?t q = Acquired n \<or> pc ?t q = Unlocking n \<Longrightarrow> m_owner (mx ?t n) = Some q"
      using sys_heldD(4,5) [OF h, of q n] own by (auto simp: U(1) split: if_splits)
    show "locked_by (mx ?t n) = Some q \<longleftrightarrow> holds ?t q n"
      using sys_heldD(6) [OF h, of n q] lk own unfolding hold by (auto simp: U(1) holds_def)
    show "nlock (mx ?t n) = (if locked_by (mx ?t n) = None then 0 else 1)"
      using sys_heldD(7) [OF h, of n] by (simp add: U(1))
  qed
  moreover have "sys_wait ?t"
  proof (rule sys_waitI)
    fix q n
    have "fresh_class (ld s) q (mx s n) \<Longrightarrow> fresh_class l q (mx ?t n)"
      using held [of q] by (auto simp: fresh_class_def lock_class_def U(1,5) split: if_splits)
    then show "busy ?t q = Some n \<Longrightarrow> fresh_class (ld ?t) q (mx ?t n)"
      using sys_waitD(1) [OF w, of q n] by (auto simp: busy_def split: if_splits)
    show "wants ?t q = Some n \<Longrightarrow> 0 \<le> mid (mx ?t n)"
      using sys_waitD(2) [OF w, of q n] unfolding mid by (auto simp: wants_def split: if_splits)
    show "wants ?t q = Some n' \<Longrightarrow> holds ?t q n \<Longrightarrow> (cls ?t n, cls ?t n') \<in> edges (follows (ld ?t))" for n'
      using sys_waitD(3) [OF w, of q n' n] unfolding mid hold by (auto simp: wants_def U(5) split: if_splits)
  qed
  ultimately show ?thesis by (simp add: sys_inv_def)
qed

lemma step_inv:
  "step s t \<Longrightarrow> sys_inv s \<Longrightarrow> (\<forall>p m. pc s p = Idle \<longrightarrow> pc t p = Acquired m \<longrightarrow> fresh_class (ld s) p (mx s m)) \<Longrightarrow> sys_inv t"
proof (induction rule: step.induct)
  case (enter s p m x l)
  show ?case by (rule enter_inv [OF enter.prems(1) enter.hyps])
next
  case (try_ok s p m x)
  have w: "sys_wait s" using try_ok.prems(1) by (simp add: sys_inv_def)
  have bs: "busy s p = Some m" using try_ok.hyps(1) by (simp add: busy_def)
  show ?case
    by (rule owner_inv [OF try_ok.prems(1)])
      (use try_ok.hyps sys_waitD(1) [OF w bs] in \<open>auto simp: try_lock_impl_def split: option.splits if_splits\<close>)
next
  case (try_busy s p m x)
  show ?case by (rule busy_inv [OF try_busy.prems(1) try_busy.hyps(1)])
next
  case (wake s p m x)
  have w: "sys_wait s" using wake.prems(1) by (simp add: sys_inv_def)
  have bs: "busy s p = Some m" using wake.hyps(1) by (simp add: busy_def)
  show ?case
    by (rule owner_inv [OF wake.prems(1)])
      (use wake.hyps sys_waitD(1) [OF w bs] in \<open>auto simp: lock_impl_def split: option.splits if_splits\<close>)
next
  case (try_lock s p m x)
  have "fresh_class (ld s) p (mx s m)" using try_lock.prems(2) try_lock.hyps(1) by simp
  then show ?case
    by (intro owner_inv [OF try_lock.prems(1)])
      (use try_lock.hyps in \<open>auto simp: try_lock_impl_def split: option.splits if_splits\<close>)
next
  case (post s p m x l)
  show ?case by (rule post_inv [OF post.prems(1) post.hyps])
next
  case (unlock s p m x l)
  show ?case by (rule unlock_enter_inv [OF unlock.prems(1) unlock.hyps])
next
  case (release s p m x)
  show ?case by (rule release_inv [OF release.prems(1) release.hyps])
qed

lemma careful_inv: "careful_step s t \<Longrightarrow> sys_inv s \<Longrightarrow> sys_inv t"
  using step_inv [of s t] by (simp add: careful_step_def)

interpretation ms: invariant_system careful_step sys_inv
  by unfold_locales (rule careful_inv)

text \<open>The start: nobody holds anything, every mutex is tracked.\<close>

definition sys_start :: "sys \<Rightarrow> bool" where
  "sys_start s \<longleftrightarrow> lockdep_inv (ld s) \<and> g_lockdep (ld s) \<and> (\<forall>p. pc s p = Idle)
     \<and> (\<forall>m. lockdep_on (mx s m) \<and> valid_id (ld s) (mid (mx s m)) \<and> m_owner (mx s m) = None
          \<and> m_count (mx s m) = 0 \<and> nlock (mx s m) = 0 \<and> locked_by (mx s m) = None)"

lemma sys_start_inv: "sys_start s \<Longrightarrow> sys_inv s"
  by (auto simp: sys_start_def sys_inv_def sys_base_def sys_held_def sys_wait_def holds_def busy_def wants_def)

subsection \<open>Deadlock freedom\<close>

text \<open>
  The interface between the mutexes and the checker, as far as deadlocks are concerned: in a good
  state the order is acyclic, and a thread that waits has every class it holds ordered before the
  class it waits for.
\<close>

locale ordered_waits =
  fixes good :: "'s \<Rightarrow> bool"
    and order :: "'s \<Rightarrow> ('c \<times> 'c) set"
    and class_of :: "'s \<Rightarrow> 'm \<Rightarrow> 'c"
    and waits :: "'s \<Rightarrow> 't \<Rightarrow> 'm option"
    and has :: "'s \<Rightarrow> 't \<Rightarrow> 'm \<Rightarrow> bool"
  assumes order_acyclic: "good s \<Longrightarrow> acyclic (order s)"
    and waits_ordered: "good s \<Longrightarrow> waits s t = Some n \<Longrightarrow> has s t m \<Longrightarrow> (class_of s m, class_of s n) \<in> order s"
begin

text \<open>\<open>(t, u)\<close>: \<open>t\<close> waits for a mutex that \<open>u\<close> has, and \<open>u\<close> waits itself.\<close>

definition waits_for :: "'s \<Rightarrow> ('t \<times> 't) set" where
  "waits_for s = {(t, u). \<exists>m. waits s t = Some m \<and> has s u m \<and> waits s u \<noteq> None}"

lemma waits_for_order:
  assumes "good s" "(t, u) \<in> (waits_for s)\<^sup>+"
  shows "\<exists>m n. waits s t = Some m \<and> waits s u = Some n \<and> (class_of s m, class_of s n) \<in> (order s)\<^sup>+"
  using assms(2)
proof (induction rule: trancl_induct)
  case (base u)
  then show ?case using waits_ordered [OF assms(1)] by (fastforce simp: waits_for_def)
next
  case (step u v)
  then show ?case
    using waits_ordered [OF assms(1)] by (fastforce simp: waits_for_def intro: trancl_into_trancl)
qed

lemma waits_for_acyclic: "good s \<Longrightarrow> acyclic (waits_for s)"
  using order_acyclic waits_for_order unfolding acyclic_def by (metis option.inject)

end

interpretation md: ordered_waits sys_inv "\<lambda>s. edges (follows (ld s))" cls wants holds
proof
  show "acyclic (edges (follows (ld s)))" if "sys_inv s" for s
    using that inv_graph(1) [of "ld s"] by (simp add: sys_inv_def sys_base_def)
  show "(cls s m, cls s n) \<in> edges (follows (ld s))"
    if "sys_inv s" "wants s t = Some n" "holds s t m" for s t n m
    using that sys_waitD(3) [of s t n m] by (simp add: sys_inv_def)
qed

text \<open>
  A pc that waits for a mutex has no step of its own until the owner releases: the threads of a
  circular wait would wait for ever.
\<close>

text \<open>C4: threads that lock, try and unlock tracked mutexes never wait for each other in a circle: in every state
  that they reach the relation "\<open>p\<close> waits for a mutex that \<open>q\<close> holds, and \<open>q\<close> waits" has no cycle (an order that
  could close one has stopped the program before). This is for runs in which no thread try-locks a mutex of a class
  that it already holds, which neither \<open>try_lock()\<close> nor the checker refuses; without that it is
  false, as a run at the end of this theory shows.\<close>

theorem no_circular_wait:
  assumes "sys_start s" "careful_step\<^sup>*\<^sup>* s t"
  shows "acyclic {(p, q). \<exists>m. wants t p = Some m \<and> holds t q m \<and> wants t q \<noteq> None}"
  using md.waits_for_acyclic [OF ms.steps_inv [OF assms(2) sys_start_inv [OF assms(1)]]]
  by (simp add: md.waits_for_def)

definition free_mutex :: "string \<Rightarrow> int \<Rightarrow> mutex_debug" where
  "free_mutex g i = \<lparr>group = g, mid = i, lockdep_on = True, backtrace = False, nlock = 0, locked_by = None,
     m_owner = None, m_count = 0\<rparr>"

text \<open>A system over the sample state of the checker, with nobody holding anything.\<close>

definition sample_sys :: sys where
  "sample_sys = \<lparr>ld = lockdep_sample\<lparr>held := (\<lambda>_. [])\<rparr>,
     mx = (\<lambda>m. if m = 0 then free_mutex ''a'' 0 else if m = 1 then free_mutex ''b'' 1 else free_mutex ''x'' (-1)),
     pc = (\<lambda>_. Idle)\<rparr>"

lemma sample_sys_start: "sys_start sample_sys"
proof -
  have "ids_inv (lockdep_sample\<lparr>held := (\<lambda>_. [])\<rparr>) = ids_inv lockdep_sample"
    "graph_inv (lockdep_sample\<lparr>held := (\<lambda>_. [])\<rparr>) = graph_inv lockdep_sample"
    "held_inv (lockdep_sample\<lparr>held := (\<lambda>_. [])\<rparr>)"
    by (simp_all add: ids_inv_def graph_inv_def held_inv_def)
  then have "lockdep_inv (lockdep_sample\<lparr>held := (\<lambda>_. [])\<rparr>)"
    using lockdep_sample_inv by (simp add: lockdep_inv_def)
  then show ?thesis
    by (auto simp: sys_start_def sample_sys_def free_mutex_def valid_id_def lockdep_sample_def)
qed

lemma sys_same: "s\<lparr>ld := ld s, mx := mx s, pc := f\<rparr> = s\<lparr>pc := f\<rparr>"
  by (cases s) simp

lemma no_circular_wait_witness:
  "\<exists>t. careful_step\<^sup>*\<^sup>* sample_sys t \<and> pc t 1 = Acquired 1
     \<and> acyclic {(p, q). \<exists>m. wants t p = Some m \<and> holds t q m \<and> wants t q \<noteq> None}"
proof -
  let ?x = "(mx sample_sys 1)\<lparr>m_owner := Some 1, m_count := 1\<rparr>"
  let ?t = "sample_sys\<lparr>mx := (mx sample_sys)(1 := ?x), pc := (pc sample_sys)(1 := Acquired 1)\<rparr>"
  have "step sample_sys ?t"
    by (rule step.try_lock) (simp_all add: sample_sys_def try_lock_impl_def free_mutex_def)
  then have c: "careful_step sample_sys ?t"
    by (auto simp: careful_step_def fresh_class_def sample_sys_def split: if_splits)
  then show ?thesis
    using no_circular_wait [OF sample_sys_start r_into_rtranclp [of careful_step, OF c]]
    by (intro exI [of _ ?t] conjI r_into_rtranclp) simp_all
qed

text \<open>C20: in every state that threads reach which never try-lock a mutex of a class they hold, the debug fields of
  every mutex are exact (\<open>is_locked_by_me\<close> holds for the one thread that holds it), no assertion of
  \<open>_post_lock\<close>, \<open>_pre_unlock\<close> or \<open>unlock_impl\<close> fails (after a successful pthread call the checker can only stop the
  program for lack of an id for a mutex that was not registered), the wait of \<open>lock_impl\<close> never ends in
  \<open>EDEADLK\<close>, and whoever holds a mutex can give it back. A thread that does try-lock such a mutex can end in
  \<open>EDEADLK\<close>, as the run at the end of this theory shows.\<close>

theorem debug_fields_exact:
  assumes "sys_start s" "careful_step\<^sup>*\<^sup>* s t"
  shows "(base_is_locked_by_me p (mx t m) \<longleftrightarrow> holds t p m)
    \<and> (pc t p = Acquired m \<longrightarrow> (case after_acquire False False p (mx t m) (ld t) of
         Inl e \<Rightarrow> e = Abort \<and> mid (mx t m) < 0 | Inr _ \<Rightarrow> True))
    \<and> (pc t p = BlockOn m \<longrightarrow> lock_impl False p (mx t m) \<noteq> Fault (Throw EDEADLK))
    \<and> (pc t p = Unlocking m \<longrightarrow> (\<exists>x. unlock_impl p (mx t m) = Ok x))
    \<and> (holds t p m \<longrightarrow> (\<exists>r. unlock False False p (mx t m) (ld t) = Ok r))"
proof -
  have inv: "sys_inv t" by (rule ms.steps_inv [OF assms(2) sys_start_inv [OF assms(1)]])
  then have b: "sys_base t" and h: "sys_held t" and w: "sys_wait t" by (simp_all add: sys_inv_def)
  note H = sys_heldD [OF h]
  have "base_is_locked_by_me p (mx t m) \<longleftrightarrow> holds t p m"
    using H(6,7) [of m] by (auto simp: base_is_locked_by_me_def)
  moreover have "case after_acquire False False p (mx t m) (ld t) of Inl e \<Rightarrow> e = Abort \<and> mid (mx t m) < 0 | Inr _ \<Rightarrow> True"
    if "pc t p = Acquired m"
  proof -
    have "locked_by (mx t m) \<noteq> Some q" for q
      using H(4) [OF that] H(6) [of m q] that by (auto simp: holds_def)
    then have n: "nlock (mx t m) = 0" using H(7) [of m] by simp
    show ?thesis
    proof (cases "after_acquire False False p (mx t m) (ld t)")
      case (Inl e)
      then have "mid (mx t m) < 0 \<and> lockdep_register_inner (group (mx t m)) (ld t) = Fault e"
        using n sys_baseD(2,3) [OF b]
        by (cases "lockdep_register_inner (group (mx t m)) (ld t)")
          (auto simp: after_acquire_def base_locked_def lockdep_locked_def post_lock_def impl_lockdep_enabled_def
            base_lockdep_enabled_def split: if_splits)
      then show ?thesis using Inl register_Fault by auto
    qed simp
  qed
  moreover have "lock_impl False p (mx t m) \<noteq> Fault (Throw EDEADLK)" if "pc t p = BlockOn m"
  proof -
    have "wants t p = Some m" "busy t p = Some m" using that by (simp_all add: busy_def wants_def)
    then have "cls t m \<notin> omap_keys (held (ld t) p)" using sys_waitD(1,2) [OF w, of p m] fresh_cls by blast
    then have "\<not> holds t p m" using H(2) [of p m] by blast
    then show ?thesis using that by (auto simp: holds_def lock_impl_def split: option.splits)
  qed
  moreover have "\<exists>x. unlock_impl p (mx t m) = Ok x" if "pc t p = Unlocking m"
    using H(5) [OF that] by (simp add: unlock_impl_def)
  moreover have "\<exists>r. unlock False False p (mx t m) (ld t) = Ok r" if hm: "holds t p m"
  proof -
    have "locked_by (mx t m) = Some p" "nlock (mx t m) = 1" "0 \<le> mid (mx t m)" "m_owner (mx t m) = Some p"
      using hm H(1) [OF hm] H(6,7) [of m] by (simp_all add: holds_def)
    then show ?thesis
      by (simp add: unlock_def unlock_enter_def pre_unlock_def base_will_unlock_def lockdep_will_unlock_def
          unlock_impl_def)
  qed
  ultimately show ?thesis by blast
qed

lemma debug_fields_exact_witness:
  "base_is_locked_by_me 1 (mx sample_sys 0) \<longleftrightarrow> holds sample_sys 1 0"
  using debug_fields_exact [OF sample_sys_start rtranclp.rtrancl_refl, of 1 0] by blast

subsection \<open>Where the debug mutexes and the checker disagree\<close>

lemmas md_simps = impl_lockdep_enabled_def base_lockdep_enabled_def base_will_lock_def base_locked_def
  base_will_unlock_def lockdep_will_lock_def lockdep_locked_def lockdep_will_unlock_def

text \<open>C39: the constructor registers what the moved-from parameter holds. When that does not depend
  on the group (libstdc++ leaves the empty string), any two mutexes constructed while the checker
  is on share one class, whatever their groups, and locking one while holding the other aborts as
  a recursive lock.\<close>

theorem constructors_share_a_class:
  assumes inv: "lockdep_inv l" "g_lockdep l" and moved: "moved g1 = moved g2"
    and x: "impl_init moved g1 True bt l = Ok (x, l1)" and y: "impl_init moved g2 True bt l1 = Ok (y, l2)"
    and lk: "lock False False p x l2 = Ok (x', l3)"
  shows "group x = g1 \<and> group y = g2 \<and> mid x = mid y \<and> lock False False p y l3 = Fault Abort"
proof -
  obtain i j where i: "lockdep_register_inner (moved g1) l = Ok (i, l1)" "mid x = i" "group x = g1" "lockdep_on x"
    and j: "lockdep_register_inner (moved g1) l1 = Ok (j, l2)" "mid y = j" "group y = g2" "lockdep_on y" "backtrace y = bt"
      "m_owner x = None"
    using x y moved inv(2) register_Ok(3) [OF inv, of "moved g1"]
    by (fastforce simp: impl_init_def mutex_debugging_base_init_def base_lockdep_enabled_def lockdep_register_def
        mutex_debugging_base.extend_def)
  note R = register_Ok [OF inv i(1)]
  note S = register_Ok [OF R(1,3) j(1)]
  have ij: "j = i" using R(2,7) S(2,8) by simp
  have dom: "nat i \<in> dom (lock_names l2)" using S(6) ij by simp
  have v: "valid_id l2 (mid x)" using dom R(2) by (simp add: valid_id_def i(2))
  obtain x1 k where e: "lock_enter False False p x l2 = Ok (x1, k)"
      and rest: "\<exists>b m k'. try_lock False False p x1 k = Ok (b, m, k') \<and> (if b then m = x' \<and> k' = l3 else
         \<exists>z. lock_impl False p m = Ok z \<and> after_acquire False False p z k' = Ok (x', l3))"
    using lk by (fastforce simp: lock_def split: if_splits)
  note E = lock_enter_Ok [OF S(1,3) i(4) v e]
  have x1: "m_owner x1 = None" "mid x1 = i" "lockdep_on x1"
    using E(3) i(2,4) R(2) j(6) by (subst E(1), simp)+
  have "after_acquire False False p (x1\<lparr>m_owner := Some p, m_count := 1\<rparr>) k = Ok (x', l3)"
    using rest x1(1) by (auto simp: try_lock_def try_lock_impl_def split: if_splits)
  from after_acquire_Ok(3,4) [OF E(4,5) _ _ _ this] have l3: "lockdep_inv l3" "nat i \<in> omap_keys (held l3 p)" "g_lockdep l3"
    "lock_names l3 = lock_names k"
    using x1 R(2) E(5,9) E(3) i(2) by simp_all
  have "nat i \<in> dom (lock_names l3)" using l3(4) E(3,9) i(2) R(2) by simp
  then have "lockdep_will_lock p g2 i bt False l3 = Fault Abort"
    using will_lock_known [OF l3(1), of i False p g2 bt] R(2) l3(2) by (simp add: order_violation_def)
  then have "lock False False p y l3 = Fault Abort"
    using l3(3) j(2-5) ij
    by (simp add: lock_def lock_enter_def impl_lockdep_enabled_def base_lockdep_enabled_def base_will_lock_def)
  then show ?thesis using i(2,3) j(2,3) ij by simp
qed

lemma constructors_share_a_class_witness:
  "\<exists>x y l1 l2 x' l3. impl_init (\<lambda>_. []) ''g'' True False lockdep_sample = Ok (x, l1)
     \<and> impl_init (\<lambda>_. []) ''h'' True False l1 = Ok (y, l2) \<and> lock False False 2 x l2 = Ok (x', l3)
     \<and> mid x = mid y \<and> lock False False 2 y l3 = Fault Abort"
proof -
  obtain x y l1 l2 x' l3 where "impl_init (\<lambda>_. []) ''g'' True False lockdep_sample = Ok (x, l1)"
      "impl_init (\<lambda>_. []) ''h'' True False l1 = Ok (y, l2)" "lock False False 2 x l2 = Ok (x', l3)"
    by (fastforce simp: impl_init_def mutex_debugging_base_init_def mutex_debugging_base.extend_def lockdep_register_def
        lockdep_register_inner_def lockdep_get_free_id_def scan_free.simps MAX_LOCKS_def grow_for_def vec_resize_def
        incr_ref_def lockdep_sample_def lock_def lock_enter_def md_simps try_lock_def try_lock_impl_def
        after_acquire_def post_lock_def Let_def)
  moreover have "g_lockdep lockdep_sample" by (simp add: lockdep_sample_def)
  ultimately show ?thesis
    using constructors_share_a_class [OF lockdep_sample_inv, where moved = "\<lambda>_. []"] by blast
qed

text \<open>\<open>try_lock_shared\<close> never answers false. While another thread holds the lock exclusively it
  waits, and it has by then told the checker that the caller released the class.\<close>

theorem try_lock_shared_waits:
  assumes "w_owner x = Some q" "q \<noteq> p" "0 \<le> mid x"
  shows "shared_try_lock_shared p x l = Fault NoReturn
    \<and> (lockdep_on x \<longrightarrow> g_lockdep l \<longrightarrow>
        (\<exists>y k. base_will_unlock p x l = Ok (y, k) \<and> nat (mid x) \<notin> omap_keys (held k p)))"
  using assms by (auto simp: shared_try_lock_shared_def rw_rdlock_def md_simps)

definition sample_shared :: shared_mutex_debug where
  "sample_shared = \<lparr>group = ''a'', mid = 0, lockdep_on = True, backtrace = False, nlock = 1, locked_by = Some 2,
     track = True, nrlock = 0, w_owner = Some 2, r_count = 0\<rparr>"

lemma try_lock_shared_waits_witness:
  "shared_try_lock_shared 1 sample_shared lockdep_sample = Fault NoReturn"
  using try_lock_shared_waits [of sample_shared 2 1 lockdep_sample] by (simp add: sample_shared_def)

text \<open>The table of held locks is keyed by class. A thread that try-locks two mutexes of one class
  and unlocks one of them is, for the checker, without the class although it still owns the other.\<close>

theorem try_lock_same_class_forgets:
  assumes "lockdep_inv l" "g_lockdep l" "0 \<le> mid x" "mid y = mid x" "lockdep_on x" "lockdep_on y"
    and "m_owner x = None" "m_owner y = None" "nlock x = 0" "nlock y = 0"
  shows "\<exists>x1 l1 y1 l2 y2 l3. try_lock False False p x l = Ok (True, x1, l1)
    \<and> try_lock False False p y l1 = Ok (True, y1, l2) \<and> unlock False False p y1 l2 = Ok (y2, l3)
    \<and> base_is_locked_by_me p x1 \<and> nat (mid x1) \<notin> omap_keys (held l3 p)"
  using assms
  by (simp add: try_lock_def try_lock_impl_def after_acquire_def md_simps post_lock_def unlock_def unlock_enter_def
      pre_unlock_def unlock_impl_def base_is_locked_by_me_def)

lemma try_lock_same_class_forgets_witness:
  "\<exists>x1 l1 y1 l2 y2 l3. try_lock False False 1 (free_mutex ''a'' 0) lockdep_sample = Ok (True, x1, l1)
    \<and> try_lock False False 1 (free_mutex ''a'' 0) l1 = Ok (True, y1, l2) \<and> unlock False False 1 y1 l2 = Ok (y2, l3)
    \<and> base_is_locked_by_me 1 x1 \<and> nat (mid x1) \<notin> omap_keys (held l3 1)"
  by (rule try_lock_same_class_forgets [OF lockdep_sample_inv]) (simp_all add: free_mutex_def lockdep_sample_def)

text \<open>The steps as a function, to run them: each of the program points, by name.\<close>

datatype move = Enter | Try | Wake | Try_lock | Post | Unlock | Release

fun run_move :: "move \<Rightarrow> thread \<Rightarrow> nat \<Rightarrow> sys \<Rightarrow> sys option" where
  "run_move Enter p m s = (if pc s p = Idle then
     (case lock_enter False False p (mx s m) (ld s) of
        Inl e \<Rightarrow> None | Inr (x, l) \<Rightarrow> Some (s\<lparr>ld := l, mx := (mx s)(m := x), pc := (pc s)(p := TryLock m)\<rparr>)) else None)"
| "run_move Try p m s = (if pc s p = TryLock m then
     (case try_lock_impl False p (mx s m) of
        Inl e \<Rightarrow> None
      | Inr (b, x) \<Rightarrow> Some (if b then s\<lparr>mx := (mx s)(m := x), pc := (pc s)(p := Acquired m)\<rparr>
                           else s\<lparr>pc := (pc s)(p := BlockOn m)\<rparr>)) else None)"
| "run_move Wake p m s = (if pc s p = BlockOn m then
     (case lock_impl False p (mx s m) of
        Inl e \<Rightarrow> None | Inr x \<Rightarrow> Some (s\<lparr>mx := (mx s)(m := x), pc := (pc s)(p := Acquired m)\<rparr>)) else None)"
| "run_move Try_lock p m s = (if pc s p = Idle then
     (case try_lock_impl False p (mx s m) of
        Inl e \<Rightarrow> None
      | Inr (b, x) \<Rightarrow> if b then Some (s\<lparr>mx := (mx s)(m := x), pc := (pc s)(p := Acquired m)\<rparr>) else Some s) else None)"
| "run_move Post p m s = (if pc s p = Acquired m then
     (case after_acquire False False p (mx s m) (ld s) of
        Inl e \<Rightarrow> None | Inr (x, l) \<Rightarrow> Some (s\<lparr>ld := l, mx := (mx s)(m := x), pc := (pc s)(p := Idle)\<rparr>)) else None)"
| "run_move Unlock p m s = (if pc s p = Idle then
     (case unlock_enter False False p (mx s m) (ld s) of
        Inl e \<Rightarrow> None | Inr (x, l) \<Rightarrow> Some (s\<lparr>ld := l, mx := (mx s)(m := x), pc := (pc s)(p := Unlocking m)\<rparr>)) else None)"
| "run_move Release p m s = (if pc s p = Unlocking m then
     (case unlock_impl p (mx s m) of
        Inl e \<Rightarrow> None | Inr x \<Rightarrow> Some (s\<lparr>mx := (mx s)(m := x), pc := (pc s)(p := Idle)\<rparr>)) else None)"

fun run_moves :: "(move \<times> thread \<times> nat) list \<Rightarrow> sys \<Rightarrow> sys option" where
  "run_moves [] s = Some s"
| "run_moves ((a, p, m) # as) s = (case run_move a p m s of None \<Rightarrow> None | Some s \<Rightarrow> run_moves as s)"

lemma run_move_step: "run_move a p m s = Some t \<Longrightarrow> step\<^sup>*\<^sup>* s t"
  by (cases a) (auto intro: step.intros split: sum.splits prod.splits if_splits)

lemma run_moves_steps: "run_moves as s = Some t \<Longrightarrow> step\<^sup>*\<^sup>* s t"
proof (induction as s rule: run_moves.induct)
  case (2 a p m as s)
  then show ?case by (auto split: option.splits dest: run_move_step intro: rtranclp_trans)
qed simp

text \<open>Two mutexes of class \<open>b\<close>.\<close>

definition twin_sys :: sys where
  "twin_sys = sample_sys\<lparr>mx := (mx sample_sys)(2 := free_mutex ''b'' 1)\<rparr>"

text \<open>Thread 1 try-locks both and gives one back, and is for the checker without the class.\<close>

definition careless :: "(move \<times> thread \<times> nat) list" where
  "careless = [(Try_lock, 1, 1), (Post, 1, 1), (Try_lock, 1, 2), (Post, 1, 2), (Unlock, 1, 2), (Release, 1, 2)]"

lemmas run_simps = careless_def twin_sys_def sample_sys_def lockdep_sample_def free_mutex_def lock_enter_def md_simps
  unlock_enter_def pre_unlock_def unlock_impl_def after_acquire_def post_lock_def try_lock_impl_def omap_del_def

text \<open>C21: the care of \<open>careful_step\<close> is needed for freedom from circular waits and from \<open>EDEADLK\<close>: with two mutexes of one class there is a run of
  the debug mutexes, with the checker on, in which a thread that try-locked both and gave one back waits for a mutex of
  a thread that waits for it, and the checker has seen no wrong order; and one in which it waits for the mutex it still
  owns, where \<open>pthread_mutex_lock\<close> answers \<open>EDEADLK\<close> and \<open>lock()\<close> throws.\<close>

theorem careless_try_lock_deadlocks:
  "sys_start twin_sys
   \<and> (\<exists>t. step\<^sup>*\<^sup>* twin_sys t \<and> pc t 1 = BlockOn 0 \<and> holds t 2 0 \<and> pc t 2 = BlockOn 1 \<and> holds t 1 1)
   \<and> (\<exists>t. step\<^sup>*\<^sup>* twin_sys t \<and> pc t 1 = BlockOn 1 \<and> holds t 1 1 \<and> lock_impl False 1 (mx t 1) = Fault (Throw EDEADLK))"
proof -
  have "valid_id (ld sample_sys) 1" by (simp add: valid_id_def sample_sys_def lockdep_sample_def)
  then have "sys_start twin_sys" using sample_sys_start by (auto simp: sys_start_def twin_sys_def free_mutex_def)
  moreover have d: "does_follow 3 [{}, {}, {}] 2 (Suc 0) 0 = Ok False" by (simp add: numeral_3_eq_3 upt_rec)
  moreover have "case run_moves (careless @ [(Enter, 2, 0), (Try, 2, 0), (Post, 2, 0), (Enter, 1, 0), (Try, 1, 0), (Enter, 2, 1), (Try, 2, 1)])
      twin_sys of None \<Rightarrow> False | Some t \<Rightarrow> pc t 1 = BlockOn 0 \<and> holds t 2 0 \<and> pc t 2 = BlockOn 1 \<and> holds t 1 1"
    by (simp add: run_simps holds_def d)
  moreover have "case run_moves (careless @ [(Enter, 1, 1), (Try, 1, 1)]) twin_sys of None \<Rightarrow> False
      | Some t \<Rightarrow> pc t 1 = BlockOn 1 \<and> holds t 1 1 \<and> lock_impl False 1 (mx t 1) = Fault (Throw EDEADLK)"
    by (simp add: run_simps holds_def lock_impl_def)
  ultimately show ?thesis by (auto split: option.splits dest!: run_moves_steps)
qed

text \<open>\<open>lock()\<close> of a free tracked mutex of a class the thread may take, followed by
  \<open>unlock()\<close>, gives back the mutex and the thread's table of held classes.\<close>

theorem lock_unlock_roundtrip:
  assumes inv: "lockdep_inv l" "g_lockdep l" and x: "lockdep_on x" "0 \<le> mid x" "m_owner x = None" "m_count x = 0" "nlock x = 0"
      "locked_by x = None" and c: "nat (mid x) \<in> dom (lock_names l)"
    and lk: "lock False False p x l = Ok (y, k)"
  shows "base_is_locked_by_me p y \<and> nat (mid x) \<in> omap_keys (held k p)
    \<and> (\<exists>k'. unlock False False p y k = Ok (x, k') \<and> omap_keys (held k' p) = omap_keys (held l p)
        \<and> edges (follows l) \<subseteq> edges (follows k'))"
proof -
  have v: "valid_id l (mid x)" using x(2) c by (simp add: valid_id_def)
  obtain x1 k1 where e: "lock_enter False False p x l = Ok (x1, k1)"
    using lk by (fastforce simp: lock_def)
  note E = lock_enter_Ok [OF inv x(1) v e]
  have x1: "x1 = x" using E(1,3) x(2) by simp
  have "after_acquire False False p (x\<lparr>m_owner := Some p, m_count := 1\<rparr>) k1 = Ok (y, k)"
    using lk e x(3) x1 by (auto simp: lock_def try_lock_def try_lock_impl_def split: if_splits)
  then have y: "y = x\<lparr>m_owner := Some p, m_count := 1, locked_by := Some p, nlock := 1\<rparr>"
    "k = k1\<lparr>held := (held k1)(p := omap_put (nat (mid x)) (if backtrace x then ClibBackTrace else NullBT) (held k1 p))\<rparr>"
    using after_acquire_Ok(1,4) [OF E(4,5), of "x\<lparr>m_owner := Some p, m_count := 1\<rparr>" p y k] x E(9) x1 by simp_all
  have bk: "x\<lparr>locked_by := None, nlock := 0, m_owner := None, m_count := 0\<rparr> = x"
    using x(3-6) by (cases x) simp
  have "nat (mid x) \<notin> omap_keys (held l p)" using E(10) x1 by simp
  then show ?thesis
    using x(1,2,5) E(5,6,7) bk
    by (simp add: y unlock_def unlock_enter_def pre_unlock_def md_simps unlock_impl_def base_is_locked_by_me_def)
qed

lemma lock_unlock_roundtrip_witness:
  "\<exists>y k k'. lock False False 1 (free_mutex ''b'' 1) lockdep_sample = Ok (y, k)
     \<and> unlock False False 1 y k = Ok (free_mutex ''b'' 1, k')"
proof -
  obtain y k where lk: "lock False False 1 (free_mutex ''b'' 1) lockdep_sample = Ok (y, k)"
    by (fastforce simp: lock_def lock_enter_def md_simps free_mutex_def lockdep_sample_def upt_rec numeral_3_eq_3
        try_lock_def try_lock_impl_def after_acquire_def post_lock_def)
  show ?thesis
    using lock_unlock_roundtrip [OF lockdep_sample_inv _ _ _ _ _ _ _ _ lk] lk
    by (fastforce simp: free_mutex_def lockdep_sample_def)
qed

end
