(* ===== verification/Shared_Mutex.thy ===== *)
theory Shared_Mutex
  imports Mutex_Debug
begin

section \<open>shared\_mutex\_debug\_impl with many threads\<close>

text \<open>
  Readers and writers of one tracked \<open>shared_mutex_debug_impl\<close>, interleaved at the calls of the
  \<open>pthread_rwlock_t\<close> and the debug functions between them; the checker is off, so the calls of
  \<open>lockdep\<close> do nothing (\<open>shared_calls\<close>). \<open>try_lock_shared\<close>, which waits, is \<open>lock_shared\<close> here.
\<close>

subsection \<open>The steps\<close>

text \<open>A thread wants a lock, has got it from pthread, is inside, or has left and not yet given it back.\<close>

datatype spc = S_idle | S_want_w | S_got_w | S_writing | S_drop_w | S_want_r | S_got_r | S_reading | S_drop_r

record shared_sys =
  sx :: shared_mutex_debug
  spc :: "thread \<Rightarrow> spc"

definition sgo :: "thread \<Rightarrow> spc \<Rightarrow> shared_mutex_debug \<Rightarrow> shared_sys \<Rightarrow> shared_sys" where
  "sgo p c x s = s\<lparr>sx := x, spc := (spc s)(p := c)\<rparr>"

text \<open>\<open>pthread_rwlock_rdlock\<close> answers \<open>EAGAIN\<close> at its maximum of readers; the guard keeps below it.\<close>

inductive shared_step :: "shared_sys \<Rightarrow> shared_sys \<Rightarrow> bool" where
  want_w: "spc s p = S_idle \<Longrightarrow> shared_step s (sgo p S_want_w (sx s) s)"
| wrlock: "spc s p = S_want_w \<Longrightarrow> rw_wrlock p (sx s) = Ok x \<Longrightarrow> shared_step s (sgo p S_got_w x s)"
| trywrlock: "spc s p = S_idle \<Longrightarrow> rw_wrlock p (sx s) = Ok x \<Longrightarrow> shared_step s (sgo p S_got_w x s)"
| post_w: "spc s p = S_got_w \<Longrightarrow> shared_post_lock p (sx s) = Ok x \<Longrightarrow> shared_step s (sgo p S_writing x s)"
| pre_w: "spc s p = S_writing \<Longrightarrow> shared_pre_unlock p (sx s) = Ok x \<Longrightarrow> shared_step s (sgo p S_drop_w x s)"
| unlock_w: "spc s p = S_drop_w \<Longrightarrow> shared_step s (sgo p S_idle (rw_unlock (sx s)) s)"
| want_r: "spc s p = S_idle \<Longrightarrow> shared_step s (sgo p S_want_r (sx s) s)"
| rdlock: "spc s p = S_want_r \<Longrightarrow> rw_rdlock p (sx s) = Ok x \<Longrightarrow> r_count x < 2 ^ 32 \<Longrightarrow> shared_step s (sgo p S_got_r x s)"
| post_r: "spc s p = S_got_r \<Longrightarrow> shared_step s (sgo p S_reading (shared_post_lock_shared (sx s)) s)"
| pre_r: "spc s p = S_reading \<Longrightarrow> shared_pre_unlock_shared (sx s) = Ok x \<Longrightarrow> shared_step s (sgo p S_drop_r x s)"
| unlock_r: "spc s p = S_drop_r \<Longrightarrow> shared_step s (sgo p S_idle (rw_unlock (sx s)) s)"

text \<open>With the checker off the public functions are these sequences.\<close>

lemma shared_calls:
  assumes "\<not> g_lockdep l"
  shows "shared_lock p x l = rbind (rw_wrlock p x) (\<lambda>x. rbind (shared_post_lock p x) (\<lambda>x. Ok (x, l)))"
    "shared_unlock p x l = rbind (shared_pre_unlock p x) (\<lambda>x. Ok (rw_unlock x, l))"
    "shared_lock_shared p x l = rbind (rw_rdlock p x) (\<lambda>x. Ok (shared_post_lock_shared x, l))"
    "shared_unlock_shared p x l = rbind (shared_pre_unlock_shared x) (\<lambda>x. Ok (rw_unlock x, l))"
  using assms
  by (auto simp: shared_lock_def shared_unlock_def shared_lock_shared_def shared_unlock_shared_def shared_locked_def
      base_lockdep_enabled_def rbind_def split: sum.splits)

subsection \<open>The invariant\<close>

definition at_pc :: "spc set \<Rightarrow> shared_sys \<Rightarrow> thread set" where
  "at_pc C s = {p. spc s p \<in> C}"

definition shared_inv :: "shared_sys \<Rightarrow> bool" where
  "shared_inv s \<longleftrightarrow> track (sx s)
     \<and> at_pc {S_got_w, S_writing, S_drop_w} s = set_option (w_owner (sx s))
     \<and> finite (at_pc {S_got_r, S_reading, S_drop_r} s)
     \<and> card (at_pc {S_got_r, S_reading, S_drop_r} s) = r_count (sx s) \<and> r_count (sx s) < 2 ^ 32
     \<and> (w_owner (sx s) \<noteq> None \<longrightarrow> r_count (sx s) = 0)
     \<and> nrlock (sx s) = of_nat (card (at_pc {S_reading} s))
     \<and> (case w_owner (sx s) of
          Some p \<Rightarrow> (if spc s p = S_writing then nlock (sx s) = 1 \<and> locked_by (sx s) = Some p
                     else nlock (sx s) = 0 \<and> locked_by (sx s) = None)
        | None \<Rightarrow> nlock (sx s) = 0 \<and> locked_by (sx s) = None)"

lemma at_pc_go:
  "at_pc C (sgo p c x s) = (if c \<in> C then insert p (at_pc C s) else at_pc C s - {p})"
  by (auto simp: at_pc_def sgo_def)

lemma at_pc_iff [simp]: "p \<in> at_pc C s \<longleftrightarrow> spc s p \<in> C"
  by (simp add: at_pc_def)

lemma sgo_simps [simp]: "sx (sgo p c x s) = x" "spc (sgo p c x s) q = (if q = p then c else spc s q)"
  by (simp_all add: sgo_def)


abbreviation writers :: "shared_sys \<Rightarrow> thread set" where
  "writers \<equiv> at_pc {S_got_w, S_writing, S_drop_w}"

abbreviation readers :: "shared_sys \<Rightarrow> thread set" where
  "readers \<equiv> at_pc {S_got_r, S_reading, S_drop_r}"

lemma shared_invD:
  assumes "shared_inv s"
  shows "track (sx s)" "writers s = set_option (w_owner (sx s))" "finite (readers s)" "card (readers s) = r_count (sx s)"
    "r_count (sx s) < 2 ^ 32" "w_owner (sx s) \<noteq> None \<Longrightarrow> r_count (sx s) = 0" "nrlock (sx s) = of_nat (card (at_pc {S_reading} s))"
    "w_owner (sx s) = None \<Longrightarrow> nlock (sx s) = 0 \<and> locked_by (sx s) = None"
    "w_owner (sx s) = Some p \<Longrightarrow> spc s p = S_writing \<Longrightarrow> nlock (sx s) = 1 \<and> locked_by (sx s) = Some p"
    "w_owner (sx s) = Some p \<Longrightarrow> spc s p \<noteq> S_writing \<Longrightarrow> nlock (sx s) = 0 \<and> locked_by (sx s) = None"
    "finite (at_pc {S_reading} s)" "card (at_pc {S_reading} s) < 2 ^ 32"
proof -
  have sub: "at_pc {S_reading} s \<subseteq> readers s" by (auto simp: at_pc_def)
  have f: "finite (readers s)" "card (readers s) < 2 ^ 32" using assms by (simp_all add: shared_inv_def)
  then show "finite (at_pc {S_reading} s)" using sub finite_subset by blast
  show "card (at_pc {S_reading} s) < 2 ^ 32" using card_mono [OF f(1) sub] f(2) by linarith
qed (use assms in \<open>auto simp: shared_inv_def\<close>)

lemma writer_is: "shared_inv s \<Longrightarrow> spc s p \<in> {S_got_w, S_writing, S_drop_w} \<Longrightarrow> w_owner (sx s) = Some p"
  using shared_invD(2) [of s] by (metis at_pc_iff elem_set)

lemma reader_is: "shared_inv s \<Longrightarrow> spc s p \<in> {S_got_r, S_reading, S_drop_r} \<Longrightarrow> w_owner (sx s) = None \<and> 0 < r_count (sx s)"
proof -
  assume i: "shared_inv s" "spc s p \<in> {S_got_r, S_reading, S_drop_r}"
  then have "p \<in> readers s" by simp
  then have "0 < r_count (sx s)" using shared_invD(3,4) [OF i(1)] by (metis card_gt_0_iff empty_iff)
  then show ?thesis using shared_invD(6) [OF i(1)] by (cases "w_owner (sx s)") auto
qed

text \<open>A step that leaves the debug fields and the readers alone.\<close>

lemma sgo_writer_same:
  assumes "shared_inv s" "spc s p \<in> {S_idle, S_want_w, S_want_r}" "c \<in> {S_idle, S_want_w, S_want_r}"
  shows "shared_inv (sgo p c (sx s) s)"
proof -
  have w: "w_owner (sx s) \<noteq> Some p"
    using assms(2) shared_invD(2) [OF assms(1)] by (metis (no_types, lifting) at_pc_iff elem_set empty_iff insert_iff spc.distinct)
  have "at_pc C (sgo p c (sx s) s) = at_pc C s" if "C \<inter> {S_idle, S_want_w, S_want_r} = {}" for C
    using assms(2,3) that by (auto simp: at_pc_def)
  then show ?thesis using assms(1) w by (auto simp: shared_inv_def split: option.splits)
qed


lemma not_writer: "shared_inv s \<Longrightarrow> spc s p \<notin> {S_got_w, S_writing, S_drop_w} \<Longrightarrow> w_owner (sx s) \<noteq> Some p"
  using shared_invD(2) [of s] by (metis at_pc_iff elem_set)

lemma shared_step_inv: "shared_step s t \<Longrightarrow> shared_inv s \<Longrightarrow> shared_inv t"
proof (induction rule: shared_step.induct)
  case (want_w s p)
  then show ?case by (simp add: sgo_writer_same)
next
  case (want_r s p)
  then show ?case by (simp add: sgo_writer_same)
next
  case (wrlock s p x)
  note D = shared_invD [OF wrlock(3)]
  have x: "w_owner (sx s) = None" "r_count (sx s) = 0" "x = (sx s)\<lparr>w_owner := Some p\<rparr>"
    using wrlock(2) by (auto simp: rw_wrlock_def split: if_splits)
  show ?case using wrlock(1) D x by (auto simp: shared_inv_def at_pc_go)
next
  case (trywrlock s p x)
  note D = shared_invD [OF trywrlock(3)]
  have x: "w_owner (sx s) = None" "r_count (sx s) = 0" "x = (sx s)\<lparr>w_owner := Some p\<rparr>"
    using trywrlock(2) by (auto simp: rw_wrlock_def split: if_splits)
  show ?case using trywrlock(1) D x by (auto simp: shared_inv_def at_pc_go)
next
  case (post_w s p x)
  note D = shared_invD [OF post_w(3)]
  have w: "w_owner (sx s) = Some p" by (rule writer_is [OF post_w(3)]) (simp add: post_w(1))
  have x: "x = (sx s)\<lparr>locked_by := Some p, nlock := 1\<rparr>"
    using post_w(2) D(1) by (auto simp: shared_post_lock_def)
  show ?case using post_w(1) D w x by (auto simp: shared_inv_def at_pc_go)
next
  case (pre_w s p x)
  note D = shared_invD [OF pre_w(3)]
  have w: "w_owner (sx s) = Some p" by (rule writer_is [OF pre_w(3)]) (simp add: pre_w(1))
  have x: "x = (sx s)\<lparr>locked_by := None, nlock := 0\<rparr>"
    using pre_w(2) D(1) by (auto simp: shared_pre_unlock_def)
  show ?case using pre_w(1) D w x by (auto simp: shared_inv_def at_pc_go)
next
  case (unlock_w s p)
  note D = shared_invD [OF unlock_w(2)]
  have w: "w_owner (sx s) = Some p" by (rule writer_is [OF unlock_w(2)]) (simp add: unlock_w(1))
  show ?case using unlock_w(1) D w by (auto simp: shared_inv_def at_pc_go rw_unlock_def)
next
  case (rdlock s p x)
  note D = shared_invD [OF rdlock(4)]
  have x: "w_owner (sx s) = None" "x = (sx s)\<lparr>r_count := r_count (sx s) + 1\<rparr>"
    using rdlock(2) by (auto simp: rw_rdlock_def split: if_splits)
  have "card (insert p (readers s)) = Suc (r_count (sx s))" using D(3,4) rdlock(1) by simp
  then show ?case using rdlock(1,3) D x by (auto simp: shared_inv_def at_pc_go)
next
  case (post_r s p)
  note D = shared_invD [OF post_r(2)]
  have w: "w_owner (sx s) = None" using reader_is [OF post_r(2)] post_r(1) by auto
  have "card (insert p (at_pc {S_reading} s)) = Suc (card (at_pc {S_reading} s))" using D(11) post_r(1) by simp
  moreover have "insert p (readers s) = readers s" using post_r(1) by auto
  ultimately show ?case using post_r(1) D w by (auto simp: shared_inv_def at_pc_go shared_post_lock_shared_def)
next
  case (pre_r s p x)
  note D = shared_invD [OF pre_r(3)]
  have w: "w_owner (sx s) = None" using reader_is [OF pre_r(3)] pre_r(1) by auto
  have x: "x = (sx s)\<lparr>nrlock := nrlock (sx s) - 1\<rparr>" using pre_r(2) D(1) by (auto simp: shared_pre_unlock_shared_def)
  have "p \<in> at_pc {S_reading} s" using pre_r(1) by simp
  then have "card (at_pc {S_reading} s) = Suc (card (at_pc {S_reading} s - {p}))" using D(11) by (metis card_Suc_Diff1)
  moreover have "insert p (readers s) = readers s" using pre_r(1) by auto
  ultimately show ?case using pre_r(1) D w x by (auto simp: shared_inv_def at_pc_go)
next
  case (unlock_r s p)
  note D = shared_invD [OF unlock_r(2)]
  have w: "w_owner (sx s) = None" using reader_is [OF unlock_r(2)] unlock_r(1) by auto
  have "p \<in> readers s" using unlock_r(1) by simp
  then have "card (readers s - {p}) = r_count (sx s) - 1" using D(3,4) by simp
  moreover have "at_pc {S_reading} s - {p} = at_pc {S_reading} s" using unlock_r(1) by auto
  ultimately show ?case using unlock_r(1) D w by (auto simp: shared_inv_def at_pc_go rw_unlock_def)
qed

interpretation sm: invariant_system shared_step shared_inv
  by unfold_locales (rule shared_step_inv)


definition shared_start :: "shared_sys \<Rightarrow> bool" where
  "shared_start s \<longleftrightarrow> track (sx s) \<and> w_owner (sx s) = None \<and> r_count (sx s) = 0 \<and> nlock (sx s) = 0 \<and> nrlock (sx s) = 0
     \<and> locked_by (sx s) = None \<and> (\<forall>p. spc s p = S_idle)"

lemma shared_start_inv: "shared_start s \<Longrightarrow> shared_inv s"
  by (simp add: shared_start_def shared_inv_def at_pc_def)

lemma nrlock_pos:
  assumes "shared_inv s"
  shows "0 < nrlock (sx s) \<longleftrightarrow> (\<exists>p. spc s p = S_reading)"
proof -
  note D = shared_invD [OF assms]
  have "unat (nrlock (sx s)) = card (at_pc {S_reading} s)" using D(7,12) by (simp add: unat_of_nat)
  then have "0 < nrlock (sx s) \<longleftrightarrow> at_pc {S_reading} s \<noteq> {}"
    using D(11) by (simp add: word_less_nat_alt card_gt_0_iff)
  then show ?thesis by (auto simp: at_pc_def)
qed

subsection \<open>Properties\<close>

text \<open>C23: readers and a writer of a shared mutex exclude each other, and its debug fields say the truth: in every
  reachable state \<open>is_wlocked\<close> and \<open>is_rlocked\<close> hold exactly when a writer or a reader is inside, never both,
  \<open>is_locked_by_me\<close> exactly for the one writer, and no assertion of the functions that keep the fields fails.\<close>

theorem shared_mutex_exclusive:
  assumes "shared_start s" "shared_step\<^sup>*\<^sup>* s t"
  shows "(is_wlocked (sx t) \<longleftrightarrow> (\<exists>p. spc t p = S_writing)) \<and> (is_rlocked (sx t) \<longleftrightarrow> (\<exists>p. spc t p = S_reading))
    \<and> \<not> (is_wlocked (sx t) \<and> is_rlocked (sx t)) \<and> (base_is_locked_by_me p (sx t) \<longleftrightarrow> spc t p = S_writing)
    \<and> (spc t p = S_writing \<and> spc t q = S_writing \<longrightarrow> p = q)
    \<and> (spc t p = S_got_w \<longrightarrow> (\<exists>x. shared_post_lock p (sx t) = Ok x))
    \<and> (spc t p = S_writing \<longrightarrow> (\<exists>x. shared_pre_unlock p (sx t) = Ok x))
    \<and> (spc t p = S_reading \<longrightarrow> (\<exists>x. shared_pre_unlock_shared (sx t) = Ok x))"
proof -
  have I: "shared_inv t" by (rule sm.steps_inv [OF assms(2) shared_start_inv [OF assms(1)]])
  note D = shared_invD [OF I]
  have fields: "nlock (sx t) = (if \<exists>p. spc t p = S_writing then 1 else 0) \<and> (locked_by (sx t) = Some p \<longleftrightarrow> spc t p = S_writing)" for p
  proof (cases "w_owner (sx t)")
    case None
    then have "spc t q \<noteq> S_writing" for q using writer_is [OF I, of q] by auto
    then show ?thesis using D(8) [OF None] by simp
  next
    case (Some r)
    have only: "spc t q = S_writing \<longleftrightarrow> q = r \<and> spc t r = S_writing" for q using writer_is [OF I, of q] Some by auto
    then have "(\<exists>q. spc t q = S_writing) \<longleftrightarrow> spc t r = S_writing" by blast
    then show ?thesis using D(9,10) [OF Some] only [of p] by (cases "spc t r = S_writing") auto
  qed
  have n: "nlock (sx t) = (if \<exists>p. spc t p = S_writing then 1 else 0)" using fields by blast
  have w: "0 < nlock (sx t) \<longleftrightarrow> (\<exists>p. spc t p = S_writing)" unfolding n by simp
  have me: "locked_by (sx t) = Some p \<longleftrightarrow> spc t p = S_writing" for p using fields by blast
  have x: "\<not> (spc t p = S_writing \<and> spc t q = S_reading)" for p q
    using writer_is [OF I, of p] reader_is [OF I, of q] by auto
  have one: "p = q" if "spc t p = S_writing" "spc t q = S_writing" for p q
    using writer_is [OF I, of p] writer_is [OF I, of q] that by simp
  have got: "nlock (sx t) = 0" if "spc t p = S_got_w"
    using D(10) [of p] writer_is [OF I, of p] that by simp
  have "\<exists>x. shared_post_lock p (sx t) = Ok x" if "spc t p = S_got_w"
    using got [OF that] D(1) by (simp add: shared_post_lock_def)
  moreover have "\<exists>x. shared_pre_unlock p (sx t) = Ok x" if "spc t p = S_writing"
    using that n me D(1) by (auto simp: shared_pre_unlock_def)
  moreover have "\<exists>x. shared_pre_unlock_shared (sx t) = Ok x" if "spc t p = S_reading"
    using that nrlock_pos [OF I] D(1) by (auto simp: shared_pre_unlock_shared_def)
  moreover have "base_is_locked_by_me p (sx t) \<longleftrightarrow> spc t p = S_writing"
    using w me by (auto simp: base_is_locked_by_me_def)
  ultimately show ?thesis using w x one nrlock_pos [OF I] unfolding is_wlocked_def is_rlocked_def by blast
qed

definition sample_shared :: shared_sys where
  "sample_shared = \<lparr>sx = mutex_debugging_base.extend \<lparr>group = ''g'', mid = - 1, lockdep_on = False, backtrace = False, nlock = 0, locked_by = None\<rparr>
      \<lparr>track = True, nrlock = 0, w_owner = None, r_count = 0\<rparr>, spc = (\<lambda>_. S_idle)\<rparr>"

lemma sample_shared_start: "shared_start sample_shared"
  by (simp add: shared_start_def sample_shared_def mutex_debugging_base.defs)

lemma shared_mutex_exclusive_witness:
  "\<exists>t. shared_step\<^sup>*\<^sup>* sample_shared t \<and> spc t 1 = S_writing \<and> is_wlocked (sx t) \<and> \<not> is_rlocked (sx t) \<and> base_is_locked_by_me 1 (sx t)"
proof -
  let ?x = "(sx sample_shared)\<lparr>w_owner := Some 1\<rparr>"
  let ?y = "?x\<lparr>locked_by := Some 1, nlock := 1\<rparr>"
  let ?u = "sgo 1 S_got_w ?x sample_shared"
  let ?t = "sgo 1 S_writing ?y ?u"
  have a: "shared_step sample_shared ?u"
    by (rule shared_step.trywrlock) (simp_all add: sample_shared_def rw_wrlock_def mutex_debugging_base.defs)
  have b: "shared_step ?u ?t"
    by (rule shared_step.post_w) (simp_all add: shared_post_lock_def sample_shared_def mutex_debugging_base.defs)
  from a b have r: "shared_step\<^sup>*\<^sup>* sample_shared ?t" by (meson rtranclp.rtrancl_into_rtrancl rtranclp.rtrancl_refl)
  have w: "spc ?t 1 = S_writing" by simp
  from shared_mutex_exclusive [OF sample_shared_start r, of 1] w r show ?thesis by blast
qed

end
