(* ===== verification/Io_Context.thy ===== *)
theory Io_Context
  imports Transition_Systems
begin

section \<open>aio\_t and IOContext: blk/aio.hpp, blk/io\_context.hpp, blk/io\_context.cpp\<close>

text \<open>
  The objects that track I/O in flight, as the build configures them (\<open>HAVE_LIBAIO\<close> and
  \<open>HAVE_SPDK\<close>). A \<open>void*\<close> is \<open>None\<close> when it is null; the nvme task pointers are ids of
  the task heap of \<open>Nvme_Task\<close>. The atomic counters are integers; they count objects in memory,
  so they stay far from the bounds of an \<open>int\<close>. The condition variable is the count of
  \<open>notify_all\<close> calls.
\<close>

subsection \<open>aio\_t\<close>

datatype iocb_cmd = IO_CMD_PREAD | IO_CMD_PWRITEV | IO_CMD_PREADV

record iocb =
  aio_lio_opcode :: iocb_cmd
  aio_fildes :: int
  c_iovcnt :: nat
  c_offset :: u64

record aio_t =
  aio_iocb :: iocb
  aio_priv :: "nat option"
  aio_fd :: int
  iov :: "(nat \<times> u64) list"
  aio_offset :: u64
  aio_length :: u64
  rval :: int

definition new_aio :: "nat option \<Rightarrow> int \<Rightarrow> aio_t" where
  "new_aio p f = \<lparr>aio_iocb = \<lparr>aio_lio_opcode = IO_CMD_PREAD, aio_fildes = 0, c_iovcnt = 0, c_offset = 0\<rparr>,
     aio_priv = p, aio_fd = f, iov = [], aio_offset = 0, aio_length = 0, rval = -1000\<rparr>"

definition aio_pwritev :: "u64 \<Rightarrow> u64 \<Rightarrow> aio_t \<Rightarrow> aio_t" where
  "aio_pwritev off len a =
     (let a = a\<lparr>aio_offset := off, aio_length := len\<rparr> in
      a\<lparr>aio_iocb := \<lparr>aio_lio_opcode = IO_CMD_PWRITEV, aio_fildes = aio_fd a, c_iovcnt = length (iov a),
                     c_offset = aio_offset a\<rparr>\<rparr>)"

definition aio_preadv :: "u64 \<Rightarrow> u64 \<Rightarrow> aio_t \<Rightarrow> aio_t" where
  "aio_preadv off len a =
     (let a = a\<lparr>aio_offset := off, aio_length := len\<rparr> in
      a\<lparr>aio_iocb := \<lparr>aio_lio_opcode = IO_CMD_PREADV, aio_fildes = aio_fd a, c_iovcnt = length (iov a),
                     c_offset = aio_offset a\<rparr>\<rparr>)"

subsection \<open>IOContext\<close>

definition FLAG_DONT_CACHE :: u32 where "FLAG_DONT_CACHE = 1"

record io_context =
  ioc_r :: int
  ioc_priv :: "nat option"
  nvme_task_first :: "nat option"
  nvme_task_last :: "nat option"
  total_nseg :: int
  pending_aios :: "aio_t list"
  running_aios :: "aio_t list"
  num_pending :: int
  num_running :: int
  allow_eio :: bool
  ioc_flags :: u32
  notified :: nat

definition new_ioc :: "nat option \<Rightarrow> bool \<Rightarrow> io_context" where
  "new_ioc p eio = \<lparr>ioc_r = 0, ioc_priv = p, nvme_task_first = None, nvme_task_last = None, total_nseg = 0,
     pending_aios = [], running_aios = [], num_pending = 0, num_running = 0, allow_eio = eio, ioc_flags = 0,
     notified = 0\<rparr>"

definition has_pending_aios :: "io_context \<Rightarrow> bool" where
  "has_pending_aios c \<longleftrightarrow> num_pending c \<noteq> 0"

definition skip_cache :: "io_context \<Rightarrow> bool" where
  "skip_cache c \<longleftrightarrow> ioc_flags c AND FLAG_DONT_CACHE \<noteq> 0"

definition set_return_value :: "int \<Rightarrow> io_context \<Rightarrow> io_context" where
  "set_return_value v c = c\<lparr>ioc_r := v\<rparr>"

definition get_return_value :: "io_context \<Rightarrow> int" where
  "get_return_value c = ioc_r c"

definition try_aio_wake :: "io_context \<Rightarrow> io_context res" where
  "try_aio_wake c =
     c_assert (1 \<le> num_running c)
       (Ok (if num_running c = 1
            then c\<lparr>num_running := num_running c - 1, notified := notified c + 1\<rparr>
            else c\<lparr>num_running := num_running c - 1\<rparr>))"

text \<open>\<open>total_nseg\<close> is an \<open>int\<close> added to a \<open>uint64_t\<close>.\<close>

definition get_num_ios :: "io_context \<Rightarrow> u64" where
  "get_num_ios c = of_nat (length (pending_aios c)) + of_int (total_nseg c)"

definition release_running_aios :: "io_context \<Rightarrow> io_context res" where
  "release_running_aios c = c_assert (num_running c = 0) (Ok (c\<lparr>running_aios := []\<rparr>))"

subsection \<open>Waiting for completion\<close>

text \<open>
  \<open>aio_wait\<close> holds the lock from its test of \<open>num_running\<close> to the wait, and
  \<open>try_aio_wake\<close> decrements and notifies under the same lock, so each is one step. A waiter is
  about to test, asleep on the condition variable, or done. A sleeper may also wake spuriously.
  \<open>wake\<close> is a completion that goes through \<open>try_aio_wake\<close>; \<open>submit\<close> is more I/O being
  started. The completions of \<open>driver_queue.cpp\<close> that decrement \<open>num_running\<close> without
  \<open>try_aio_wake\<close> are the step \<open>silent\<close>, which is not part of \<open>wait_step\<close>.
\<close>

datatype waiter = Testing | Asleep | Done

record wait_sys =
  wioc :: io_context
  waiters :: "nat \<Rightarrow> waiter"

definition aio_wait_test :: "io_context \<Rightarrow> waiter" where
  "aio_wait_test c = (if 0 < num_running c then Asleep else Done)"

definition notify_all :: "(nat \<Rightarrow> waiter) \<Rightarrow> nat \<Rightarrow> waiter" where
  "notify_all ws = (\<lambda>p. if ws p = Asleep then Testing else ws p)"

inductive wait_step :: "wait_sys \<Rightarrow> wait_sys \<Rightarrow> bool" where
  test: "waiters s p = Testing \<Longrightarrow>
    wait_step s (s\<lparr>waiters := (waiters s)(p := aio_wait_test (wioc s))\<rparr>)"
| spurious: "waiters s p = Asleep \<Longrightarrow> wait_step s (s\<lparr>waiters := (waiters s)(p := Testing)\<rparr>)"
| enter: "waiters s p = Done \<Longrightarrow> wait_step s (s\<lparr>waiters := (waiters s)(p := Testing)\<rparr>)"
| submit: "wait_step s (s\<lparr>wioc := (wioc s)\<lparr>num_running := num_running (wioc s) + int n\<rparr>\<rparr>)"
| wake: "try_aio_wake (wioc s) = Ok c \<Longrightarrow>
    wait_step s \<lparr>wioc = c,
      waiters = (if notified c = notified (wioc s) then waiters s else notify_all (waiters s))\<rparr>"

inductive silent :: "wait_sys \<Rightarrow> wait_sys \<Rightarrow> bool" where
  "1 \<le> num_running (wioc s) \<Longrightarrow>
    silent s (s\<lparr>wioc := (wioc s)\<lparr>num_running := num_running (wioc s) - 1\<rparr>\<rparr>)"

inductive_cases wait_stepE: "wait_step s t"

definition no_sleeper :: "wait_sys \<Rightarrow> bool" where
  "no_sleeper s \<longleftrightarrow> (\<forall>p. waiters s p \<noteq> Asleep)"

definition wait_inv :: "wait_sys \<Rightarrow> bool" where
  "wait_inv s \<longleftrightarrow> 0 \<le> num_running (wioc s) \<and> (num_running (wioc s) = 0 \<longrightarrow> no_sleeper s)"

lemma notify_all_no_sleeper: "no_sleeper \<lparr>wioc = c, waiters = notify_all ws\<rparr>"
  by (simp add: no_sleeper_def notify_all_def)

lemma try_aio_wake_cases:
  assumes "try_aio_wake c = Ok d"
  shows "1 \<le> num_running c" "num_running d = num_running c - 1"
    "notified d = notified c \<longleftrightarrow> num_running d \<noteq> 0"
  using assms by (auto simp: try_aio_wake_def split: if_splits)

lemma wait_step_inv: "wait_step s t \<Longrightarrow> wait_inv s \<Longrightarrow> wait_inv t"
proof (induction rule: wait_step.induct)
  case (wake s c)
  then show ?case
    using try_aio_wake_cases [OF wake.hyps] notify_all_no_sleeper by (auto simp: wait_inv_def)
qed (auto simp: wait_inv_def no_sleeper_def aio_wait_test_def)

interpretation wt: invariant_system wait_step wait_inv
  by unfold_locales (rule wait_step_inv)

subsection \<open>Properties\<close>

text \<open>C14: no wake-up is lost: after any sequence of tests, waits, spurious wake-ups, submissions and
  completions through \<open>try_aio_wake\<close>, when nothing is running no thread sleeps in \<open>aio_wait\<close>;
  and a thread that then tests is done.\<close>

theorem aio_wait_no_lost_wakeup:
  assumes "wait_step\<^sup>*\<^sup>* s t" "0 \<le> num_running (wioc s)" "no_sleeper s" "num_running (wioc t) = 0"
  shows "waiters t p \<noteq> Asleep \<and> aio_wait_test (wioc t) = Done"
  using wt.steps_inv [OF assms(1)] assms(2-4) by (simp add: wait_inv_def no_sleeper_def aio_wait_test_def)

definition sample_wait :: "int \<Rightarrow> waiter \<Rightarrow> wait_sys" where
  "sample_wait n w = \<lparr>wioc = (new_ioc None False)\<lparr>num_running := n\<rparr>, waiters = (\<lambda>_. Done)(0 := w)\<rparr>"

lemma aio_wait_no_lost_wakeup_witness:
  "\<exists>t. wait_step\<^sup>*\<^sup>* (sample_wait 1 Testing) t \<and> num_running (wioc t) = 0 \<and> waiters t 0 = Testing"
proof -
  let ?s = "sample_wait 1 Testing"
  let ?u = "?s\<lparr>waiters := (waiters ?s)(0 := Asleep)\<rparr>"
  let ?c = "(wioc ?s)\<lparr>num_running := 0, notified := 1\<rparr>"
  let ?t = "\<lparr>wioc = ?c, waiters = notify_all (waiters ?u)\<rparr>"
  have "wait_step ?s ?u" using wait_step.test [of ?s 0] by (simp add: sample_wait_def aio_wait_test_def new_ioc_def)
  moreover have "wait_step ?u ?t"
    using wait_step.wake [of ?u ?c] by (simp add: sample_wait_def try_aio_wake_def new_ioc_def)
  ultimately have "wait_step\<^sup>*\<^sup>* ?s ?t" by (meson r_into_rtranclp rtranclp_trans)
  moreover have "num_running (wioc ?t) = 0" "waiters ?t 0 = Testing"
    by (simp_all add: sample_wait_def notify_all_def)
  moreover have "waiters ?t 0 \<noteq> Asleep"
    using aio_wait_no_lost_wakeup [of ?s ?t 0] calculation by (simp add: sample_wait_def no_sleeper_def)
  ultimately show ?thesis by blast
qed

text \<open>A completion that decrements \<open>num_running\<close> without \<open>try_aio_wake\<close> (the read path of
  \<open>io_complete\<close> with a primary, and every completion of an IOContext with \<open>priv\<close>) can leave a
  sleeper behind: nothing runs any more, and only a spurious wake-up would end the wait.\<close>

theorem silent_completion_loses_wakeup:
  assumes "waiters s p = Asleep" "num_running (wioc s) = 1"
  shows "\<exists>t. silent s t \<and> num_running (wioc t) = 0 \<and> waiters t p = Asleep"
  using assms silent.intros [of s] by (intro exI [of _ "s\<lparr>wioc := (wioc s)\<lparr>num_running := num_running (wioc s) - 1\<rparr>\<rparr>"]) simp

lemma silent_completion_loses_wakeup_witness:
  "\<exists>t. silent (sample_wait 1 Asleep) t \<and> num_running (wioc t) = 0 \<and> waiters t 0 = Asleep"
  by (rule silent_completion_loses_wakeup) (simp_all add: sample_wait_def)

end
