(* ===== verification/Aio_Queue.thy ===== *)
theory Aio_Queue
  imports Io_Context "HOL-Library.Signed_Division"
begin

section \<open>The kernel aio queue: blk/kernel/io\_queue.hpp and blk/kernel/io\_queue.cpp\<close>

text \<open>
  \<open>aio_queue_t\<close> over libaio. The system calls (\<open>io_setup\<close>, \<open>io_destroy\<close>,
  \<open>io_submit\<close>, \<open>io_getevents\<close>) are parameters over a kernel state; an \<open>iocb*\<close> is the
  position of its \<open>aio_t\<close> in the list. A result carries what the call did besides its return
  value: the kernel state, the sleeps in microseconds in order, and \<open>*retries\<close>.
\<close>

subsection \<open>Life cycle\<close>

record aio_queue =
  max_iodepth :: int
  aq_ctx :: nat

definition new_aio_queue :: "u32 \<Rightarrow> aio_queue" where
  "new_aio_queue depth = \<lparr>max_iodepth = sint depth, aq_ctx = 0\<rparr>"

text \<open>\<open>io_setup\<close> answers a status and what it wrote to the context.\<close>

definition aio_init :: "(int \<Rightarrow> int \<times> nat) \<Rightarrow> aio_queue \<Rightarrow> (int \<times> aio_queue) res" where
  "aio_init io_setup q =
     c_assert (aq_ctx q = 0)
       (case io_setup (max_iodepth q) of (r, ctx) \<Rightarrow>
          if r < 0 then Ok (r, q\<lparr>aq_ctx := 0\<rparr>) else Ok (r, q\<lparr>aq_ctx := ctx\<rparr>))"

definition aio_shutdown :: "(nat \<Rightarrow> int) \<Rightarrow> aio_queue \<Rightarrow> aio_queue res" where
  "aio_shutdown io_destroy q =
     (if aq_ctx q \<noteq> 0 then c_assert (io_destroy (aq_ctx q) = 0) (Ok (q\<lparr>aq_ctx := 0\<rparr>)) else Ok q)"

definition aio_queue_destructor :: "aio_queue \<Rightarrow> unit res" where
  "aio_queue_destructor q = c_assert (aq_ctx q = 0) (Ok ())"

subsection \<open>submit\_batch\<close>

record 'k submit_out =
  so_r :: int
  so_kernel :: 'k
  so_sleeps :: "int list"
  so_retries :: int

text \<open>
  The loop that fills \<open>piocb\<close>, a variable length array of \<open>aios_size\<close> elements: it is
  written before the assertion that compares \<open>aios_size\<close> with the number of elements.
\<close>

fun fill_piocb :: "nat option \<Rightarrow> u16 \<Rightarrow> nat \<Rightarrow> aio_t list \<Rightarrow> (nat list \<times> aio_t list) res" where
  "fill_piocb priv aios_size left [] = Ok ([], [])"
| "fill_piocb priv aios_size left (a # as) =
     (if left < unat aios_size
      then rbind (fill_piocb priv aios_size (Suc left) as)
             (\<lambda>(ps, as). Ok (left # ps, a\<lparr>aio_priv := priv\<rparr> # as))
      else Fault Undefined)"

text \<open>
  The submission loop. \<open>piocb\<close> is what is left to submit, so \<open>left\<close> is its length;
  \<open>attempts\<close> counts down to 0, where the source's test fails.
\<close>

function submit_loop ::
    "(int \<Rightarrow> nat list \<Rightarrow> 'k \<Rightarrow> int \<times> 'k) \<Rightarrow> int \<Rightarrow> nat list \<Rightarrow> int \<Rightarrow> nat \<Rightarrow> int \<Rightarrow> 'k \<Rightarrow> int list \<Rightarrow> int
       \<Rightarrow> 'k submit_out res" where
  "submit_loop io_submit depth piocb done attempts delay k sleeps retries =
     (if piocb = [] then Ok \<lparr>so_r = done, so_kernel = k, so_sleeps = sleeps, so_retries = retries\<rparr>
      else case io_submit (min (int (length piocb)) depth) piocb k of (r, k) \<Rightarrow>
        if r < 0
        then if r = - EAGAIN \<and> 0 < attempts
             then submit_loop io_submit depth piocb done (attempts - 1) (delay * 2) k (sleeps @ [delay]) (retries + 1)
             else Ok \<lparr>so_r = r, so_kernel = k, so_sleeps = sleeps, so_retries = retries\<rparr>
        else if r = 0 then Fault AssertFail
        else submit_loop io_submit depth (drop (nat r) piocb) (done + r) 16 125 k sleeps retries)"
  by pat_completeness auto
termination
  by (relation "measure (\<lambda>(_, _, piocb, _, attempts, _). length piocb * 17 + attempts)")
    (auto simp: neq_Nil_conv)

declare submit_loop.simps [simp del]

definition submit_batch ::
    "(int \<Rightarrow> nat list \<Rightarrow> 'k \<Rightarrow> int \<times> 'k) \<Rightarrow> aio_queue \<Rightarrow> aio_t list \<Rightarrow> u16 \<Rightarrow> nat option \<Rightarrow> int \<Rightarrow> 'k
       \<Rightarrow> (aio_t list \<times> 'k submit_out) res" where
  "submit_batch io_submit q aios aios_size priv retries k =
     rbind (fill_piocb priv aios_size 0 aios)
       (\<lambda>(piocb, aios). c_assert (length piocb \<le> unat aios_size)
          (rbind (submit_loop io_submit (max_iodepth q) piocb 0 16 125 k [] retries)
             (\<lambda>out. Ok (aios, out))))"

subsection \<open>get\_next\_completed\<close>

text \<open>\<open>io_getevents\<close> answers a status and the events (the aio, its result) that it wrote.\<close>

partial_function (option) getevents_loop ::
    "('k \<Rightarrow> int \<times> (nat \<times> int) list \<times> 'k) \<Rightarrow> 'k \<Rightarrow> (int \<times> (nat \<times> int) list \<times> 'k) option" where
  "getevents_loop getevents k =
     (case getevents k of (r, evs, k') \<Rightarrow> if r = - EINTR then getevents_loop getevents k' else Some (r, evs, k'))"

definition timespec_of_ms :: "int \<Rightarrow> int \<times> int" where
  "timespec_of_ms ms = (ms sdiv 1000, ms smod 1000 * 1000 * 1000)"

fun take_events :: "(nat \<times> int) list \<Rightarrow> (nat \<Rightarrow> aio_t) \<Rightarrow> (nat \<Rightarrow> aio_t)" where
  "take_events [] aios = aios"
| "take_events ((i, v) # evs) aios = take_events evs (aios(i := (aios i)\<lparr>rval := v\<rparr>))"

text \<open>
  The outcome: the return value, \<open>paio[0..r)\<close>, the aios and the kernel; \<open>NoReturn\<close> when the
  call is interrupted for ever.
\<close>

definition get_next_completed ::
    "(nat \<Rightarrow> int \<Rightarrow> int \<times> int \<Rightarrow> 'k \<Rightarrow> int \<times> (nat \<times> int) list \<times> 'k) \<Rightarrow> aio_queue \<Rightarrow> int \<Rightarrow> int \<Rightarrow> (nat \<Rightarrow> aio_t) \<Rightarrow> 'k
       \<Rightarrow> (int \<times> nat list \<times> (nat \<Rightarrow> aio_t) \<times> 'k) res" where
  "get_next_completed io_getevents q timeout_ms max_nr aios k =
     (if max_nr \<le> 0 then Fault Undefined
      else case getevents_loop (io_getevents (aq_ctx q) max_nr (timespec_of_ms timeout_ms)) k of
        None \<Rightarrow> Fault NoReturn
      | Some (r, evs, k) \<Rightarrow>
          if int (length evs) < r \<or> max_nr < r then Fault Undefined
          else Ok (r, map fst (take (nat r) evs), take_events (take (nat r) evs) aios, k))"

subsection \<open>What is submitted, and how long it takes\<close>

text \<open>The kernel with a log of the control blocks that it has accepted, in order.\<close>

definition logged ::
    "(int \<Rightarrow> nat list \<Rightarrow> 'k \<Rightarrow> int \<times> 'k) \<Rightarrow> int \<Rightarrow> nat list \<Rightarrow> 'k \<times> nat list \<Rightarrow> int \<times> 'k \<times> nat list" where
  "logged sub n xs kl =
     (case sub n xs (fst kl) of (r, k) \<Rightarrow> (r, k, if 0 < r then snd kl @ take (nat r) xs else snd kl))"

text \<open>What \<open>io_submit\<close> documents: it accepts at most as many as it is given, and something or an
  error when it is given something.\<close>

definition submit_contract :: "(int \<Rightarrow> nat list \<Rightarrow> 'k \<Rightarrow> int \<times> 'k) \<Rightarrow> bool" where
  "submit_contract sub \<longleftrightarrow> (\<forall>n xs k. fst (sub n xs k) \<le> n \<and> (0 < n \<longrightarrow> fst (sub n xs k) \<noteq> 0))"

lemma fill_piocb_Ok:
  "left + length as \<le> unat sz \<Longrightarrow>
    fill_piocb priv sz left as = Ok ([left..<left + length as], map (\<lambda>a. a\<lparr>aio_priv := priv\<rparr>) as)"
  by (induction priv sz left as rule: fill_piocb.induct) (simp_all add: upt_conv_Cons del: upt_Suc)

lemma fill_piocb_overrun:
  "unat sz < left + length as \<Longrightarrow> left \<le> unat sz \<Longrightarrow> fill_piocb priv sz left as = Fault Undefined"
  by (induction priv sz left as rule: fill_piocb.induct) (auto simp: rbind_eq_Inl)

lemma submit_loop_logged:
  assumes "submit_contract sub" "0 < depth" "0 \<le> done"
  shows "\<exists>out. submit_loop (logged sub) depth piocb done att delay kl sl rt = Ok out
    \<and> (0 \<le> so_r out \<and> so_r out = done + int (length piocb) \<and> snd (so_kernel out) = snd kl @ piocb
       \<or> so_r out < 0 \<and> (\<exists>m < length piocb. snd (so_kernel out) = snd kl @ take m piocb))"
  using assms(3)
proof (induction "length piocb * 17 + att" arbitrary: piocb "done" att delay kl sl rt rule: less_induct)
  case less
  show ?case
  proof (cases "piocb = []")
    case True
    then show ?thesis using less(2) by (subst submit_loop.simps) simp
  next
    case False
    define n where "n = min (int (length piocb)) depth"
    obtain r k where sub: "sub n piocb (fst kl) = (r, k)" by fastforce
    have n: "0 < n" using False assms(2) by (simp add: n_def)
    have r: "r \<le> n" "r \<noteq> 0" using assms(1) n sub unfolding submit_contract_def by (metis fst_conv)+
    define kl' where "kl' = (k, if 0 < r then snd kl @ take (nat r) piocb else snd kl)"
    have lg: "logged sub n piocb kl = (r, kl')" using sub by (simp add: logged_def kl'_def)
    consider (retry) "r = -11" "0 < att" | (err) "r < 0" "\<not> (r = -11 \<and> 0 < att)" | (some) "0 < r"
      using r(2) by linarith
    then show ?thesis
    proof cases
      case retry
      then have step: "submit_loop (logged sub) depth piocb done att delay kl sl rt
          = submit_loop (logged sub) depth piocb done (att - 1) (delay * 2) kl' (sl @ [delay]) (rt + 1)"
        using False lg by (subst submit_loop.simps) (simp add: n_def)
      show ?thesis
        unfolding step using less(1) [of piocb "att - 1" "done" "delay * 2" kl' "sl @ [delay]" "rt + 1"] less(2) retry
        by (simp add: kl'_def)
    next
      case err
      then have "submit_loop (logged sub) depth piocb done att delay kl sl rt
          = Ok \<lparr>so_r = r, so_kernel = kl', so_sleeps = sl, so_retries = rt\<rparr>"
        using False lg by (subst submit_loop.simps) (auto simp: n_def)
      then show ?thesis using err(1) False by (auto simp: kl'_def intro!: exI [of _ 0])
    next
      case some
      have step: "submit_loop (logged sub) depth piocb done att delay kl sl rt
          = submit_loop (logged sub) depth (drop (nat r) piocb) (done + r) 16 125 kl' sl rt"
        using False lg some by (subst submit_loop.simps) (auto simp: n_def)
      have rl: "nat r \<le> length piocb" "0 < nat r" using some r(1) by (auto simp: n_def)
      have "length (drop (nat r) piocb) * 17 + 16 < length piocb * 17 + att" using rl by simp
      from less(1) [OF this, of "done + r" 125 kl' sl rt] obtain out where
        out: "submit_loop (logged sub) depth (drop (nat r) piocb) (done + r) 16 125 kl' sl rt = Ok out"
          "0 \<le> so_r out \<and> so_r out = done + r + int (length (drop (nat r) piocb))
             \<and> snd (so_kernel out) = snd kl' @ drop (nat r) piocb
           \<or> so_r out < 0 \<and> (\<exists>m < length (drop (nat r) piocb). snd (so_kernel out) = snd kl' @ take m (drop (nat r) piocb))"
        using less(2) some by auto
      have "snd kl' @ drop (nat r) piocb = snd kl @ piocb" using some by (simp add: kl'_def)
      moreover have "done + r + int (length (drop (nat r) piocb)) = done + int (length piocb)" using rl by simp
      moreover have "snd kl' @ take m (drop (nat r) piocb) = snd kl @ take (nat r + m) piocb" for m
        using some by (simp add: kl'_def take_add)
      moreover have "m < length (drop (nat r) piocb) \<Longrightarrow> nat r + m < length piocb" for m by simp
      ultimately show ?thesis unfolding step using out by metis
    qed
  qed
qed

text \<open>C25: over any kernel that keeps the documented contract of \<open>io_submit\<close>, \<open>submit_batch\<close>
  returns; a result that is not negative is the number of aios, and every one of them was submitted
  exactly once, in order, with its \<open>priv\<close> set; a negative result means that a proper prefix was.\<close>

theorem submit_batch_in_order:
  assumes "submit_contract sub" "0 < max_iodepth q" "length aios \<le> unat aios_size"
  shows "\<exists>as out. submit_batch (logged sub) q aios aios_size p retries (k, []) = Ok (as, out)
    \<and> as = map (\<lambda>a. a\<lparr>aio_priv := p\<rparr>) aios
    \<and> (0 \<le> so_r out \<and> so_r out = int (length aios) \<and> snd (so_kernel out) = [0..<length aios]
       \<or> so_r out < 0 \<and> (\<exists>m < length aios. snd (so_kernel out) = [0..<m]))"
proof -
  obtain out where out: "submit_loop (logged sub) (max_iodepth q) [0..<length aios] 0 16 125 (k, []) [] retries = Ok out"
      "0 \<le> so_r out \<and> so_r out = int (length aios) \<and> snd (so_kernel out) = [0..<length aios]
       \<or> so_r out < 0 \<and> (\<exists>m < length aios. snd (so_kernel out) = take m [0..<length aios])"
    using submit_loop_logged [OF assms(1,2), of 0 "[0..<length aios]" 16 125 "(k, [])" "[]" retries] by auto
  moreover have "\<exists>m < length aios. snd (so_kernel out) = [0..<m]"
    if "\<exists>m < length aios. snd (so_kernel out) = take m [0..<length aios]"
    using that by (auto simp: take_upt)
  ultimately show ?thesis
    using assms(3) fill_piocb_Ok [of 0 aios aios_size p] by (auto simp: submit_batch_def)
qed

text \<open>A kernel that accepts one control block at a time, and is busy every other call.\<close>

definition one_by_one :: "int \<Rightarrow> nat list \<Rightarrow> bool \<Rightarrow> int \<times> bool" where
  "one_by_one n xs busy = (if busy \<or> n \<le> 0 then (min n (- EAGAIN), False) else (1, True))"

lemma one_by_one_contract: "submit_contract one_by_one"
  by (auto simp: submit_contract_def one_by_one_def)

lemma submit_batch_in_order_witness:
  "\<exists>as out. submit_batch (logged one_by_one) (new_aio_queue 8) (replicate 3 (new_aio None 5)) 4 (Some 7) 0 (True, []) = Ok (as, out)
     \<and> length as = 3"
  using submit_batch_in_order [OF one_by_one_contract, of "new_aio_queue 8" "replicate 3 (new_aio None 5)" 4 "Some 7" 0 True]
  by (auto simp: new_aio_queue_def)

text \<open>The array of control blocks has \<open>aios_size\<close> elements and is filled before the assertion
  checks the count: with more aios the fill already writes past its end.\<close>

theorem submit_batch_overrun:
  assumes "unat aios_size < length aios"
  shows "submit_batch sub q aios aios_size p retries k = Fault Undefined"
  using fill_piocb_overrun [of aios_size 0 aios p] assms by (simp add: submit_batch_def)

lemma submit_batch_overrun_witness:
  "submit_batch one_by_one (new_aio_queue 8) [new_aio None 5, new_aio None 6] 1 None 0 False = Fault Undefined"
  by (rule submit_batch_overrun) simp

subsection \<open>Retrying\<close>

definition backoff :: "nat \<Rightarrow> int list" where
  "backoff n = map (\<lambda>i. 125 * 2 ^ i) [0..<n]"

lemma sum_list_backoff: "sum_list (backoff n) = 125 * (2 ^ n - 1)"
  by (induction n) (simp_all add: backoff_def algebra_simps)

lemma submit_loop_busy:
  assumes "\<And>n xs k. fst (sub n xs k) = - EAGAIN" "piocb \<noteq> []"
  shows "\<exists>k'. submit_loop sub depth piocb done att delay k sl rt = Ok \<lparr>so_r = - EAGAIN, so_kernel = k',
    so_sleeps = sl @ map (\<lambda>i. delay * 2 ^ i) [0..<att], so_retries = rt + int att\<rparr>"
proof (induction att arbitrary: delay k sl rt)
  case 0
  obtain k' where "sub (min (int (length piocb)) depth) piocb k = (- EAGAIN, k')"
    using assms(1) by (metis prod.collapse)
  then show ?case using assms(2) by (subst submit_loop.simps) simp
next
  case (Suc att)
  obtain k' where k': "sub (min (int (length piocb)) depth) piocb k = (- EAGAIN, k')"
    using assms(1) by (metis prod.collapse)
  have step: "submit_loop sub depth piocb done (Suc att) delay k sl rt
      = submit_loop sub depth piocb done att (delay * 2) k' (sl @ [delay]) (rt + 1)"
    using assms(2) k' by (subst submit_loop.simps) simp
  have "[delay] @ map (\<lambda>i. delay * 2 * 2 ^ i) [0..<att] = map (\<lambda>i. delay * 2 ^ i) [0..<Suc att]"
    by (simp add: upt_conv_Cons map_Suc_upt [symmetric] del: upt_Suc)
  then show ?case
    unfolding step using Suc [of "delay * 2" k' "sl @ [delay]" "rt + 1"] by (simp add: algebra_simps)
qed

text \<open>Against a kernel that always answers \<open>EAGAIN\<close>, \<open>submit_batch\<close> gives up after exactly
  16 retries, with doubling sleeps from 125 microseconds on that add up to 8,191,875 microseconds
  (8.2 seconds; the comment in the source says about 16), and returns \<open>-EAGAIN\<close>.\<close>

theorem submit_batch_backoff:
  assumes "\<And>n xs k. fst (sub n xs k) = - EAGAIN" "aios \<noteq> []" "length aios \<le> unat aios_size"
  shows "\<exists>as k'. submit_batch sub q aios aios_size p retries k = Ok (as, \<lparr>so_r = - EAGAIN, so_kernel = k',
      so_sleeps = backoff 16, so_retries = retries + 16\<rparr>)
    \<and> sum_list (backoff 16) = 8191875 \<and> last (backoff 16) = 4096000"
proof -
  have ne: "[0..<length aios] \<noteq> []" using assms(2) by simp
  obtain k' where "submit_loop sub (max_iodepth q) [0..<length aios] 0 16 125 k [] retries = Ok \<lparr>so_r = - EAGAIN,
      so_kernel = k', so_sleeps = [] @ map (\<lambda>i. 125 * 2 ^ i) [0..<16], so_retries = retries + int 16\<rparr>"
    using submit_loop_busy [of sub, OF assms(1) ne] by blast
  moreover have "last (backoff 16) = 4096000" by (simp add: backoff_def upt_rec)
  ultimately show ?thesis
    using assms(3) fill_piocb_Ok [of 0 aios aios_size p] sum_list_backoff [of 16]
    by (simp add: submit_batch_def backoff_def)
qed

lemma submit_batch_backoff_witness:
  "\<exists>as out. submit_batch (\<lambda>n xs k. (- EAGAIN, k)) (new_aio_queue 8) [new_aio None 5] 1 None 0 () = Ok (as, out)
     \<and> so_retries out = 16"
  using submit_batch_backoff [of "\<lambda>n xs k. (- EAGAIN, k)" "[new_aio None 5]" 1 "new_aio_queue 8" None 0 "()"] by auto

lemma take_events_other: "i \<notin> fst ` set evs \<Longrightarrow> take_events evs aios i = aios i"
  by (induction evs aios rule: take_events.induct) auto

lemma take_events_rval:
  "distinct (map fst evs) \<Longrightarrow> (i, v) \<in> set evs \<Longrightarrow> take_events evs aios i = (aios i)\<lparr>rval := v\<rparr>"
  by (induction evs aios rule: take_events.induct) (auto simp: take_events_other rev_image_eqI)

fun interrupted :: "nat \<Rightarrow> ('k \<Rightarrow> int \<times> (nat \<times> int) list \<times> 'k) \<Rightarrow> 'k \<Rightarrow> 'k" where
  "interrupted 0 f k = k"
| "interrupted (Suc n) f k = interrupted n f (snd (snd (f k)))"

lemma getevents_loop_returns:
  "(\<And>i. i < n \<Longrightarrow> fst (f (interrupted i f k)) = - EINTR) \<Longrightarrow> f (interrupted n f k) = (r, evs, k') \<Longrightarrow> r \<noteq> - EINTR \<Longrightarrow>
    getevents_loop f k = Some (r, evs, k')"
proof (induction n arbitrary: k)
  case 0
  then show ?case by (subst getevents_loop.simps) simp
next
  case (Suc n)
  obtain evs1 k1 where f: "f k = (- EINTR, evs1, k1)"
    using Suc.prems(1) [of 0] by (cases "f k") auto
  have "getevents_loop f k1 = Some (r, evs, k')"
  proof (rule Suc.IH)
    show "fst (f (interrupted i f k1)) = - EINTR" if "i < n" for i
      using Suc.prems(1) [of "Suc i"] that f by simp
  qed (use Suc.prems(2,3) f in simp_all)
  then show ?case using f by (subst getevents_loop.simps) simp
qed

text \<open>C30: \<open>get_next_completed\<close> returns as soon as the wait is not interrupted, and then hands out
  exactly the aios of the kernel's events, in order, each with its result in \<open>rval\<close>; all other
  aios are untouched.\<close>

theorem get_next_completed_delivers:
  assumes f: "getevents (aq_ctx q) max_nr (timespec_of_ms ms) = f"
    and "0 < max_nr" "\<And>i. i < n \<Longrightarrow> fst (f (interrupted i f k)) = - EINTR"
    and "f (interrupted n f k) = (r, evs, k')" "r \<noteq> - EINTR"
    and "r < 0 \<and> evs = [] \<or> r = int (length evs) \<and> r \<le> max_nr" "distinct (map fst evs)"
  shows "\<exists>aios'. get_next_completed getevents q ms max_nr aios k = Ok (r, map fst evs, aios', k')
    \<and> (\<forall>(i, v) \<in> set evs. aios' i = (aios i)\<lparr>rval := v\<rparr>) \<and> (\<forall>i. i \<notin> fst ` set evs \<longrightarrow> aios' i = aios i)"
proof -
  have loop: "getevents_loop (getevents (aq_ctx q) max_nr (timespec_of_ms ms)) k = Some (r, evs, k')"
    using getevents_loop_returns [of n f, OF assms(3,4,5)] by (simp add: f)
  have "take (nat r) evs = evs" using assms(6) by auto
  then have "get_next_completed getevents q ms max_nr aios k = Ok (r, map fst evs, take_events evs aios, k')"
    using assms(2,6) loop by (auto simp: get_next_completed_def)
  then show ?thesis
    using take_events_rval [OF assms(7), of _ _ aios] take_events_other [of _ evs aios] by auto
qed

lemma get_next_completed_delivers_witness:
  "\<exists>aios'. get_next_completed (\<lambda>_ _ _ k. if k = 0 then (- EINTR, [], 1) else (2, [(4, 512), (1, -5)], k)) (new_aio_queue 8) 100 16
     (\<lambda>_. new_aio None 3) (0::nat) = Ok (2, [4, 1], aios', 1) \<and> rval (aios' 1) = -5"
proof -
  define g :: "nat \<Rightarrow> int \<Rightarrow> int \<times> int \<Rightarrow> nat \<Rightarrow> int \<times> (nat \<times> int) list \<times> nat"
    where "g = (\<lambda>_ _ _ k. if k = 0 then (- EINTR, [], 1) else (2, [(4, 512), (1, -5)], k))"
  have "\<exists>aios'. get_next_completed g (new_aio_queue 8) 100 16 (\<lambda>_. new_aio None 3) 0
      = Ok (2, map fst [(4::nat, 512::int), (1, -5)], aios', 1)
    \<and> (\<forall>(i, v) \<in> set [(4, 512), (1, -5)]. aios' i = (new_aio None 3)\<lparr>rval := v\<rparr>)
    \<and> (\<forall>i. i \<notin> fst ` set [(4::nat, 512::int), (1, -5)] \<longrightarrow> aios' i = new_aio None 3)"
    by (rule get_next_completed_delivers [where n = 1, OF refl]) (simp_all add: g_def)
  then show ?thesis by (auto simp: g_def)
qed

end
