(* ===== verification/Nvme_Task.thy ===== *)
theory Nvme_Task
  imports Io_Context
begin

section \<open>NVMe tasks and their data buffers: blk/spdk/task.hpp and blk/spdk/driver\_queue.cpp\<close>

text \<open>
  A task is one command of at most 128 KiB. Its payload lives in 8 KiB DMA buffers that come from
  the pool of the queue; the segment arrays of its \<open>IORequest\<close> point to them. The model has an
  explicit heap of tasks (a task that was deleted is \<open>None\<close>, and using it is
  \<open>Undefined\<close>), the DMA memory as bytes per buffer, and the caller's memory as bytes per address.
  All tasks of one submission share one \<open>IOContext\<close>, the field \<open>ioc\<close>.
\<close>

subsection \<open>Data\<close>

definition data_buffer_default_num :: u16 where "data_buffer_default_num = 1024"

definition data_buffer_size :: u32 where "data_buffer_size = 8192"

definition inline_segment_num :: u16 where "inline_segment_num = 32"

datatype io_command = READ_COMMAND | WRITE_COMMAND | FLUSH_COMMAND

type_synonym buf_id = nat
type_synonym task_id = nat
type_synonym segs = "buf_id option list"

text \<open>A segment pointer is \<open>None\<close> while it is null.\<close>

record io_request =
  cur_seg_idx :: u16
  nseg :: u16
  cur_seg_left :: u32
  inline_segs :: segs
  extra_segs :: "segs option"

definition new_io_request :: io_request where
  "new_io_request = \<lparr>cur_seg_idx = 0, nseg = 0, cur_seg_left = 0,
     inline_segs = replicate (unat inline_segment_num) None, extra_segs = None\<rparr>"

text \<open>The closure \<open>fill_cb\<close>: where to copy, how many bytes to skip, how many to copy.\<close>

record fill =
  fill_buf :: nat
  fill_off :: u64
  fill_len :: u64

record task =
  command :: io_command
  t_offset :: u64
  t_len :: u64
  t_buf :: nat
  fill_cb :: "fill option"
  t_next :: "task_id option"
  return_code :: int
  primary :: "task_id option"
  io_request :: io_request
  t_queue :: bool
  t_ref :: int

record world =
  tasks :: "task_id \<Rightarrow> task option"
  next_task :: task_id
  ioc :: io_context
  data_buf_list :: "buf_id list"
  dma :: "buf_id \<Rightarrow> nat \<Rightarrow> u8"
  umem :: "nat \<Rightarrow> u8"
  callbacks :: "nat list"

definition deref :: "task_id \<Rightarrow> 'a world_scheme \<Rightarrow> task res" where
  "deref t w = (case tasks w t of None \<Rightarrow> Fault Undefined | Some x \<Rightarrow> Ok x)"

definition put_task :: "task_id \<Rightarrow> task \<Rightarrow> 'a world_scheme \<Rightarrow> 'a world_scheme" where
  "put_task t x w = w\<lparr>tasks := (tasks w)(t \<mapsto> x)\<rparr>"

definition memcpy :: "nat \<Rightarrow> nat \<Rightarrow> (nat \<Rightarrow> u8) \<Rightarrow> nat \<Rightarrow> (nat \<Rightarrow> u8) \<Rightarrow> (nat \<Rightarrow> u8)" where
  "memcpy dst n src_mem src mem = (\<lambda>a. if dst \<le> a \<and> a < dst + n then src_mem (src + (a - dst)) else mem a)"

subsection \<open>Construction and destruction\<close>

definition new_task ::
    "io_command \<Rightarrow> u64 \<Rightarrow> u64 \<Rightarrow> int \<Rightarrow> task_id option \<Rightarrow> 'a world_scheme \<Rightarrow> (task_id \<times> 'a world_scheme) res" where
  "new_task c off l rc p w =
     (let t = next_task w;
          x = \<lparr>command = c, t_offset = off, t_len = l, t_buf = 0, fill_cb = None, t_next = None,
               return_code = rc, primary = p, io_request = new_io_request, t_queue = False, t_ref = 0\<rparr>;
          w = w\<lparr>next_task := Suc t\<rparr> in
      case p of
        None \<Rightarrow> Ok (t, put_task t x w)
      | Some q \<Rightarrow> rbind (deref q w) (\<lambda>y.
          Ok (t, put_task t (x\<lparr>return_code := return_code y\<rparr>) (put_task q (y\<lparr>t_ref := t_ref y + 1\<rparr>) w))))"

definition delete_task :: "task_id \<Rightarrow> 'a world_scheme \<Rightarrow> 'a world_scheme res" where
  "delete_task t w =
     rbind (deref t w) (\<lambda>x.
       rbind (case primary x of
                None \<Rightarrow> Ok w
              | Some q \<Rightarrow> rbind (deref q w) (\<lambda>y. Ok (put_task q (y\<lparr>t_ref := t_ref y - 1\<rparr>) w)))
         (\<lambda>w. c_assert (nseg (io_request x) = 0) (Ok (w\<lparr>tasks := (tasks w)(t := None)\<rparr>))))"

subsection \<open>Segments\<close>

text \<open>\<open>segs[i]\<close> that is then used as a pointer: out of range or null is undefined.\<close>

definition seg_at :: "segs \<Rightarrow> nat \<Rightarrow> buf_id res" where
  "seg_at ss i = (if i < length ss then (case ss ! i of None \<Rightarrow> Fault Undefined | Some b \<Rightarrow> Ok b) else Fault Undefined)"

definition req_segs :: "io_request \<Rightarrow> segs" where
  "req_segs r = (case extra_segs r of Some ss \<Rightarrow> ss | None \<Rightarrow> inline_segs r)"

text \<open>The loop of \<open>release_segs\<close>: \<open>n\<close> more segments from \<open>i\<close> on go to the front of the pool.\<close>

fun push_segs :: "segs \<Rightarrow> nat \<Rightarrow> nat \<Rightarrow> buf_id list \<Rightarrow> buf_id list res" where
  "push_segs ss 0 i pool = Ok pool"
| "push_segs ss (Suc n) i pool = rbind (seg_at ss i) (\<lambda>b. push_segs ss n (Suc i) (b # pool))"

text \<open>
  \<open>release_segs\<close>. \<open>extra_segs\<close> comes from \<open>new void*[count]\<close> and is given to
  \<open>delete\<close> without brackets, which the standard leaves undefined.
\<close>

definition release_segs :: "task_id \<Rightarrow> 'a world_scheme \<Rightarrow> 'a world_scheme res" where
  "release_segs t w =
     rbind (deref t w) (\<lambda>x. let r = io_request x in
       rbind (push_segs (req_segs r) (unat (nseg r)) 0 (data_buf_list w)) (\<lambda>pool.
         if extra_segs r \<noteq> None then Fault Undefined
         else Ok (put_task t (x\<lparr>io_request := r\<lparr>nseg := 0\<rparr>\<rparr>)
                (w\<lparr>data_buf_list := pool, ioc := (ioc w)\<lparr>total_nseg := total_nseg (ioc w) - int (unat (nseg r))\<rparr>\<rparr>))))"

text \<open>
  \<open>copy_to_buf\<close>: \<open>need_copy\<close> is the smaller of what is left and what the segment has after
  \<open>off\<close>; the subtraction is in 64 bits, and a copy from beyond the segment is undefined.
\<close>

function copy_loop :: "segs \<Rightarrow> (buf_id \<Rightarrow> nat \<Rightarrow> u8) \<Rightarrow> nat \<Rightarrow> nat \<Rightarrow> nat \<Rightarrow> u64 \<Rightarrow> u64 \<Rightarrow> (nat \<Rightarrow> u8) \<Rightarrow> (nat \<Rightarrow> u8) res" where
  "copy_loop ss d i buf copied off left mem =
     (if left = 0 then Ok mem
      else rbind (seg_at ss i) (\<lambda>b.
        let need_copy = min left (ucast data_buffer_size - off) in
        if unat data_buffer_size < unat off + unat need_copy then Fault Undefined
        else copy_loop ss d (Suc i) buf (copied + unat need_copy) 0 (left - need_copy)
               (memcpy (buf + copied) (unat need_copy) (d b) (unat off) mem)))"
  by pat_completeness auto


termination
proof (relation "measure (\<lambda>(_, _, _, _, _, off, left, _). 2 * unat left + (if off = 0 then 0 else 1))", simp, goal_cases)
  case (1 ss d i buf copied off left mem b need_copy)
  then have l: "left \<noteq> 0" by simp
  have le: "min left (ucast data_buffer_size - off) \<le> left" by simp
  then have sub: "unat (left - min left (ucast data_buffer_size - off)) = unat left - unat (min left (ucast data_buffer_size - off))"
    by (simp add: unat_sub)
  have "2 * unat (left - min left (ucast data_buffer_size - off)) < 2 * unat left + (if off = 0 then 0 else 1)"
  proof (cases "off = 0")
    case True
    then have "min left (ucast data_buffer_size - off) \<noteq> 0" using l by (simp add: min_def data_buffer_size_def)
    then have "0 < unat (min left (ucast data_buffer_size - off))" by (simp add: unat_gt_0)
    moreover have "0 < unat left" using l by (simp add: unat_gt_0)
    ultimately show ?thesis unfolding sub by simp
  qed (simp add: sub)
  then show ?case using 1 by simp
qed

declare copy_loop.simps [simp del]

definition copy_to_buf :: "task_id \<Rightarrow> nat \<Rightarrow> u64 \<Rightarrow> u64 \<Rightarrow> 'a world_scheme \<Rightarrow> 'a world_scheme res" where
  "copy_to_buf t buf off len w =
     rbind (deref t w) (\<lambda>x.
       rbind (copy_loop (req_segs (io_request x)) (dma w) 0 buf 0 off len (umem w)) (\<lambda>m. Ok (w\<lparr>umem := m\<rparr>)))"

subsection \<open>The buffer pool\<close>

text \<open>The first loop of \<open>alloc_buf_from_pool\<close>: \<open>n\<close> more segments, from index \<open>i\<close> on. The
  16-bit index of the source cannot wrap: the count is at most the size of the pool.\<close>

fun take_bufs :: "nat \<Rightarrow> nat \<Rightarrow> segs \<Rightarrow> buf_id list \<Rightarrow> (segs \<times> buf_id list) res" where
  "take_bufs 0 i ss pool = Ok (ss, pool)"
| "take_bufs (Suc n) i ss [] = Fault AssertFail"
| "take_bufs (Suc n) i ss (b # pool) =
     (if i < length ss then take_bufs n (Suc i) (ss[i := Some b]) pool else Fault Undefined)"

text \<open>The second loop and the copy of the rest: \<open>n\<close> whole buffers, then \<open>t->len - len\<close> bytes.\<close>

fun fill_bufs :: "segs \<Rightarrow> (nat \<Rightarrow> u8) \<Rightarrow> nat \<Rightarrow> u64 \<Rightarrow> nat \<Rightarrow> nat \<Rightarrow> u32 \<Rightarrow> (buf_id \<Rightarrow> nat \<Rightarrow> u8) \<Rightarrow> (buf_id \<Rightarrow> nat \<Rightarrow> u8) res" where
  "fill_bufs ss m buf tlen 0 i len d =
     rbind (seg_at ss i) (\<lambda>b. let rest = unat (tlen - ucast len) in
       if unat data_buffer_size < rest then Fault Undefined
       else Ok (d(b := memcpy 0 rest m (buf + unat len) (d b))))"
| "fill_bufs ss m buf tlen (Suc n) i len d =
     rbind (seg_at ss i) (\<lambda>b.
       fill_bufs ss m buf tlen n (Suc i) (len + data_buffer_size)
         (d(b := memcpy 0 (unat data_buffer_size) m (buf + unat len) (d b))))"

definition seg_count :: "u64 \<Rightarrow> u64" where
  "seg_count len = (let count = len div ucast data_buffer_size in
     if len mod ucast data_buffer_size \<noteq> 0 then count + 1 else count)"

text \<open>\<open>Ok (-ENOMEM, w)\<close> when the pool has too few buffers.\<close>

definition alloc_buf_from_pool :: "task_id \<Rightarrow> bool \<Rightarrow> 'a world_scheme \<Rightarrow> (int \<times> 'a world_scheme) res" where
  "alloc_buf_from_pool t write w =
     rbind (deref t w) (\<lambda>x. let count = seg_count (t_len x); r = io_request x in
       if length (data_buf_list w) < unat count then Ok (- ENOMEM, w)
       else let extra = (ucast inline_segment_num < count);
                segs0 = (if extra then replicate (unat count) None else inline_segs r) in
         rbind (take_bufs (unat count) 0 segs0 (data_buf_list w)) (\<lambda>(ss, pool).
           let r = r\<lparr>inline_segs := (if extra then inline_segs r else ss),
                     extra_segs := (if extra then Some ss else extra_segs r), nseg := ucast count\<rparr>;
               w = put_task t (x\<lparr>io_request := r\<rparr>)
                     (w\<lparr>data_buf_list := pool, ioc := (ioc w)\<lparr>total_nseg := total_nseg (ioc w) + int (unat count)\<rparr>\<rparr>) in
           if write
           then rbind (fill_bufs ss (umem w) (t_buf x) (t_len x) (unat (count - 1)) 0 0 (dma w))
                  (\<lambda>d. Ok (0, w\<lparr>dma := d\<rparr>))
           else Ok (0, w)))"

subsection \<open>The scatter-gather callbacks\<close>

text \<open>\<open>k\<close> is the number of iterations that \<open>i < nseg\<close> still allows.\<close>

fun reset_loop :: "nat \<Rightarrow> u32 \<Rightarrow> u32 \<Rightarrow> u32 \<Rightarrow> u64 \<Rightarrow> u32 \<times> u32" where
  "reset_loop 0 i offset sgl_offset len = (i, offset)"
| "reset_loop (Suc k) i offset sgl_offset len =
     (let offset = offset + data_buffer_size in
      if sgl_offset < offset then (i, if len < ucast offset then ucast len else offset)
      else reset_loop k (i + 1) offset sgl_offset len)"

definition data_buf_reset_sgl :: "u32 \<Rightarrow> task \<Rightarrow> task res" where
  "data_buf_reset_sgl sgl_offset x =
     (let i = sgl_offset div data_buffer_size; offset = i * data_buffer_size; r = io_request x in
      c_assert (unat i \<le> unat (nseg r))
        (case reset_loop (unat (nseg r) - unat i) i offset sgl_offset (t_len x) of (i, offset) \<Rightarrow>
           Ok (x\<lparr>io_request := r\<lparr>cur_seg_idx := ucast i, cur_seg_left := offset - sgl_offset\<rparr>\<rparr>)))"

text \<open>The address is a buffer and the offset in it; \<open>None\<close> is the null address of the end.\<close>

definition data_buf_next_sge :: "task \<Rightarrow> ((buf_id \<times> u32) option \<times> u32 \<times> task) res" where
  "data_buf_next_sge x =
     (let r = io_request x in
      if nseg r \<le> cur_seg_idx r then Ok (None, 0, x)
      else rbind (seg_at (req_segs r) (unat (cur_seg_idx r))) (\<lambda>b.
        let tail = t_len x mod ucast data_buffer_size;
            size = (if unat (cur_seg_idx r) = unat (nseg r) - 1 \<and> tail \<noteq> 0 then ucast tail else data_buffer_size) in
        if cur_seg_left r \<noteq> 0
        then Ok (Some (b, size - cur_seg_left r), cur_seg_left r,
                 x\<lparr>io_request := r\<lparr>cur_seg_left := 0, cur_seg_idx := cur_seg_idx r + 1\<rparr>\<rparr>)
        else Ok (Some (b, 0), size, x\<lparr>io_request := r\<lparr>cur_seg_idx := cur_seg_idx r + 1\<rparr>\<rparr>)))"

subsection \<open>Payloads\<close>

text \<open>Byte \<open>p\<close> of the payload that lies in the buffers \<open>bs\<close>.\<close>

definition payload :: "(buf_id \<Rightarrow> nat \<Rightarrow> u8) \<Rightarrow> buf_id list \<Rightarrow> nat \<Rightarrow> u8" where
  "payload d bs p = d (bs ! (p div 8192)) (p mod 8192)"

definition nbufs :: "nat \<Rightarrow> nat" where
  "nbufs len = (len + 8191) div 8192"

text \<open>The segment array starts with the buffers \<open>bs\<close>.\<close>

definition segs_are :: "segs \<Rightarrow> buf_id list \<Rightarrow> bool" where
  "segs_are ss bs \<longleftrightarrow> length bs \<le> length ss \<and> (\<forall>i < length bs. ss ! i = Some (bs ! i))"

definition loaded :: "task \<Rightarrow> buf_id list \<Rightarrow> bool" where
  "loaded x bs \<longleftrightarrow> unat (nseg (io_request x)) = length bs \<and> length bs = nbufs (unat (t_len x))
     \<and> length bs \<le> 1024 \<and> segs_are (req_segs (io_request x)) bs \<and> distinct bs"

lemma unat_dbs [simp]: "unat data_buffer_size = 8192"
  by (simp add: data_buffer_size_def)

lemma ucast_dbs [simp]: "ucast data_buffer_size = (8192 :: u64)"
  by (simp add: data_buffer_size_def)

lemma unat_ucast_16_64 [simp]: "unat (ucast (x :: u16) :: u64) = unat x"
  using unsigned_less [of x, where ?'a = nat] by (simp add: unsigned_ucast_eq take_bit_nat_eq_self)

lemma unat_ucast_16_32 [simp]: "unat (ucast (x :: u16) :: u32) = unat x"
  using unsigned_less [of x, where ?'a = nat] by (simp add: unsigned_ucast_eq take_bit_nat_eq_self)

lemma unat_ucast_32_64 [simp]: "unat (ucast (x :: u32) :: u64) = unat x"
  using unsigned_less [of x, where ?'a = nat] by (simp add: unsigned_ucast_eq take_bit_nat_eq_self)

lemma unat_ucast_64_16: "unat x < 2 ^ 16 \<Longrightarrow> unat (ucast (x :: u64) :: u16) = unat x"
  by (simp add: unsigned_ucast_eq take_bit_nat_eq_self)

lemma unat_ucast_32_16: "unat x < 2 ^ 16 \<Longrightarrow> unat (ucast (x :: u32) :: u16) = unat x"
  by (simp add: unsigned_ucast_eq take_bit_nat_eq_self)

lemma unat_ucast_64_32: "unat x < 2 ^ 32 \<Longrightarrow> unat (ucast (x :: u64) :: u32) = unat x"
  by (simp add: unsigned_ucast_eq take_bit_nat_eq_self)

lemma div_mod_8192:
  fixes n :: nat
  obtains q r where "n div 8192 = q" "n mod 8192 = r" "n = q * 8192 + r" "r < 8192"
  by (metis div_mult_mod_eq mod_less_divisor zero_less_numeral)

lemma nbufs_eq: "nbufs len = len div 8192 + (if len mod 8192 = 0 then 0 else 1)"
proof (rule div_mod_8192 [of len])
  fix q r
  assume "len div 8192 = q" "len mod 8192 = r" "len = q * 8192 + r" "r < 8192"
  then show ?thesis unfolding nbufs_def by (intro div_nat_eqI) auto
qed

lemma unat_seg_count: "unat (seg_count len) = nbufs (unat len)"
proof -
  have d: "unat (len div 8192) = unat len div 8192" "unat (len mod 8192) = unat len mod 8192"
    by (simp_all add: unat_div unat_mod)
  have "unat (len div 8192 + 1) = unat len div 8192 + 1"
  proof -
    have "unat len div 8192 + 1 < 2 ^ 64" using unsigned_less [of len, where ?'a = nat] by simp
    then show ?thesis using d(1) by (simp add: unat_word_ariths)
  qed
  moreover have "len mod 8192 = 0 \<longleftrightarrow> unat len mod 8192 = 0"
    using d(2) by (metis unat_eq_0)
  ultimately show ?thesis
    by (simp add: seg_count_def Let_def nbufs_eq d(1))
qed

lemma nbufs_bounds: "0 < len \<Longrightarrow> 0 < nbufs len \<and> (nbufs len - 1) * 8192 < len \<and> len \<le> nbufs len * 8192"
  by (rule div_mod_8192 [of len]) (auto simp: nbufs_eq)

lemma nbufs_le: "len \<le> n * 8192 \<Longrightarrow> nbufs len \<le> n"
  by (rule div_mod_8192 [of len]) (auto simp: nbufs_eq)

lemma pos_nbufs: "p < len \<Longrightarrow> p div 8192 < nbufs len"
  using nbufs_bounds [of len] by (simp add: less_mult_imp_div_less)

lemma seg_at_segs_are: "segs_are ss bs \<Longrightarrow> i < length bs \<Longrightarrow> seg_at ss i = Ok (bs ! i)"
  by (auto simp: seg_at_def segs_are_def)

subsection \<open>Taking buffers\<close>

lemma take_bufs_Ok:
  "n \<le> length pool \<Longrightarrow> i + n \<le> length ss \<Longrightarrow>
    \<exists>ss'. take_bufs n i ss pool = Ok (ss', drop n pool) \<and> length ss' = length ss
      \<and> (\<forall>j < n. ss' ! (i + j) = Some (pool ! j)) \<and> (\<forall>j < i. ss' ! j = ss ! j)"
proof (induction n arbitrary: i ss pool)
  case (Suc n)
  obtain b pool' where pool: "pool = b # pool'" using Suc.prems(1) by (cases pool) auto
  obtain ss' where ss': "take_bufs n (Suc i) (ss[i := Some b]) pool' = Ok (ss', drop n pool')"
      "length ss' = length ss" "\<forall>j < n. ss' ! (Suc i + j) = Some (pool' ! j)" "\<forall>j < Suc i. ss' ! j = ss[i := Some b] ! j"
    using Suc.IH [of pool' "Suc i" "ss[i := Some b]"] Suc.prems pool by auto
  have "ss' ! (i + j) = Some (pool ! j)" if "j < Suc n" for j
    using that ss'(3,4) Suc.prems(2) by (cases j) (simp_all add: pool)
  then show ?case
    using ss' Suc.prems(2) by (auto simp: pool)
qed simp

lemma take_bufs_segs_are:
  assumes "n \<le> length pool" "n \<le> length ss"
  shows "\<exists>ss'. take_bufs n 0 ss pool = Ok (ss', drop n pool) \<and> segs_are ss' (take n pool)"
  using take_bufs_Ok [of n pool 0 ss] assms by (auto simp: segs_are_def)

subsection \<open>Filling buffers\<close>

lemma payload_update_other:
  assumes "distinct bs" "i < length bs" "p div 8192 < length bs" "p div 8192 \<noteq> i"
  shows "payload (d(bs ! i := f)) bs p = payload d bs p"
  using assms by (simp add: payload_def nth_eq_iff_index_eq)

lemma fill_bufs_Ok:
  assumes "segs_are ss bs" "distinct bs" "length bs \<le> 1024"
    and "(length bs - 1) * 8192 < unat tlen" "unat tlen \<le> length bs * 8192"
  shows "i + n + 1 = length bs \<Longrightarrow> unat len = i * 8192 \<Longrightarrow>
    \<exists>d'. fill_bufs ss m buf tlen n i len d = Ok d'
      \<and> (\<forall>p. i * 8192 \<le> p \<and> p < unat tlen \<longrightarrow> payload d' bs p = m (buf + p))
      \<and> (\<forall>b. b \<notin> set (drop i bs) \<longrightarrow> d' b = d b)"
proof (induction n arbitrary: i len d)
  case 0
  have i: "i < length bs" using 0 by simp
  have l: "ucast len \<le> tlen" using assms(4) 0 by (simp add: word_le_nat_alt)
  have rest: "unat (tlen - ucast len) = unat tlen - i * 8192"
    using 0 unat_sub [OF l] by simp
  have le: "unat tlen - i * 8192 \<le> 8192" using assms(5) 0 by auto
  let ?d = "d(bs ! i := memcpy 0 (unat tlen - i * 8192) m (buf + unat len) (d (bs ! i)))"
  have "payload ?d bs p = m (buf + p)" if "i * 8192 \<le> p" "p < unat tlen" for p
  proof -
    have "p div 8192 = i" using that le by (intro div_nat_eqI) simp_all
    moreover have "p mod 8192 = p - i * 8192" using calculation by (metis minus_div_mult_eq_mod)
    moreover have "p - i * 8192 < unat tlen - i * 8192" using that by linarith
    ultimately show ?thesis using that 0(2) by (simp add: payload_def memcpy_def)
  qed
  moreover have "\<forall>b. b \<notin> set (drop i bs) \<longrightarrow> ?d b = d b"
    using i by (metis Cons_nth_drop_Suc fun_upd_other list.set_intros(1))
  moreover have "fill_bufs ss m buf tlen 0 i len d = Ok ?d"
    using seg_at_segs_are [OF assms(1) i] le by (simp add: rest)
  ultimately show ?case by blast
next
  case (Suc n)
  have i: "i < length bs" using Suc.prems by simp
  have len: "unat (len + data_buffer_size) = Suc i * 8192"
  proof -
    have "unat len + 8192 < 2 ^ 32" using Suc.prems assms(3) by simp
    then show ?thesis using Suc.prems(2) by (simp add: unat_word_ariths)
  qed
  let ?d = "d(bs ! i := memcpy 0 8192 m (buf + unat len) (d (bs ! i)))"
  have "Suc i + n + 1 = length bs" using Suc.prems(1) by simp
  from Suc.IH [OF this len, of ?d]
  obtain d' where d': "fill_bufs ss m buf tlen n (Suc i) (len + data_buffer_size) ?d = Ok d'"
      "\<forall>p. Suc i * 8192 \<le> p \<and> p < unat tlen \<longrightarrow> payload d' bs p = m (buf + p)"
      "\<forall>b. b \<notin> set (drop (Suc i) bs) \<longrightarrow> d' b = ?d b"
    by blast
  have dr: "set (drop i bs) = insert (bs ! i) (set (drop (Suc i) bs))" "bs ! i \<notin> set (drop (Suc i) bs)"
    using i assms(2) by (metis Cons_nth_drop_Suc list.simps(15), metis Cons_nth_drop_Suc distinct.simps(2) distinct_drop)
  have "payload d' bs p = m (buf + p)" if p: "i * 8192 \<le> p" "p < unat tlen" for p
  proof (cases "Suc i * 8192 \<le> p")
    case False
    have "p div 8192 = i" using p False by (intro div_nat_eqI) simp_all
    moreover have "p mod 8192 = p - i * 8192" using calculation by (metis minus_div_mult_eq_mod)
    moreover have "d' (bs ! i) = ?d (bs ! i)" using d'(3) dr(2) by blast
    moreover have "p - i * 8192 < 8192" using p(1) False by simp
    ultimately show ?thesis using p False Suc.prems(2) by (simp add: payload_def memcpy_def)
  qed (use d'(2) p in blast)
  moreover have "\<forall>b. b \<notin> set (drop i bs) \<longrightarrow> d' b = d b" using d'(3) dr(1) by auto
  ultimately show ?case using d'(1) seg_at_segs_are [OF assms(1) i] by simp
qed

text \<open>A task whose segments are empty, as a new one is.\<close>

definition unloaded :: "task \<Rightarrow> bool" where
  "unloaded x \<longleftrightarrow> nseg (io_request x) = 0 \<and> extra_segs (io_request x) = None
     \<and> length (inline_segs (io_request x)) = 32"

lemma unat_inline [simp]: "unat inline_segment_num = 32"
  by (simp add: inline_segment_num_def)

lemma ucast_inline [simp]: "ucast inline_segment_num = (32 :: u64)"
  by (simp add: inline_segment_num_def)

lemma alloc_none:
  "tasks w t = Some x \<Longrightarrow> length (data_buf_list w) < nbufs (unat (t_len x)) \<Longrightarrow> alloc_buf_from_pool t write w = Ok (- ENOMEM, w)"
  by (simp add: alloc_buf_from_pool_def deref_def unat_seg_count)

lemma alloc_Ok:
  assumes x: "tasks w t = Some x" "unloaded x" and len: "0 < unat (t_len x)" "unat (t_len x) \<le> 262144"
    and pool: "nbufs (unat (t_len x)) \<le> length (data_buf_list w)" "distinct (data_buf_list w)"
  defines "n \<equiv> nbufs (unat (t_len x))"
  shows "\<exists>r d. alloc_buf_from_pool t write w = Ok (0, put_task t (x\<lparr>io_request := r\<rparr>)
      (w\<lparr>data_buf_list := drop n (data_buf_list w), ioc := (ioc w)\<lparr>total_nseg := total_nseg (ioc w) + int n\<rparr>, dma := d\<rparr>))
    \<and> loaded (x\<lparr>io_request := r\<rparr>) (take n (data_buf_list w)) \<and> extra_segs r = None \<and> length (inline_segs r) = 32
    \<and> (write \<longrightarrow> (\<forall>p < unat (t_len x). payload d (take n (data_buf_list w)) p = umem w (t_buf x + p)))
    \<and> (\<forall>b. b \<notin> set (take n (data_buf_list w)) \<longrightarrow> d b = dma w b) \<and> (write \<or> d = dma w)"
proof -
  define bs where "bs = take n (data_buf_list w)"
  have n: "0 < n" "(n - 1) * 8192 < unat (t_len x)" "unat (t_len x) \<le> n * 8192" "n \<le> 32"
    using nbufs_bounds [OF len(1)] nbufs_le [of "unat (t_len x)" 32] len(2) by (simp_all add: n_def)
  have c: "unat (seg_count (t_len x)) = n" by (simp add: unat_seg_count n_def)
  have bs: "length bs = n" "distinct bs" using pool by (simp_all add: bs_def n_def)
  have ni: "\<not> 32 < seg_count (t_len x)" using c n(4) by (simp add: word_less_nat_alt)
  have li: "length (inline_segs (io_request x)) = 32" using x(2) by (simp add: unloaded_def)
  obtain ss where ss: "take_bufs n 0 (inline_segs (io_request x)) (data_buf_list w) = Ok (ss, drop n (data_buf_list w))"
      "segs_are ss bs" "length ss = 32"
    using take_bufs_Ok [of n "data_buf_list w" 0 "inline_segs (io_request x)"] n(4) li pool(1)
    by (auto simp: bs_def n_def segs_are_def)
  define r where "r = (io_request x)\<lparr>inline_segs := ss, extra_segs := None, nseg := ucast (seg_count (t_len x))\<rparr>"
  have ns: "unat (nseg r) = n" using c n(4) by (simp add: r_def unat_ucast_64_16)
  have ld: "loaded (x\<lparr>io_request := r\<rparr>) bs"
    using ns bs ss(2) n(4) by (simp add: loaded_def n_def req_segs_def) (simp add: r_def)
  have c1: "unat (seg_count (t_len x) - 1) = n - 1"
    using c n(1) by (subst unat_minus_one) (auto simp: unat_eq_0 [symmetric])
  obtain d where d: "fill_bufs ss (umem w) (t_buf x) (t_len x) (n - 1) 0 0 (dma w) = Ok d"
      "\<forall>p < unat (t_len x). payload d bs p = umem w (t_buf x + p)" "\<forall>b. b \<notin> set bs \<longrightarrow> d b = dma w b"
    using fill_bufs_Ok [OF ss(2) bs(2), of "t_len x" 0 "n - 1" 0 "umem w" "t_buf x" "dma w"] bs(1) n by auto
  have ex: "extra_segs (io_request x) = None" using x(2) by (simp add: unloaded_def)
  define d' where "d' = (if write then d else dma w)"
  have eq: "alloc_buf_from_pool t write w = Ok (0, put_task t (x\<lparr>io_request := r\<rparr>)
      (w\<lparr>data_buf_list := drop n (data_buf_list w), ioc := (ioc w)\<lparr>total_nseg := total_nseg (ioc w) + int n\<rparr>, dma := d'\<rparr>))"
  proof -
    have "\<not> length (data_buf_list w) < n" using pool(1) by (simp add: n_def)
    then show ?thesis
      using x(1) ni ss(1) d(1) ex
      by (cases "write")
        (simp_all add: alloc_buf_from_pool_def deref_def c c1 Let_def r_def put_task_def d'_def)
  qed
  show ?thesis
    unfolding eq bs_def [symmetric]
    by (intro exI [of _ r] exI [of _ d'] conjI refl ld)
      (use d(2,3) ss(3) in \<open>auto simp: r_def d'_def\<close>)
qed

subsection \<open>Giving buffers back\<close>

lemma push_segs_Ok:
  "segs_are ss bs \<Longrightarrow> i + n \<le> length bs \<Longrightarrow> push_segs ss n i pool = Ok (rev (take n (drop i bs)) @ pool)"
proof (induction n arbitrary: i pool)
  case (Suc n)
  have "take (Suc n) (drop i bs) = bs ! i # take n (drop (Suc i) bs)"
    using Suc.prems(2) by (metis Cons_nth_drop_Suc Suc_le_lessD add_Suc_right add_leD1 le_add1 le_trans not_less_eq_eq take_Suc_Cons)
  then show ?case
    using Suc.IH [OF Suc.prems(1), of "Suc i" "bs ! i # pool"] Suc.prems seg_at_segs_are [OF Suc.prems(1), of i] by simp
qed simp

lemma release_Ok:
  assumes "tasks w t = Some x" "loaded x bs" "extra_segs (io_request x) = None"
  shows "release_segs t w = Ok (put_task t (x\<lparr>io_request := (io_request x)\<lparr>nseg := 0\<rparr>\<rparr>)
    (w\<lparr>data_buf_list := rev bs @ data_buf_list w,
       ioc := (ioc w)\<lparr>total_nseg := total_nseg (ioc w) - int (length bs)\<rparr>\<rparr>))"
  using assms push_segs_Ok [of "req_segs (io_request x)" bs 0 "length bs" "data_buf_list w"]
  by (simp add: release_segs_def deref_def loaded_def Let_def)

subsection \<open>Copying out\<close>

lemma copy_loop_Ok:
  "segs_are ss bs \<Longrightarrow> i * 8192 + unat off + unat left \<le> length bs * 8192 \<Longrightarrow> unat off \<le> 8192 \<Longrightarrow>
    copy_loop ss d i buf copied off left mem = Ok (\<lambda>a.
      if buf + copied \<le> a \<and> a < buf + copied + unat left
      then payload d bs (i * 8192 + unat off + (a - (buf + copied))) else mem a)"
proof (induction ss d i buf copied off left mem rule: copy_loop.induct)
  case (1 ss d i buf copied off left mem)
  show ?case
  proof (cases "left = 0")
    case True
    then show ?thesis by (subst copy_loop.simps) (auto simp: fun_eq_iff)
  next
    case False
    then have lp: "0 < unat left" by (simp add: unat_gt_0)
    have i: "i < length bs" using "1.prems" lp by linarith
    have sa: "seg_at ss i = Ok (bs ! i)" by (rule seg_at_segs_are [OF "1.prems"(1) i])
    define nc where "nc = min left (8192 - off)"
    have o: "unat (8192 - off) = 8192 - unat off"
      using "1.prems"(3) by (simp add: unat_sub word_le_nat_alt)
    have nc: "unat nc = min (unat left) (8192 - unat off)"
      using o by (auto simp: nc_def min_def word_le_nat_alt)
    have rest: "unat (left - nc) = unat left - unat nc"
      by (intro unat_sub) (simp add: nc_def)
    have fits: "unat off + unat nc \<le> 8192" using nc "1.prems"(3) by simp
    then have nf: "(unat data_buffer_size < unat off + unat nc) = False" by simp
    have nc': "min left (ucast data_buffer_size - off) = nc" by (simp add: nc_def)
    define mem' where "mem' = memcpy (buf + copied) (unat nc) (d (bs ! i)) (unat off) mem"
    have step: "copy_loop ss d i buf copied off left mem = copy_loop ss d (Suc i) buf (copied + unat nc) 0 (left - nc) mem'"
      by (subst copy_loop.simps) (simp only: False if_False sa rbind_Inr Let_def nc' nf mem'_def)
    have pre: "Suc i * 8192 + unat (0 :: u64) + unat (left - nc) \<le> length bs * 8192"
      using "1.prems"(2,3) i nc rest by simp
    have IH: "copy_loop ss d (Suc i) buf (copied + unat nc) 0 (left - nc) mem' = Ok (\<lambda>a.
      if buf + (copied + unat nc) \<le> a \<and> a < buf + (copied + unat nc) + unat (left - nc)
      then payload d bs (Suc i * 8192 + unat (0 :: u64) + (a - (buf + (copied + unat nc)))) else mem' a)"
      unfolding mem'_def by (rule "1.IH" [OF False nc' [symmetric] _ "1.prems"(1) pre]) (use fits in simp_all)
    have "(if buf + (copied + unat nc) \<le> a \<and> a < buf + (copied + unat nc) + unat (left - nc)
      then payload d bs (Suc i * 8192 + unat (0 :: u64) + (a - (buf + (copied + unat nc)))) else mem' a)
      = (if buf + copied \<le> a \<and> a < buf + copied + unat left
      then payload d bs (i * 8192 + unat off + (a - (buf + copied))) else mem a)" (is "?l = ?r") for a
    proof -
      consider (out) "a < buf + copied \<or> buf + copied + unat left \<le> a"
        | (here) "buf + copied \<le> a" "a < buf + copied + unat nc"
        | (later) "buf + copied + unat nc \<le> a" "a < buf + copied + unat left" by linarith
      then show ?thesis
      proof cases
        case out
        then show ?thesis using rest nc by (auto simp: mem'_def memcpy_def)
      next
        case here
        define q where "q = unat off + (a - (buf + copied))"
        have q: "q < 8192" using here fits by (simp add: q_def)
        then have "payload d bs (i * 8192 + q) = d (bs ! i) q" by (simp add: payload_def)
        moreover have "a < buf + copied + unat left" using here(2) nc by linarith
        ultimately show ?thesis using here by (simp add: mem'_def memcpy_def q_def add.assoc)
      next
        case later
        then have "unat nc + unat off = 8192" using nc "1.prems"(3) by linarith
        moreover obtain e where e: "a = buf + copied + unat nc + e" using later(1) le_Suc_ex by blast
        have "a - (buf + (copied + unat nc)) = e" "a - (buf + copied) = unat nc + e" by (simp_all add: e)
        ultimately have "Suc i * 8192 + (a - (buf + (copied + unat nc))) = i * 8192 + unat off + (a - (buf + copied))"
          by simp
        then have eq: "Suc i * 8192 + unat (0 :: u64) + (a - (buf + (copied + unat nc))) = i * 8192 + unat off + (a - (buf + copied))"
          by (simp only: unsigned_0 add_0_right)
        have "unat nc \<le> unat left" using nc by simp
        then have c: "buf + (copied + unat nc) \<le> a \<and> a < buf + (copied + unat nc) + unat (left - nc)"
          using later rest by linarith
        have c': "buf + copied \<le> a \<and> a < buf + copied + unat left" using later by linarith
        show ?thesis by (simp only: c c' if_True simp_thms eq)
      qed
    qed
    then show ?thesis unfolding step IH by simp
  qed
qed

subsection \<open>Walking the scatter-gather list\<close>

text \<open>\<open>n\<close> calls of \<open>data_buf_next_sge\<close>, as the driver makes them after a reset.\<close>

fun sgl_walk :: "nat \<Rightarrow> task \<Rightarrow> (((buf_id \<times> u32) option \<times> u32) list \<times> task) res" where
  "sgl_walk 0 x = Ok ([], x)"
| "sgl_walk (Suc n) x = rbind (data_buf_next_sge x)
     (\<lambda>(a, l, x). rbind (sgl_walk n x) (\<lambda>(es, x). Ok ((a, l) # es, x)))"

definition sge_bytes :: "(buf_id \<times> u32) option \<times> u32 \<Rightarrow> (buf_id \<times> nat) list" where
  "sge_bytes e = (case fst e of None \<Rightarrow> [] | Some (b, a) \<Rightarrow> map (\<lambda>j. (b, unat a + j)) [0..<unat (snd e)])"

definition positions :: "buf_id list \<Rightarrow> nat \<Rightarrow> nat \<Rightarrow> (buf_id \<times> nat) list" where
  "positions bs a e = map (\<lambda>p. (bs ! (p div 8192), p mod 8192)) [a..<e]"

lemma positions_append: "a \<le> b \<Longrightarrow> b \<le> c \<Longrightarrow> positions bs a b @ positions bs b c = positions bs a c"
  using upt_add_eq_append [of a b "c - b"] unfolding positions_def map_append [symmetric] by simp

lemma positions_seg:
  assumes "i * 8192 \<le> a" "a \<le> e" "e \<le> (i + 1) * 8192"
  shows "positions bs a e = map (\<lambda>j. (bs ! i, a - i * 8192 + j)) [0..<e - a]"
proof (rule nth_equalityI)
  show "length (positions bs a e) = length (map (\<lambda>j. (bs ! i, a - i * 8192 + j)) [0..<e - a])"
    by (simp add: positions_def)
  fix j assume "j < length (positions bs a e)"
  then have j: "j < e - a" by (simp add: positions_def)
  define q where "q = a - i * 8192 + j"
  have q: "a + j = i * 8192 + q" "q < 8192" using j assms by (simp_all add: q_def)
  have "positions bs a e ! j = (bs ! ((a + j) div 8192), (a + j) mod 8192)" using j by (simp add: positions_def)
  also have "\<dots> = (bs ! i, q)" using q(2) by (simp add: q(1))
  finally show "positions bs a e ! j = map (\<lambda>j. (bs ! i, a - i * 8192 + j)) [0..<e - a] ! j"
    using j by (simp add: q_def)
qed

text \<open>The end of segment \<open>i\<close> in a payload of \<open>len\<close> bytes.\<close>

definition seg_end :: "nat \<Rightarrow> nat \<Rightarrow> nat" where
  "seg_end len i = min len ((i + 1) * 8192)"

lemma loadedD:
  assumes "loaded x bs"
  shows "unat (nseg (io_request x)) = length bs" "length bs = nbufs (unat (t_len x))" "length bs \<le> 1024"
    "segs_are (req_segs (io_request x)) bs" "distinct bs" "unat (t_len x) \<le> length bs * 8192"
    "0 < unat (t_len x) \<Longrightarrow> (length bs - 1) * 8192 < unat (t_len x)" "unat (t_len x) \<le> 8388608"
proof -
  show *: "unat (nseg (io_request x)) = length bs" "length bs = nbufs (unat (t_len x))" "length bs \<le> 1024"
    "segs_are (req_segs (io_request x)) bs" "distinct bs"
    using assms by (simp_all add: loaded_def)
  show le: "unat (t_len x) \<le> length bs * 8192" "0 < unat (t_len x) \<Longrightarrow> (length bs - 1) * 8192 < unat (t_len x)"
    using nbufs_bounds [of "unat (t_len x)"] *(2) by (cases "unat (t_len x) = 0"; simp)+
  show "unat (t_len x) \<le> 8388608" using le(1) *(3) by linarith
qed

text \<open>Moving the cursor keeps the buffers.\<close>

definition at_seg :: "task \<Rightarrow> nat \<Rightarrow> nat \<Rightarrow> task \<Rightarrow> bool" where
  "at_seg x i left y \<longleftrightarrow> (\<exists>c l. y = x\<lparr>io_request := (io_request x)\<lparr>cur_seg_idx := c, cur_seg_left := l\<rparr>\<rparr>
     \<and> unat c = i \<and> unat l = left)"

lemma at_segD:
  assumes "at_seg x i left y"
  shows "unat (cur_seg_idx (io_request y)) = i" "unat (cur_seg_left (io_request y)) = left" "t_len y = t_len x"
    "nseg (io_request y) = nseg (io_request x)" "req_segs (io_request y) = req_segs (io_request x)"
  using assms by (auto simp: at_seg_def req_segs_def split: option.splits)

lemma at_seg_update:
  "at_seg x i left y \<Longrightarrow> unat c = i' \<Longrightarrow> unat l = left' \<Longrightarrow>
    at_seg x i' left' (y\<lparr>io_request := (io_request y)\<lparr>cur_seg_left := l, cur_seg_idx := c\<rparr>\<rparr>)"
  unfolding at_seg_def by (elim exE conjE, intro exI [of _ c] exI [of _ l], cases "io_request x") simp

lemma reset_sgl_Ok:
  assumes "loaded x bs" "unat off < unat (t_len x)"
  shows "\<exists>y. data_buf_reset_sgl off x = Ok y
    \<and> at_seg x (unat off div 8192) (seg_end (unat (t_len x)) (unat off div 8192) - unat off) y"
proof -
  note L = loadedD [OF assms(1)]
  define i where "i = unat off div 8192"
  obtain r where r: "unat off = i * 8192 + r" "r < 8192"
    using div_mod_8192 [of "unat off"] unfolding i_def by metis
  have i: "unat (off div data_buffer_size) = i" by (simp add: unat_div i_def)
  have ib: "i < length bs" using pos_nbufs [OF assms(2)] L(2) by (simp add: i_def)
  then have i1024: "i < 1024" using L(3) by simp
  define o1 where "o1 = (off div data_buffer_size) * data_buffer_size + data_buffer_size"
  have o1: "unat o1 = (i + 1) * 8192"
    using i i1024 by (simp add: o1_def unat_word_ariths)
  have lt: "off < o1" using o1 r by (simp add: word_less_nat_alt)
  obtain k where k: "length bs - i = Suc k" using ib by (metis Suc_diff_Suc)
  define o2 where "o2 = (if t_len x < ucast o1 then ucast (t_len x) else o1)"
  have o2: "unat o2 = seg_end (unat (t_len x)) i"
    using L(8) o1 by (auto simp: o2_def seg_end_def word_less_nat_alt unat_ucast_64_32)
  have rl: "reset_loop (length bs - i) (off div data_buffer_size) (off div data_buffer_size * data_buffer_size) off (t_len x)
      = (off div data_buffer_size, o2)"
    using lt unfolding k by (simp add: Let_def o2_def flip: o1_def)
  have "unat off \<le> unat o2" using o2 assms(2) r by (auto simp: seg_end_def)
  then have left: "unat (o2 - off) = seg_end (unat (t_len x)) i - unat off"
    using o2 by (simp add: unat_sub word_le_nat_alt)
  have ci: "unat (ucast (off div data_buffer_size) :: u16) = i"
    using i i1024 by (simp add: unat_ucast_32_16)
  have "data_buf_reset_sgl off x = Ok (x\<lparr>io_request := (io_request x)
      \<lparr>cur_seg_idx := ucast (off div data_buffer_size), cur_seg_left := o2 - off\<rparr>\<rparr>)"
    using rl ib L(1) i by (simp add: data_buf_reset_sgl_def Let_def)
  then show ?thesis
    unfolding i_def [symmetric] using ci left by (auto simp: at_seg_def)
qed

lemma next_sge_Ok:
  assumes "loaded x bs" "at_seg x i left y" "i < length bs" "left \<le> seg_end (unat (t_len x)) i - i * 8192" "0 < unat (t_len x)"
  defines "e \<equiv> seg_end (unat (t_len x)) i"
  defines "a \<equiv> (if left = 0 then i * 8192 else e - left)"
  shows "\<exists>ad l z. data_buf_next_sge y = Ok (ad, l, z) \<and> sge_bytes (ad, l) = positions bs a e
    \<and> at_seg x (i + 1) 0 z"
proof -
  note L = loadedD [OF assms(1)] and Y = at_segD [OF assms(2)]
  define tail where "tail = t_len x mod (8192 :: u64)"
  define size where "size = (if i = length bs - 1 \<and> tail \<noteq> 0 then ucast tail else data_buffer_size)"
  have ut: "unat tail = unat (t_len x) mod 8192" by (simp add: tail_def unat_mod)
  have size: "unat size = e - i * 8192"
  proof (cases "i = length bs - 1")
    case True
    show ?thesis
    proof (rule div_mod_8192 [of "unat (t_len x)"])
      fix q r assume d: "unat (t_len x) div 8192 = q" "unat (t_len x) mod 8192 = r" "unat (t_len x) = q * 8192 + r" "r < 8192"
      have n: "length bs = q + (if r = 0 then 0 else 1)" using L(2) d by (simp add: nbufs_eq)
      have t0: "tail = 0 \<longleftrightarrow> r = 0" using ut d(2) by (metis unat_eq_0)
      show ?thesis
      proof (cases "r = 0")
        case True
        then show ?thesis using n d(3) t0 \<open>i = length bs - 1\<close> assms(3) by (simp add: size_def e_def seg_end_def)
      next
        case False
        then have "i = q" using n \<open>i = length bs - 1\<close> by simp
        moreover have "unat (ucast tail :: u32) = r" using ut d(2,4) by (simp add: unat_ucast_64_32)
        ultimately show ?thesis using False d(3,4) t0 n by (simp add: size_def e_def seg_end_def)
      qed
    qed
  next
    case False
    then have "(i + 1) * 8192 \<le> (length bs - 1) * 8192" using assms(3) by (intro mult_le_mono1) simp
    then have "(i + 1) * 8192 < unat (t_len x)" using L(7) assms(5) by linarith
    then show ?thesis using False by (simp add: size_def e_def seg_end_def)
  qed
  have sa: "seg_at (req_segs (io_request y)) i = Ok (bs ! i)"
    using seg_at_segs_are [OF L(4) assms(3)] by (simp add: Y)
  have ge: "i * 8192 \<le> e" "e \<le> (i + 1) * 8192"
  proof -
    have "i * 8192 \<le> (length bs - 1) * 8192" using assms(3) by (intro mult_le_mono1) simp
    then show "i * 8192 \<le> e" using L(7) assms(5) by (simp add: e_def seg_end_def)
  qed (simp add: e_def seg_end_def)
  have nl: "\<not> nseg (io_request y) \<le> cur_seg_idx (io_request y)"
    using Y L(1) assms(3) by (simp add: word_le_nat_alt)
  have inc: "unat (cur_seg_idx (io_request y) + 1) = i + 1"
    using Y(1) assms(3) L(3) by (simp add: unat_word_ariths)
  have last: "unat (cur_seg_idx (io_request y)) = unat (nseg (io_request y)) - 1 \<longleftrightarrow> i = length bs - 1"
    using Y L(1) by simp
  have sz: "(if unat (cur_seg_idx (io_request y)) = unat (nseg (io_request y)) - 1 \<and> t_len y mod ucast data_buffer_size \<noteq> 0
      then ucast (t_len y mod ucast data_buffer_size) else data_buffer_size) = size"
    using last Y(3) by (simp add: size_def tail_def)
  show ?thesis
  proof (cases "left = 0")
    case True
    then have l0: "cur_seg_left (io_request y) = 0" using Y(2) by (simp add: unat_eq_0)
    let ?z = "y\<lparr>io_request := (io_request y)\<lparr>cur_seg_idx := cur_seg_idx (io_request y) + 1\<rparr>\<rparr>"
    have "data_buf_next_sge y = Ok (Some (bs ! i, 0), size, ?z)"
      using nl sa l0 Y(1) unfolding data_buf_next_sge_def Let_def sz by simp
    moreover have "at_seg x (i + 1) 0 ?z"
      using at_seg_update [OF assms(2) inc, of 0 0] l0 by (cases y; cases "io_request y") simp
    moreover have "sge_bytes (Some (bs ! i, 0), size) = positions bs a e"
      using positions_seg [of i a e bs] ge True by (simp add: sge_bytes_def size a_def)
    ultimately show ?thesis by blast
  next
    case False
    then have l0: "cur_seg_left (io_request y) \<noteq> 0" using Y(2) by (metis unsigned_0)
    let ?l = "cur_seg_left (io_request y)"
    let ?z = "y\<lparr>io_request := (io_request y)\<lparr>cur_seg_left := 0, cur_seg_idx := cur_seg_idx (io_request y) + 1\<rparr>\<rparr>"
    have "data_buf_next_sge y = Ok (Some (bs ! i, size - ?l), ?l, ?z)"
      using nl sa l0 Y(1) unfolding data_buf_next_sge_def Let_def sz by simp
    moreover have "at_seg x (i + 1) 0 ?z"
      using at_seg_update [OF assms(2) inc, of 0 0] by simp
    moreover have "sge_bytes (Some (bs ! i, size - ?l), ?l) = positions bs a e"
    proof -
      have "unat (size - ?l) = e - i * 8192 - left"
        using assms(4) Y(2) size by (simp add: unat_sub word_le_nat_alt e_def)
      then show ?thesis
        using positions_seg [of i a e bs] ge False assms(4) Y(2) by (simp add: sge_bytes_def a_def e_def [symmetric] diff_commute add.commute [of left])
    qed
    ultimately show ?thesis by blast
  qed
qed

lemma sgl_walk_Ok:
  assumes "loaded x bs" "0 < unat (t_len x)"
  shows "at_seg x i 0 y \<Longrightarrow> i + n = length bs \<Longrightarrow>
    \<exists>es z. sgl_walk n y = Ok (es, z) \<and> concat (map sge_bytes es) = positions bs (i * 8192) (unat (t_len x))
      \<and> at_seg x (length bs) 0 z"
proof (induction n arbitrary: i y)
  case 0
  then show ?case using loadedD(6) [OF assms(1)] by (simp add: positions_def)
next
  case (Suc n)
  let ?e = "seg_end (unat (t_len x)) i"
  obtain ad l z where z: "data_buf_next_sge y = Ok (ad, l, z)" "sge_bytes (ad, l) = positions bs (i * 8192) ?e" "at_seg x (i + 1) 0 z"
    using next_sge_Ok [OF assms(1) Suc.prems(1) _ _ assms(2)] Suc.prems(2) by auto
  obtain es u where u: "sgl_walk n z = Ok (es, u)" "concat (map sge_bytes es) = positions bs ((i + 1) * 8192) (unat (t_len x))"
      "at_seg x (length bs) 0 u"
    using Suc.IH [OF z(3)] Suc.prems(2) by auto
  have "positions bs (i * 8192) ?e @ positions bs ((i + 1) * 8192) (unat (t_len x)) = positions bs (i * 8192) (unat (t_len x))"
  proof (cases "(i + 1) * 8192 \<le> unat (t_len x)")
    case True
    then have "?e = (i + 1) * 8192" by (simp add: seg_end_def)
    then show ?thesis using positions_append [of "i * 8192" "(i + 1) * 8192" "unat (t_len x)" bs] True by simp
  next
    case False
    then show ?thesis by (simp add: seg_end_def positions_def)
  qed
  then show ?case using z u by (intro exI [of _ "(ad, l) # es"] exI [of _ u]) simp
qed

lemma copy_loop_start:
  assumes "segs_are ss bs" "unat off + unat left \<le> length bs * 8192" "unat off \<le> 8192"
  shows "copy_loop ss d 0 buf 0 off left mem = Ok (\<lambda>a.
    if buf \<le> a \<and> a < buf + unat left then payload d bs (unat off + (a - buf)) else mem a)"
  using copy_loop_Ok [OF assms(1), of 0 off left d buf 0 mem] assms(2,3) by (simp cong: if_cong)

subsection \<open>Properties\<close>

text \<open>A world with one fresh task 0 of the given length, whose data the caller keeps at address
  1000, and ten buffers in the pool.\<close>

definition sample_task :: "io_command \<Rightarrow> u64 \<Rightarrow> task" where
  "sample_task c len = \<lparr>command = c, t_offset = 0, t_len = len, t_buf = 1000, fill_cb = None, t_next = None,
     return_code = 0, primary = None, io_request = new_io_request, t_queue = False, t_ref = 0\<rparr>"

definition sample_world :: "io_command \<Rightarrow> u64 \<Rightarrow> world" where
  "sample_world c len = \<lparr>tasks = [0 \<mapsto> sample_task c len], next_task = 1, ioc = new_ioc None False,
     data_buf_list = [0..<10], dma = (\<lambda>_ _. 0), umem = (\<lambda>a. of_nat a), callbacks = []\<rparr>"

lemma unloaded_new: "unloaded (x\<lparr>io_request := new_io_request\<rparr>)"
  by (simp add: unloaded_def new_io_request_def)

lemma sample_unloaded: "unloaded (sample_task c len)"
  by (simp add: unloaded_def new_io_request_def sample_task_def)

text \<open>C11: the two scatter-gather callbacks describe the payload exactly: after a reset to any offset
  inside it, the calls that are left give, concatenated, the bytes from that offset to the end of
  the task, in order and each once; one more call gives the empty element.\<close>

theorem sgl_enumerates:
  assumes "loaded x bs" "unat off < unat (t_len x)"
  shows "\<exists>y es z. data_buf_reset_sgl off x = Ok y \<and> sgl_walk (length bs - unat off div 8192) y = Ok (es, z)
    \<and> concat (map sge_bytes es) = positions bs (unat off) (unat (t_len x))
    \<and> data_buf_next_sge z = Ok (None, 0, z)"
proof -
  let ?i = "unat off div 8192" and ?e = "seg_end (unat (t_len x)) (unat off div 8192)"
  obtain r where r: "unat off = ?i * 8192 + r" "r < 8192" using div_mod_8192 [of "unat off"] by metis
  have pos: "0 < unat (t_len x)" using assms(2) by simp
  have i: "?i < length bs" using pos_nbufs [OF assms(2)] loadedD(2) [OF assms(1)] by simp
  obtain y where y: "data_buf_reset_sgl off x = Ok y" "at_seg x ?i (?e - unat off) y"
    using reset_sgl_Ok [OF assms] by blast
  have e: "unat off < ?e" "?e \<le> unat (t_len x)" using assms(2) r by (auto simp: seg_end_def)
  have "?i * 8192 \<le> unat off" by simp
  then have le: "?e - unat off \<le> ?e - ?i * 8192" by (intro diff_le_mono2)
  obtain ad l u where u: "data_buf_next_sge y = Ok (ad, l, u)" "sge_bytes (ad, l) = positions bs (unat off) ?e" "at_seg x (?i + 1) 0 u"
    using next_sge_Ok [OF assms(1) y(2) i le pos] e by auto
  have n: "?i + 1 + (length bs - (?i + 1)) = length bs" using i by simp
  obtain es z where z: "sgl_walk (length bs - (?i + 1)) u = Ok (es, z)"
      "concat (map sge_bytes es) = positions bs ((?i + 1) * 8192) (unat (t_len x))" "at_seg x (length bs) 0 z"
    using sgl_walk_Ok [OF assms(1) pos u(3) n] by blast
  have "positions bs (unat off) ?e @ positions bs ((?i + 1) * 8192) (unat (t_len x)) = positions bs (unat off) (unat (t_len x))"
  proof (cases "(?i + 1) * 8192 \<le> unat (t_len x)")
    case True
    then have "?e = (?i + 1) * 8192" by (simp add: seg_end_def)
    then show ?thesis using positions_append [of "unat off" ?e "unat (t_len x)" bs] e by simp
  next
    case False
    then show ?thesis by (simp add: seg_end_def positions_def)
  qed
  moreover have "length bs - ?i = Suc (length bs - (?i + 1))" using i by simp
  moreover have "nseg (io_request z) \<le> cur_seg_idx (io_request z)"
    using at_segD(1,4) [OF z(3)] loadedD(1) [OF assms(1)] by (simp add: word_le_nat_alt)
  then have "data_buf_next_sge z = Ok (None, 0, z)" by (simp add: data_buf_next_sge_def)
  ultimately show ?thesis
    using y(1) u(1,2) z(1,2) by (intro exI [of _ y] exI [of _ "(ad, l) # es"] exI [of _ z]) simp
qed

definition sample_loaded :: task where
  "sample_loaded = (sample_task READ_COMMAND 20480)\<lparr>io_request :=
     new_io_request\<lparr>nseg := 3, inline_segs := map Some [7, 5, 6] @ replicate 29 None\<rparr>\<rparr>"

lemma sample_loaded_loaded: "loaded sample_loaded [7, 5, 6]"
  by (auto simp: loaded_def sample_loaded_def sample_task_def nbufs_def segs_are_def req_segs_def new_io_request_def
      less_Suc_eq)

lemma sgl_enumerates_witness:
  "\<exists>y es z. data_buf_reset_sgl 4096 sample_loaded = Ok y \<and> sgl_walk 3 y = Ok (es, z)
     \<and> concat (map sge_bytes es) = positions [7, 5, 6] 4096 20480"
proof -
  have "unat (4096 :: u32) < unat (t_len sample_loaded)" "unat (t_len sample_loaded) = 20480"
    by (simp_all add: sample_loaded_def sample_task_def)
  from sgl_enumerates [OF sample_loaded_loaded this(1)] this(2) show ?thesis
    by (simp add: numeral_3_eq_3 del: sgl_walk.simps) blast
qed

text \<open>\<open>alloc_buf_from_pool\<close> on a fresh task of at most 32 segments takes the first
  ceil(len / 8192) buffers of the pool in order, and for a write gathers the caller's bytes into
  them; without enough buffers it answers \<open>-ENOMEM\<close> and changes nothing.\<close>

theorem alloc_gathers:
  assumes "tasks w t = Some x" "unloaded x" "0 < unat (t_len x)" "unat (t_len x) \<le> 262144" "distinct (data_buf_list w)"
  shows "if length (data_buf_list w) < nbufs (unat (t_len x))
    then alloc_buf_from_pool t wr w = Ok (- ENOMEM, w)
    else \<exists>w' x' bs. alloc_buf_from_pool t wr w = Ok (0, w') \<and> tasks w' = (tasks w)(t \<mapsto> x') \<and> loaded x' bs
      \<and> data_buf_list w = bs @ data_buf_list w' \<and> total_nseg (ioc w') = total_nseg (ioc w) + int (length bs)
      \<and> umem w' = umem w
      \<and> (wr \<longrightarrow> (\<forall>p < unat (t_len x). payload (dma w') bs p = umem w (t_buf x + p)))
      \<and> (\<forall>b. b \<notin> set bs \<longrightarrow> dma w' b = dma w b)"
proof (cases "length (data_buf_list w) < nbufs (unat (t_len x))")
  case True
  then show ?thesis using alloc_none [OF assms(1)] by simp
next
  case False
  let ?n = "nbufs (unat (t_len x))"
  have le: "?n \<le> length (data_buf_list w)" using False by simp
  from alloc_Ok [OF assms(1-4) le assms(5), of wr] obtain r d where
    A: "alloc_buf_from_pool t wr w = Ok (0, put_task t (x\<lparr>io_request := r\<rparr>) (w\<lparr>data_buf_list := drop ?n (data_buf_list w),
          ioc := (ioc w)\<lparr>total_nseg := total_nseg (ioc w) + int ?n\<rparr>, dma := d\<rparr>))"
      "loaded (x\<lparr>io_request := r\<rparr>) (take ?n (data_buf_list w))"
      "wr \<longrightarrow> (\<forall>p < unat (t_len x). payload d (take ?n (data_buf_list w)) p = umem w (t_buf x + p))"
      "\<forall>b. b \<notin> set (take ?n (data_buf_list w)) \<longrightarrow> d b = dma w b"
    by blast
  define w' where "w' = put_task t (x\<lparr>io_request := r\<rparr>) (w\<lparr>data_buf_list := drop ?n (data_buf_list w),
      ioc := (ioc w)\<lparr>total_nseg := total_nseg (ioc w) + int ?n\<rparr>, dma := d\<rparr>)"
  have w': "tasks w' = (tasks w)(t \<mapsto> x\<lparr>io_request := r\<rparr>)" "data_buf_list w' = drop ?n (data_buf_list w)"
    "total_nseg (ioc w') = total_nseg (ioc w) + int ?n" "umem w' = umem w" "dma w' = d"
    by (simp_all add: w'_def put_task_def)
  have len: "length (take ?n (data_buf_list w)) = ?n" using le by simp
  show ?thesis
    unfolding if_not_P [OF False]
  proof (intro exI conjI)
    show "alloc_buf_from_pool t wr w = Ok (0, w')" using A(1) by (simp only: w'_def)
    show "tasks w' = (tasks w)(t \<mapsto> x\<lparr>io_request := r\<rparr>)" "umem w' = umem w" by (fact w')+
    show "loaded (x\<lparr>io_request := r\<rparr>) (take ?n (data_buf_list w))" by (rule A(2))
    show "data_buf_list w = take ?n (data_buf_list w) @ data_buf_list w'" by (simp only: w'(2) append_take_drop_id)
    show "total_nseg (ioc w') = total_nseg (ioc w) + int (length (take ?n (data_buf_list w)))"
      by (simp only: w'(3) len)
    show "wr \<longrightarrow> (\<forall>p < unat (t_len x). payload (dma w') (take ?n (data_buf_list w)) p = umem w (t_buf x + p))"
      unfolding w'(5) by (rule A(3))
    show "\<forall>b. b \<notin> set (take ?n (data_buf_list w)) \<longrightarrow> dma w' b = dma w b" unfolding w'(5) by (rule A(4))
  qed
qed

lemma alloc_gathers_witness:
  "\<exists>w' x' bs. alloc_buf_from_pool 0 True (sample_world WRITE_COMMAND 20480) = Ok (0, w') \<and> loaded x' bs
     \<and> (\<forall>p < 20480. payload (dma w') bs p = of_nat (1000 + p))"
proof -
  let ?w = "sample_world WRITE_COMMAND 20480" and ?x = "sample_task WRITE_COMMAND 20480"
  have w: "tasks ?w 0 = Some ?x" "0 < unat (t_len ?x)" "unat (t_len ?x) \<le> 262144" "distinct (data_buf_list ?w)"
    by (simp_all add: sample_world_def sample_task_def)
  have f: "\<not> length (data_buf_list ?w) < nbufs (unat (t_len ?x))"
    by (simp add: sample_world_def sample_task_def nbufs_def)
  from alloc_gathers [OF w(1) sample_unloaded w(2-4), of True, unfolded if_not_P [OF f]]
  obtain w' x' bs where "alloc_buf_from_pool 0 True ?w = Ok (0, w')" "loaded x' bs"
      "\<forall>p < unat (t_len ?x). payload (dma w') bs p = umem ?w (t_buf ?x + p)" by blast
  moreover have "umem ?w (t_buf ?x + p) = of_nat (1000 + p)" "unat (t_len ?x) = 20480" for p
    by (simp_all add: sample_world_def sample_task_def)
  ultimately show ?thesis by auto
qed

text \<open>Buffers are conserved: releasing the segments of an allocated task puts exactly its buffers
  back, and the segment counter returns to its value.\<close>

theorem alloc_release_conserves:
  assumes "tasks w t = Some x" "unloaded x" "0 < unat (t_len x)" "unat (t_len x) \<le> 262144" "distinct (data_buf_list w)"
    and "alloc_buf_from_pool t wr w = Ok (0, w')"
  shows "\<exists>w''. release_segs t w' = Ok w'' \<and> mset (data_buf_list w'') = mset (data_buf_list w)
    \<and> total_nseg (ioc w'') = total_nseg (ioc w) \<and> (\<exists>y. tasks w'' t = Some y \<and> nseg (io_request y) = 0)"
proof -
  let ?n = "nbufs (unat (t_len x))"
  have le: "?n \<le> length (data_buf_list w)"
    using alloc_none [OF assms(1)] assms(6) by (cases "length (data_buf_list w) < ?n") simp_all
  from alloc_Ok [OF assms(1-4) le assms(5), of wr] obtain r d where
    A: "w' = put_task t (x\<lparr>io_request := r\<rparr>) (w\<lparr>data_buf_list := drop ?n (data_buf_list w),
          ioc := (ioc w)\<lparr>total_nseg := total_nseg (ioc w) + int ?n\<rparr>, dma := d\<rparr>)"
      "loaded (x\<lparr>io_request := r\<rparr>) (take ?n (data_buf_list w))" "extra_segs r = None"
    using assms(6) by auto
  have t: "tasks w' t = Some (x\<lparr>io_request := r\<rparr>)" by (simp add: A(1) put_task_def)
  have "mset (rev (take ?n (data_buf_list w)) @ drop ?n (data_buf_list w)) = mset (data_buf_list w)"
    by (metis append_take_drop_id mset_append mset_rev)
  moreover have "length (take ?n (data_buf_list w)) = ?n" using le by simp
  ultimately show ?thesis
    using release_Ok [OF t A(2)] A(3) by (simp add: A(1) put_task_def)
qed

lemma alloc_release_conserves_witness:
  "\<exists>w' w''. alloc_buf_from_pool 0 True (sample_world WRITE_COMMAND 20480) = Ok (0, w')
     \<and> release_segs 0 w' = Ok w'' \<and> mset (data_buf_list w'') = mset [0..<10]"
proof -
  let ?w = "sample_world WRITE_COMMAND 20480" and ?x = "sample_task WRITE_COMMAND 20480"
  have w: "tasks ?w 0 = Some ?x" "0 < unat (t_len ?x)" "unat (t_len ?x) \<le> 262144" "distinct (data_buf_list ?w)"
      "nbufs (unat (t_len ?x)) \<le> length (data_buf_list ?w)"
    by (simp_all add: sample_world_def sample_task_def nbufs_def)
  then obtain w' where w': "alloc_buf_from_pool 0 True ?w = Ok (0, w')"
    using alloc_Ok [OF w(1) sample_unloaded w(2,3,5,4), of True] by blast
  from alloc_release_conserves [OF w(1) sample_unloaded w(2,3,4) w'] w' show ?thesis
    by (auto simp: sample_world_def)
qed

text \<open>\<open>copy_to_buf\<close> with a skip of at most one segment copies exactly the requested slice of the
  payload to the caller's buffer and touches no other byte.\<close>

theorem copy_to_buf_slice:
  assumes "tasks w t = Some x" "loaded x bs" "unat off \<le> 8192" "unat off + unat len \<le> length bs * 8192"
  shows "copy_to_buf t buf off len w = Ok (w\<lparr>umem := (\<lambda>a. if buf \<le> a \<and> a < buf + unat len
    then payload (dma w) bs (unat off + (a - buf)) else umem w a)\<rparr>)"
  using copy_loop_start [OF loadedD(4) [OF assms(2)] assms(4,3)] assms(1)
  by (simp add: copy_to_buf_def deref_def)

lemma copy_to_buf_slice_witness:
  "copy_to_buf 0 50 100 9000 (sample_world READ_COMMAND 20480\<lparr>tasks := [0 \<mapsto> sample_loaded]\<rparr>)
     = Ok (sample_world READ_COMMAND 20480\<lparr>tasks := [0 \<mapsto> sample_loaded],
         umem := (\<lambda>a. if 50 \<le> a \<and> a < 9050 then 0 else of_nat a)\<rparr>)"
  using copy_to_buf_slice [OF _ sample_loaded_loaded, of "sample_world READ_COMMAND 20480\<lparr>tasks := [0 \<mapsto> sample_loaded]\<rparr>" 0 100 9000 50]
  by (simp add: sample_world_def payload_def cong: if_cong)

text \<open>A skip of more than one segment (a block size above 8192 bytes makes \<open>read_random\<close> ask for
  it) is copied from outside the first buffer: the 64-bit difference in the source wraps.\<close>

theorem copy_to_buf_skip_overrun:
  assumes "tasks w t = Some x" "loaded x bs" "bs \<noteq> []" "8192 < unat off" "unat off + unat len < 2 ^ 64" "len \<noteq> 0"
  shows "copy_to_buf t buf off len w = Fault Undefined"
proof -
  have o: "unat (8192 - off) = 2 ^ 64 + 8192 - unat off"
    using assms(4) unat_sub_if' [of "8192 :: u64" off] unsigned_less [of off, where ?'a = nat]
    by (simp add: word_le_nat_alt)
  have "unat (min len (8192 - off)) = unat len"
    using assms(5) o by (auto simp: min_def word_le_nat_alt)
  moreover have "0 < unat len" using assms(6) by (simp add: unat_gt_0)
  ultimately have c: "8192 < unat off + unat (min len (8192 - off))" using assms(4) by linarith
  have "seg_at (req_segs (io_request x)) 0 = Ok (bs ! 0)"
    using seg_at_segs_are [OF loadedD(4) [OF assms(2)]] assms(3) by simp
  then have "copy_loop (req_segs (io_request x)) (dma w) 0 buf 0 off len (umem w) = Fault Undefined"
    using assms(6) c by (subst copy_loop.simps) (simp add: Let_def)
  then show ?thesis using assms(1) by (simp add: copy_to_buf_def deref_def)
qed

lemma copy_to_buf_skip_overrun_witness:
  "copy_to_buf 0 50 12288 512 (sample_world READ_COMMAND 20480\<lparr>tasks := [0 \<mapsto> sample_loaded]\<rparr>) = Fault Undefined"
  by (rule copy_to_buf_skip_overrun [OF _ sample_loaded_loaded]) (simp_all add: sample_world_def)

text \<open>C24: what is gathered for a write and then copied out by \<open>copy_to_buf\<close> is the caller's data.\<close>

theorem gather_scatter_roundtrip:
  assumes "tasks w t = Some x" "unloaded x" "0 < unat (t_len x)" "unat (t_len x) \<le> 262144" "distinct (data_buf_list w)"
    and "alloc_buf_from_pool t True w = Ok (0, w')"
  shows "\<exists>w''. copy_to_buf t buf 0 (t_len x) w' = Ok w''
    \<and> (\<forall>p < unat (t_len x). umem w'' (buf + p) = umem w (t_buf x + p))"
proof -
  let ?n = "nbufs (unat (t_len x))"
  have le: "?n \<le> length (data_buf_list w)"
    using alloc_none [OF assms(1)] assms(6) by (cases "length (data_buf_list w) < ?n") simp_all
  from alloc_Ok [OF assms(1-4) le assms(5), of True] obtain r d where
    A: "w' = put_task t (x\<lparr>io_request := r\<rparr>) (w\<lparr>data_buf_list := drop ?n (data_buf_list w),
          ioc := (ioc w)\<lparr>total_nseg := total_nseg (ioc w) + int ?n\<rparr>, dma := d\<rparr>)"
      "loaded (x\<lparr>io_request := r\<rparr>) (take ?n (data_buf_list w))"
      "\<forall>p < unat (t_len x). payload d (take ?n (data_buf_list w)) p = umem w (t_buf x + p)"
    using assms(6) by auto
  have t: "tasks w' t = Some (x\<lparr>io_request := r\<rparr>)" by (simp add: A(1) put_task_def)
  have L: "unat (t_len x) \<le> length (take ?n (data_buf_list w)) * 8192" using loadedD(6) [OF A(2)] by simp
  have "copy_loop (req_segs r) (dma w') 0 buf 0 0 (t_len x) (umem w') = Ok (\<lambda>a.
      if buf \<le> a \<and> a < buf + unat (t_len x) then payload (dma w') (take ?n (data_buf_list w)) (a - buf) else umem w' a)"
    using copy_loop_start [OF loadedD(4) [OF A(2)], of 0 "t_len x" "dma w'" buf "umem w'"] L
    by (simp cong: if_cong)
  then show ?thesis
    using A(3) t by (simp add: copy_to_buf_def deref_def) (simp add: A(1) put_task_def)
qed

lemma gather_scatter_roundtrip_witness:
  "\<exists>w' w''. alloc_buf_from_pool 0 True (sample_world WRITE_COMMAND 20480) = Ok (0, w')
     \<and> copy_to_buf 0 90000 0 20480 w' = Ok w'' \<and> umem w'' 90001 = of_nat 1001"
proof -
  let ?w = "sample_world WRITE_COMMAND 20480" and ?x = "sample_task WRITE_COMMAND 20480"
  have w: "tasks ?w 0 = Some ?x" "0 < unat (t_len ?x)" "unat (t_len ?x) \<le> 262144" "distinct (data_buf_list ?w)"
      "nbufs (unat (t_len ?x)) \<le> length (data_buf_list ?w)"
    by (simp_all add: sample_world_def sample_task_def nbufs_def)
  then obtain w' where w': "alloc_buf_from_pool 0 True ?w = Ok (0, w')"
    using alloc_Ok [OF w(1) sample_unloaded w(2,3,5,4), of True] by blast
  from gather_scatter_roundtrip [OF w(1) sample_unloaded w(2,3,4) w', of 90000]
  obtain w'' where "copy_to_buf 0 90000 0 20480 w' = Ok w''" "\<forall>p < 20480. umem w'' (90000 + p) = of_nat (1000 + p)"
    by (auto simp: sample_world_def sample_task_def)
  then show ?thesis using w' by (auto dest!: spec [of _ 1])
qed

end
