(* ===== verification/Driver_Queue.thy ===== *)
theory Driver_Queue
  imports Nvme_Task
begin

section \<open>The per-thread NVMe queue: blk/spdk/driver\_queue.hpp and blk/spdk/driver\_queue.cpp\<close>

text \<open>
  \<open>SharedDriverQueueData\<close>: the loop \<open>_aio_handle\<close> that submits a chain of tasks and polls
  until the \<open>IOContext\<close> has nothing running, and the completion callback. The SPDK library and
  the device behind it are parameters, the functions of the record \<open>spdk\<close> over a state of their
  own; what is relied on of them is stated below as \<open>spdk_contract\<close>. The library is given, as
  the two scatter-gather callbacks give it, the addresses of the payload bytes.
\<close>

type_synonym dma_mem = "buf_id \<Rightarrow> nat \<Rightarrow> u8"

text \<open>
  \<open>process_completions\<close> answers its return value, the commands for which it called back (with
  an error or not), and the DMA memory, into which reads have been transferred.
\<close>

record 'q spdk =
  cmd_writev :: "u64 \<Rightarrow> u32 \<Rightarrow> task_id \<Rightarrow> (buf_id \<times> nat) list \<Rightarrow> dma_mem \<Rightarrow> 'q \<Rightarrow> int \<times> 'q"
  cmd_readv :: "u64 \<Rightarrow> u32 \<Rightarrow> task_id \<Rightarrow> (buf_id \<times> nat) list \<Rightarrow> 'q \<Rightarrow> int \<times> 'q"
  cmd_flush :: "task_id \<Rightarrow> 'q \<Rightarrow> int \<times> 'q"
  process_completions :: "u32 \<Rightarrow> dma_mem \<Rightarrow> 'q \<Rightarrow> int \<times> (task_id \<times> bool) list \<times> dma_mem \<times> 'q"

record 'q queue = world +
  q_init :: bool
  q_block_size :: u32
  max_queue_depth :: u32
  current_queue_depth :: u32
  qp :: 'q

subsection \<open>Construction\<close>

text \<open>
  \<open>zmalloc i\<close> is the answer of the \<open>i\<close>-th allocation, zeroed memory or null; each buffer is
  pushed to the front of the pool. \<open>qpair\<close> tells whether the queue pair was allocated.
\<close>

fun alloc_pool :: "(nat \<Rightarrow> buf_id option) \<Rightarrow> nat \<Rightarrow> nat \<Rightarrow> 'q queue \<Rightarrow> 'q queue res" where
  "alloc_pool zmalloc 0 i w = Ok w"
| "alloc_pool zmalloc (Suc n) i w =
     (case zmalloc i of
        None \<Rightarrow> Fault AssertFail
      | Some b \<Rightarrow> alloc_pool zmalloc n (Suc i)
          (w\<lparr>data_buf_list := b # data_buf_list w, dma := (dma w)(b := (\<lambda>_. 0))\<rparr>))"

definition queue_construct :: "(nat \<Rightarrow> buf_id option) \<Rightarrow> bool \<Rightarrow> u32 \<Rightarrow> u32 \<Rightarrow> 'q queue \<Rightarrow> 'q queue res" where
  "queue_construct zmalloc qpair bs io_queue_size w =
     c_assert qpair
       (alloc_pool zmalloc (unat data_buffer_default_num) 0
          (w\<lparr>q_init := True, q_block_size := bs, max_queue_depth := io_queue_size - 1, current_queue_depth := 0,
             data_buf_list := []\<rparr>))"

text \<open>The destructor, when the thread ends: the queue pair is freed, and every buffer of the pool.\<close>

definition queue_destruct :: "'q queue \<Rightarrow> buf_id list \<times> 'q queue" where
  "queue_destruct w = (data_buf_list w, w\<lparr>q_init := False, data_buf_list := []\<rparr>)"

subsection \<open>Completion\<close>

definition set_running :: "int \<Rightarrow> 'a world_scheme \<Rightarrow> 'a world_scheme" where
  "set_running n w = w\<lparr>ioc := (ioc w)\<lparr>num_running := n\<rparr>\<rparr>"

text \<open>The end of an asynchronous command: the callback when the last one is done, or a wake-up.\<close>

definition notify_done :: "'a world_scheme \<Rightarrow> 'a world_scheme res" where
  "notify_done w =
     (case ioc_priv (ioc w) of
        Some p \<Rightarrow>
          let w = set_running (num_running (ioc w) - 1) w in
          Ok (if num_running (ioc w) = 0 then w\<lparr>callbacks := callbacks w @ [p]\<rparr> else w)
      | None \<Rightarrow> rbind (try_aio_wake (ioc w)) (\<lambda>c. Ok (w\<lparr>ioc := c\<rparr>)))"

definition run_fill_cb :: "task_id \<Rightarrow> 'a world_scheme \<Rightarrow> 'a world_scheme res" where
  "run_fill_cb t w =
     rbind (deref t w) (\<lambda>x. case fill_cb x of
        None \<Rightarrow> Fault (Throw 0)
      | Some f \<Rightarrow> copy_to_buf t (fill_buf f) (fill_off f) (fill_len f) w)"

definition set_return_code :: "task_id \<Rightarrow> int \<Rightarrow> 'a world_scheme \<Rightarrow> 'a world_scheme res" where
  "set_return_code t rc w = rbind (deref t w) (\<lambda>x. Ok (put_task t (x\<lparr>return_code := rc\<rparr>) w))"

definition io_complete :: "task_id \<Rightarrow> bool \<Rightarrow> 'q queue \<Rightarrow> 'q queue res" where
  "io_complete t is_error w =
     rbind (deref t w) (\<lambda>task.
       c_assert (t_queue task)
         (let w = w\<lparr>current_queue_depth := current_queue_depth w - 1\<rparr> in
          case command task of
            WRITE_COMMAND \<Rightarrow>
              c_assert (\<not> is_error)
                (rbind (notify_done w) (\<lambda>w. rbind (release_segs t w) (\<lambda>w. delete_task t w)))
          | READ_COMMAND \<Rightarrow>
              c_assert (\<not> is_error)
                (rbind (run_fill_cb t w) (\<lambda>w. rbind (release_segs t w) (\<lambda>w.
                   if return_code task = 0
                   then rbind (notify_done w) (\<lambda>w. delete_task t w)
                   else rbind (case primary task of
                            Some q \<Rightarrow> rbind (delete_task t w) (\<lambda>w. rbind (deref q w) (\<lambda>y.
                              if t_ref y = 0 then set_return_code q 0 w else Ok w))
                          | None \<Rightarrow> set_return_code t 0 w)
                        (\<lambda>w. Ok (set_running (num_running (ioc w) - 1) w)))))
          | FLUSH_COMMAND \<Rightarrow> c_assert (\<not> is_error) (set_return_code t 0 w)))"

fun complete_all :: "(task_id \<times> bool) list \<Rightarrow> 'q queue \<Rightarrow> 'q queue res" where
  "complete_all [] w = Ok w"
| "complete_all ((t, e) # cs) w = rbind (io_complete t e w) (complete_all cs)"

subsection \<open>Submission and polling\<close>

text \<open>How the library uses the callbacks: a reset to offset 0, then one element per segment.\<close>

definition gather_sgl :: "task_id \<Rightarrow> 'a world_scheme \<Rightarrow> ((buf_id \<times> nat) list \<times> 'a world_scheme) res" where
  "gather_sgl t w =
     rbind (deref t w) (\<lambda>x. rbind (data_buf_reset_sgl 0 x) (\<lambda>x.
       rbind (sgl_walk (unat (nseg (io_request x))) x) (\<lambda>(es, x).
         Ok (concat (map sge_bytes es), put_task t x w))))"

text \<open>What \<open>_aio_handle\<close> does when the library refuses a command.\<close>

definition submit_failed :: "task_id \<Rightarrow> 'q queue \<Rightarrow> 'b res" where
  "submit_failed t w = rbind (release_segs t w) (\<lambda>w. rbind (delete_task t w) (\<lambda>w. Fault Abort))"

text \<open>One turn of the \<open>switch\<close>. False is \<open>goto again\<close>, for lack of buffers. The sector
  count is passed to the library as 32 bits.\<close>

definition submit_one :: "'q spdk \<Rightarrow> task_id \<Rightarrow> 'q queue \<Rightarrow> (bool \<times> 'q queue) res" where
  "submit_one env t w =
     rbind (deref t w) (\<lambda>x.
       if q_block_size w = 0 then Fault Undefined
       else let w = put_task t (x\<lparr>t_queue := True\<rparr>) w;
                lba_off = t_offset x div ucast (q_block_size w);
                lba_count = t_len x div ucast (q_block_size w) in
       case command x of
         WRITE_COMMAND \<Rightarrow>
           rbind (alloc_buf_from_pool t True w) (\<lambda>(r, w).
             if r < 0 then Ok (False, w)
             else rbind (gather_sgl t w) (\<lambda>(ps, w).
               case cmd_writev env lba_off (ucast lba_count) t ps (dma w) (qp w) of (r, q) \<Rightarrow>
                 let w = w\<lparr>qp := q\<rparr> in
                 if r < 0
                 then submit_failed t (w\<lparr>ioc := (ioc w)\<lparr>nvme_task_first := None, nvme_task_last := None\<rparr>\<rparr>)
                 else Ok (True, w)))
       | READ_COMMAND \<Rightarrow>
           rbind (alloc_buf_from_pool t False w) (\<lambda>(r, w).
             if r < 0 then Ok (False, w)
             else rbind (gather_sgl t w) (\<lambda>(ps, w).
               case cmd_readv env lba_off (ucast lba_count) t ps (qp w) of (r, q) \<Rightarrow>
                 let w = w\<lparr>qp := q\<rparr> in
                 if r < 0 then submit_failed t w else Ok (True, w)))
       | FLUSH_COMMAND \<Rightarrow>
           (case cmd_flush env t (qp w) of (r, q) \<Rightarrow>
              let w = w\<lparr>qp := q\<rparr> in
              if r < 0 then submit_failed t w else Ok (True, w)))"

text \<open>
  \<open>for (; t; t = t->next)\<close>: the answer is the task at which it stopped for lack of a slot or of
  buffers, or \<open>None\<close>. The fuel bounds the length of the chain (\<open>NoReturn\<close>: a cyclic chain).
\<close>

fun submit_chain :: "nat \<Rightarrow> 'q spdk \<Rightarrow> task_id option \<Rightarrow> 'q queue \<Rightarrow> (task_id option \<times> 'q queue) res" where
  "submit_chain n env None w = Ok (None, w)"
| "submit_chain 0 env (Some t) w = Fault NoReturn"
| "submit_chain (Suc n) env (Some t) w =
     (if current_queue_depth w = max_queue_depth w then Ok (Some t, w)
      else rbind (submit_one env t w) (\<lambda>(s, w).
        if s
        then rbind (deref t w) (\<lambda>x.
               submit_chain n env (t_next x) (w\<lparr>current_queue_depth := current_queue_depth w + 1\<rparr>))
        else Ok (Some t, w)))"

definition poll :: "'q spdk \<Rightarrow> 'q queue \<Rightarrow> 'q queue res" where
  "poll env w =
     (if current_queue_depth w \<noteq> 0
      then case process_completions env 0 (dma w) (qp w) of (r, cs, d, q) \<Rightarrow>
        rbind (complete_all cs (w\<lparr>dma := d, qp := q\<rparr>)) (\<lambda>w. if r < 0 then Fault Abort else Ok w)
      else Ok w)"

text \<open>
  The loop. \<open>goto again\<close> enters the body without the test of the \<open>while\<close>, hence the flag
  \<open>test\<close>. The fuel counts turns of the body; the chain has its own.
\<close>

fun aio_handle :: "nat \<Rightarrow> nat \<Rightarrow> 'q spdk \<Rightarrow> bool \<Rightarrow> task_id option \<Rightarrow> 'q queue \<Rightarrow> 'q queue res" where
  "aio_handle 0 m env test t w = (if test \<and> num_running (ioc w) = 0 then Ok w else Fault NoReturn)"
| "aio_handle (Suc k) m env test t w =
     (if test \<and> num_running (ioc w) = 0 then Ok w
      else rbind (poll env w) (\<lambda>w. rbind (submit_chain m env t w) (\<lambda>(t, w).
        aio_handle k m env (t = None) t w)))"

subsection \<open>What is relied on of SPDK and the device\<close>

text \<open>
  A command in flight, as the device sees it: a write of bytes, or a read into DMA addresses, at a
  byte address. \<open>disk\<close>, \<open>inflight\<close> and \<open>idle\<close> are observations of the library's state. The
  contract, for commands in the region \<open>reg\<close> of the disk (all of it, or the part that is the thread's own):
  while fewer than \<open>depth\<close> commands are in flight a well-formed command is accepted and
  its payload captured; a poll calls back, without error, for some commands in flight and forgets
  them; a completed write is on the disk, a completed read is in its DMA addresses; bytes that no
  command in flight names do not change; and a poll with commands in flight either completes one or
  brings the next completion nearer (\<open>idle\<close> falls).
\<close>

datatype nvme_cmd = Wr nat "u8 list" | Rd nat "(buf_id \<times> nat) list"

fun cmd_range :: "nvme_cmd \<Rightarrow> nat set" where
  "cmd_range (Wr a bytes) = {a ..< a + length bytes}"
| "cmd_range (Rd a ps) = {}"

text \<open>All bytes of the disk that a command names.\<close>

fun cmd_span :: "nvme_cmd \<Rightarrow> nat set" where
  "cmd_span (Wr a bytes) = {a ..< a + length bytes}"
| "cmd_span (Rd a ps) = {a ..< a + length ps}"

fun cmd_addrs :: "nvme_cmd \<Rightarrow> (buf_id \<times> nat) set" where
  "cmd_addrs (Wr a bytes) = {}"
| "cmd_addrs (Rd a ps) = set ps"

fun cmd_done :: "nvme_cmd \<Rightarrow> dma_mem \<Rightarrow> (nat \<Rightarrow> u8) \<Rightarrow> bool" where
  "cmd_done (Wr a bytes) d disk \<longleftrightarrow> (\<forall>j < length bytes. disk (a + j) = bytes ! j)"
| "cmd_done (Rd a ps) d disk \<longleftrightarrow> (\<forall>j < length ps. d (fst (ps ! j)) (snd (ps ! j)) = disk (a + j))"

text \<open>Commands in flight that do not touch each other.\<close>

definition independent :: "(task_id \<times> nvme_cmd) list \<Rightarrow> bool" where
  "independent es \<longleftrightarrow> distinct (map fst es)
     \<and> (\<forall>e \<in> set es. \<forall>f \<in> set es. fst e \<noteq> fst f \<longrightarrow>
          cmd_range (snd e) \<inter> cmd_range (snd f) = {} \<and> cmd_addrs (snd e) \<inter> cmd_addrs (snd f) = {})
     \<and> (\<forall>e \<in> set es. case snd e of Wr a bytes \<Rightarrow> True | Rd a ps \<Rightarrow> distinct ps)"

definition accepts :: "'q spdk \<Rightarrow> nat set \<Rightarrow> nat \<Rightarrow> nat \<Rightarrow> ('q \<Rightarrow> nat \<Rightarrow> u8) \<Rightarrow> ('q \<Rightarrow> (task_id \<times> nvme_cmd) list) \<Rightarrow> bool" where
  "accepts env reg bs depth disk inflight \<longleftrightarrow>
     (\<forall>lba n t ps d q. length ps = unat n * bs \<longrightarrow> {unat lba * bs..<unat lba * bs + length ps} \<subseteq> reg \<longrightarrow> length (inflight q) < depth \<longrightarrow>
        (\<exists>q'. cmd_writev env lba n t ps d q = (0, q') \<and> disk q' = disk q
           \<and> inflight q' = inflight q @ [(t, Wr (unat lba * bs) (map (\<lambda>p. d (fst p) (snd p)) ps))])
      \<and> (\<exists>q'. cmd_readv env lba n t ps q = (0, q') \<and> disk q' = disk q
           \<and> inflight q' = inflight q @ [(t, Rd (unat lba * bs) ps)]))"

definition completes :: "'q spdk \<Rightarrow> nat set \<Rightarrow> ('q \<Rightarrow> nat \<Rightarrow> u8) \<Rightarrow> ('q \<Rightarrow> (task_id \<times> nvme_cmd) list) \<Rightarrow> ('q \<Rightarrow> nat) \<Rightarrow> bool" where
  "completes env reg disk inflight idle \<longleftrightarrow>
     (\<forall>d q. independent (inflight q) \<longrightarrow> (\<forall>e \<in> set (inflight q). cmd_span (snd e) \<subseteq> reg) \<longrightarrow>
        (\<exists>ts d' q'. process_completions env 0 d q = (int (length ts), map (\<lambda>t. (t, False)) ts, d', q')
           \<and> distinct ts \<and> set ts \<subseteq> fst ` set (inflight q)
           \<and> inflight q' = filter (\<lambda>e. fst e \<notin> set ts) (inflight q)
           \<and> (\<forall>e \<in> set (inflight q). fst e \<in> set ts \<longrightarrow> cmd_done (snd e) d' (disk q'))
           \<and> (\<forall>a. (\<forall>e \<in> set (inflight q). a \<notin> cmd_range (snd e)) \<longrightarrow> disk q' a = disk q a)
           \<and> (\<forall>b p. (\<forall>e \<in> set (inflight q). (b, p) \<notin> cmd_addrs (snd e)) \<longrightarrow> d' b p = d b p)
           \<and> (inflight q \<noteq> [] \<longrightarrow> ts \<noteq> [] \<or> idle q' < idle q)))"

definition spdk_contract ::
    "'q spdk \<Rightarrow> nat set \<Rightarrow> nat \<Rightarrow> nat \<Rightarrow> ('q \<Rightarrow> nat \<Rightarrow> u8) \<Rightarrow> ('q \<Rightarrow> (task_id \<times> nvme_cmd) list) \<Rightarrow> ('q \<Rightarrow> nat) \<Rightarrow> bool" where
  "spdk_contract env reg bs depth disk inflight idle \<longleftrightarrow>
     accepts env reg bs depth disk inflight \<and> completes env reg disk inflight idle"

text \<open>
  A device that meets the contract: it takes everything, and completes the oldest command at each
  second poll. Its state is the disk, the commands and whether the next poll completes.
\<close>

type_synonym fifo = "(nat \<Rightarrow> u8) \<times> (task_id \<times> nvme_cmd) list \<times> bool"

fun put_bytes :: "nat \<Rightarrow> u8 list \<Rightarrow> (nat \<Rightarrow> u8) \<Rightarrow> (nat \<Rightarrow> u8)" where
  "put_bytes a bytes m = (\<lambda>p. if a \<le> p \<and> p < a + length bytes then bytes ! (p - a) else m p)"

fun put_dma :: "nat \<Rightarrow> (buf_id \<times> nat) list \<Rightarrow> (nat \<Rightarrow> u8) \<Rightarrow> dma_mem \<Rightarrow> dma_mem" where
  "put_dma a [] m d = d"
| "put_dma a ((b, p) # ps) m d = put_dma (a + 1) ps m (d(b := (d b)(p := m a)))"

definition fifo_disk :: "fifo \<Rightarrow> nat \<Rightarrow> u8" where "fifo_disk q = fst q"

definition fifo_inflight :: "fifo \<Rightarrow> (task_id \<times> nvme_cmd) list" where "fifo_inflight q = fst (snd q)"

definition fifo_idle :: "fifo \<Rightarrow> nat" where "fifo_idle q = (if snd (snd q) then 0 else 1)"

definition fifo_spdk :: "nat \<Rightarrow> fifo spdk" where
  "fifo_spdk bs =
     \<lparr>cmd_writev = (\<lambda>lba n t ps d (m, es, r). (0, m, es @ [(t, Wr (unat lba * bs) (map (\<lambda>p. d (fst p) (snd p)) ps))], r)),
      cmd_readv = (\<lambda>lba n t ps (m, es, r). (0, m, es @ [(t, Rd (unat lba * bs) ps)], r)),
      cmd_flush = (\<lambda>t q. (0, q)),
      process_completions = (\<lambda>n d (m, es, r).
        case es of
          [] \<Rightarrow> (0, [], d, m, es, r)
        | (t, c) # es' \<Rightarrow>
            if \<not> r then (0, [], d, m, es, True)
            else (case c of
                Wr a bytes \<Rightarrow> (1, [(t, False)], d, put_bytes a bytes m, es', False)
              | Rd a ps \<Rightarrow> (1, [(t, False)], put_dma a ps m d, m, es', False)))\<rparr>"

lemma put_dma_other: "(b, p) \<notin> set ps \<Longrightarrow> put_dma a ps m d b p = d b p"
  by (induction a ps m d rule: put_dma.induct) auto

lemma put_dma_done: "distinct ps \<Longrightarrow> j < length ps \<Longrightarrow> put_dma a ps m d (fst (ps ! j)) (snd (ps ! j)) = m (a + j)"
proof (induction a ps m d arbitrary: j rule: put_dma.induct)
  case (2 a b p ps m d)
  show ?case
  proof (cases j)
    case 0
    then show ?thesis using 2(2) by (simp add: put_dma_other)
  next
    case (Suc i)
    then show ?thesis using "2.IH" [of i] 2(2,3) by (simp del: fun_upd_apply)
  qed
qed simp

lemma independent_Cons: "independent (e # es) \<Longrightarrow> independent es"
  by (auto simp: independent_def)

lemma fifo_accepts: "accepts (fifo_spdk bs) UNIV bs depth fifo_disk fifo_inflight"
  by (auto simp: accepts_def fifo_spdk_def fifo_disk_def fifo_inflight_def)

lemma fifo_completes: "completes (fifo_spdk bs) UNIV fifo_disk fifo_inflight fifo_idle"
  unfolding completes_def
proof (intro allI impI)
  fix d and q :: fifo
  assume ind: "independent (fifo_inflight q)"
  obtain m es r where q: "q = (m, es, r)" by (cases q)
  define post where "post = (\<lambda>ts d' q'. process_completions (fifo_spdk bs) 0 d q = (int (length ts), map (\<lambda>t. (t, False)) ts, d', q')
           \<and> distinct ts \<and> set ts \<subseteq> fst ` set (fifo_inflight q)
           \<and> fifo_inflight q' = filter (\<lambda>e. fst e \<notin> set ts) (fifo_inflight q)
           \<and> (\<forall>e \<in> set (fifo_inflight q). fst e \<in> set ts \<longrightarrow> cmd_done (snd e) d' (fifo_disk q'))
           \<and> (\<forall>a. (\<forall>e \<in> set (fifo_inflight q). a \<notin> cmd_range (snd e)) \<longrightarrow> fifo_disk q' a = fifo_disk q a)
           \<and> (\<forall>b p. (\<forall>e \<in> set (fifo_inflight q). (b, p) \<notin> cmd_addrs (snd e)) \<longrightarrow> d' b p = d b p)
           \<and> (fifo_inflight q \<noteq> [] \<longrightarrow> ts \<noteq> [] \<or> fifo_idle q' < fifo_idle q))"
  note defs = post_def q fifo_spdk_def fifo_disk_def fifo_inflight_def fifo_idle_def
  have "\<exists>ts d' q'. post ts d' q'"
  proof (cases es)
    case Nil
    then have "post [] d q" by (simp add: defs)
    then show ?thesis by blast
  next
    case (Cons e es')
    obtain t c where e: "e = (t, c)" by (cases e)
    show ?thesis
    proof (cases r)
      case False
      then have "post [] d (m, es, True)" using Cons e by (simp add: defs)
      then show ?thesis by blast
    next
      case True
      have ind': "independent ((t, c) # es')" using ind by (simp add: fifo_inflight_def q Cons e)
      then have other: "fst f \<noteq> t" if "f \<in> set es'" for f
        using that by (force simp: independent_def)
      have flt: "filter (\<lambda>f. fst f \<notin> {t}) es' = es'"
        using other by (intro filter_True) simp
      show ?thesis
      proof (cases c)
        case (Wr a bytes)
        have "post [t] d (put_bytes a bytes m, es', False)"
          using True Cons e Wr flt other by (auto simp: defs)
        then show ?thesis by blast
      next
        case (Rd a ps)
        have dp: "distinct ps" using ind' Rd by (simp add: independent_def)
        have "post [t] (put_dma a ps m d) (m, es', False)"
          using True Cons e Rd flt other put_dma_done [OF dp] by (auto simp: defs put_dma_other)
        then show ?thesis by blast
      qed
    qed
  qed
  then show "\<exists>ts d' q'. process_completions (fifo_spdk bs) 0 d q = (int (length ts), map (\<lambda>t. (t, False)) ts, d', q')
           \<and> distinct ts \<and> set ts \<subseteq> fst ` set (fifo_inflight q)
           \<and> fifo_inflight q' = filter (\<lambda>e. fst e \<notin> set ts) (fifo_inflight q)
           \<and> (\<forall>e \<in> set (fifo_inflight q). fst e \<in> set ts \<longrightarrow> cmd_done (snd e) d' (fifo_disk q'))
           \<and> (\<forall>a. (\<forall>e \<in> set (fifo_inflight q). a \<notin> cmd_range (snd e)) \<longrightarrow> fifo_disk q' a = fifo_disk q a)
           \<and> (\<forall>b p. (\<forall>e \<in> set (fifo_inflight q). (b, p) \<notin> cmd_addrs (snd e)) \<longrightarrow> d' b p = d b p)
           \<and> (fifo_inflight q \<noteq> [] \<longrightarrow> ts \<noteq> [] \<or> fifo_idle q' < fifo_idle q)"
    unfolding post_def .
qed

lemma fifo_contract: "spdk_contract (fifo_spdk bs) UNIV bs depth fifo_disk fifo_inflight fifo_idle"
  using fifo_accepts fifo_completes by (simp add: spdk_contract_def)

subsection \<open>A submission and its invariant\<close>

text \<open>
  The constants of one call of \<open>_aio_handle\<close>: the tasks as they were built and their chain, the
  pool, the segment counter, the disk and the caller's memory at the start, the block size; and what
  else the state had at the start: the other tasks, the I/O context but for its counters, the
  callbacks and wake-ups so far. \<open>c_sync\<close> tells whether the tasks belong to a synchronous read,
  and \<open>c_primary\<close> is the task that stands for the whole of a split one.
\<close>

record run_cfg =
  c_task :: "task_id \<Rightarrow> task"
  c_ts :: "task_id list"
  c_pool :: "buf_id list"
  c_nseg :: int
  c_disk :: "nat \<Rightarrow> u8"
  c_umem :: "nat \<Rightarrow> u8"
  c_reg :: "nat set"
  c_bs :: nat
  c_heap :: "task_id \<Rightarrow> task option"
  c_ioc :: io_context
  c_callbacks :: "nat list"
  c_notified :: nat
  c_primary :: "task_id option"
  c_sync :: bool

abbreviation c_off :: "run_cfg \<Rightarrow> task_id \<Rightarrow> nat" where "c_off c t \<equiv> unat (t_offset (c_task c t))"
abbreviation c_len :: "run_cfg \<Rightarrow> task_id \<Rightarrow> nat" where "c_len c t \<equiv> unat (t_len (c_task c t))"

definition cfg_cmd :: "run_cfg \<Rightarrow> task_id \<Rightarrow> buf_id list \<Rightarrow> nvme_cmd" where
  "cfg_cmd c t bs =
     (if command (c_task c t) = WRITE_COMMAND
      then Wr (c_off c t) (map (\<lambda>p. c_umem c (t_buf (c_task c t) + p)) [0..<c_len c t])
      else Rd (c_off c t) (positions bs 0 (c_len c t)))"

definition write_range :: "run_cfg \<Rightarrow> task_id \<Rightarrow> nat set" where
  "write_range c t = (if command (c_task c t) = WRITE_COMMAND then {c_off c t ..< c_off c t + c_len c t} else {})"

definition cfg_task_ok :: "run_cfg \<Rightarrow> task_id \<Rightarrow> bool" where
  "cfg_task_ok c t \<longleftrightarrow> unloaded (c_task c t) \<and> command (c_task c t) \<noteq> FLUSH_COMMAND
     \<and> 0 < c_len c t \<and> c_len c t \<le> 131072 \<and> c_bs c dvd c_len c t \<and> c_bs c dvd c_off c t
     \<and> {c_off c t ..< c_off c t + c_len c t} \<subseteq> c_reg c"

fun chain :: "(task_id \<Rightarrow> task) \<Rightarrow> task_id list \<Rightarrow> bool" where
  "chain X [] \<longleftrightarrow> True"
| "chain X [t] \<longleftrightarrow> t_next (X t) = None"
| "chain X (t # u # ts) \<longleftrightarrow> t_next (X t) = Some u \<and> chain X (u # ts)"

definition cfg_ok :: "run_cfg \<Rightarrow> bool" where
  "cfg_ok c \<longleftrightarrow> distinct (c_ts c) \<and> (\<forall>t \<in> set (c_ts c). cfg_task_ok c t) \<and> chain (c_task c) (c_ts c)
     \<and> distinct (c_pool c) \<and> 32 \<le> length (c_pool c) \<and> 0 < c_bs c \<and> c_bs c < 2 ^ 32
     \<and> (\<forall>t \<in> set (c_ts c). \<forall>u \<in> set (c_ts c). t \<noteq> u \<longrightarrow> write_range c t \<inter> write_range c u = {})"

text \<open>A task as it was built, but for its segments and its queue.\<close>

definition sim :: "task \<Rightarrow> task \<Rightarrow> bool" where
  "sim x y \<longleftrightarrow> x = y\<lparr>io_request := io_request x, t_queue := t_queue x\<rparr>"

lemma sim_refl [simp]: "sim x x"
  by (simp add: sim_def)

lemma simD:
  assumes "sim x y"
  shows "command x = command y" "t_offset x = t_offset y" "t_len x = t_len y" "t_buf x = t_buf y"
    "fill_cb x = fill_cb y" "t_next x = t_next y" "return_code x = return_code y" "primary x = primary y" "t_ref x = t_ref y"
  by (subst assms [unfolded sim_def], simp)+

lemma sim_update [simp]:
  "sim (x\<lparr>io_request := r\<rparr>) y \<longleftrightarrow> sim x y" "sim (x\<lparr>t_queue := b\<rparr>) y \<longleftrightarrow> sim x y"
  by (cases x; cases y; simp add: sim_def)+

definition out_task :: "run_cfg \<Rightarrow> 'a world_scheme \<Rightarrow> task_id \<Rightarrow> buf_id list \<Rightarrow> bool" where
  "out_task c w t bs \<longleftrightarrow> (\<exists>x. tasks w t = Some x \<and> sim x (c_task c t) \<and> loaded x bs
     \<and> extra_segs (io_request x) = None \<and> t_queue x)"

definition wait_task :: "run_cfg \<Rightarrow> 'a world_scheme \<Rightarrow> task_id \<Rightarrow> bool" where
  "wait_task c w t \<longleftrightarrow> (\<exists>x. tasks w t = Some x \<and> sim x (c_task c t) \<and> unloaded x)"

text \<open>
  \<open>F\<close>: issued and not completed, \<open>R\<close>: the rest of the chain, \<open>B\<close>: the buffers of the tasks
  of \<open>F\<close>.
\<close>

definition q_inv :: "run_cfg \<Rightarrow> (task_id \<Rightarrow> buf_id list) \<Rightarrow> task_id list \<Rightarrow> task_id list \<Rightarrow> 'q queue \<Rightarrow> bool" where
  "q_inv c B F R w \<longleftrightarrow>
     distinct (F @ R) \<and> set (F @ R) \<subseteq> set (c_ts c) \<and> chain (c_task c) R
   \<and> (\<forall>t \<in> set F. out_task c w t (B t)) \<and> (\<forall>t \<in> set R. wait_task c w t)
   \<and> mset (data_buf_list w) + mset (concat (map B F)) = mset (c_pool c)
   \<and> num_running (ioc w) = int (length F + length R) \<and> unat (current_queue_depth w) = length F
   \<and> length F \<le> unat (max_queue_depth w) \<and> q_block_size w = of_nat (c_bs c)
   \<and> total_nseg (ioc w) = c_nseg c + int (length (concat (map B F)))"

lemma q_invD:
  assumes "q_inv c B F R w"
  shows "distinct (F @ R)" "set (F @ R) \<subseteq> set (c_ts c)" "chain (c_task c) R"
    "t \<in> set F \<Longrightarrow> out_task c w t (B t)" "t \<in> set R \<Longrightarrow> wait_task c w t"
    "mset (data_buf_list w) + mset (concat (map B F)) = mset (c_pool c)"
    "num_running (ioc w) = int (length F + length R)" "unat (current_queue_depth w) = length F"
    "length F \<le> unat (max_queue_depth w)" "q_block_size w = of_nat (c_bs c)"
    "total_nseg (ioc w) = c_nseg c + int (length (concat (map B F)))"
  using assms unfolding q_inv_def by blast+

lemma cfg_okD:
  assumes "cfg_ok c"
  shows "distinct (c_ts c)" "t \<in> set (c_ts c) \<Longrightarrow> cfg_task_ok c t" "chain (c_task c) (c_ts c)" "distinct (c_pool c)"
    "32 \<le> length (c_pool c)" "0 < c_bs c" "c_bs c < 2 ^ 32"
    "t \<in> set (c_ts c) \<Longrightarrow> u \<in> set (c_ts c) \<Longrightarrow> t \<noteq> u \<Longrightarrow> write_range c t \<inter> write_range c u = {}"
  using assms unfolding cfg_ok_def by blast+

lemma chain_tl: "chain X (t # ts) \<Longrightarrow> chain X ts"
  by (cases ts) auto

lemma chain_next: "chain X (t # ts) \<Longrightarrow> t_next (X t) = (case ts of [] \<Rightarrow> None | u # _ \<Rightarrow> Some u)"
  by (cases ts) auto

lemma q_inv_pool:
  assumes "q_inv c B F R w" "cfg_ok c"
  shows "distinct (data_buf_list w @ concat (map B F))"
proof -
  have "mset (data_buf_list w @ concat (map B F)) = mset (c_pool c)" using q_invD(6) [OF assms(1)] by simp
  then show ?thesis using cfg_okD(4) [OF assms(2)] by (metis mset_eq_imp_distinct_iff)
qed

subsection \<open>Gathering\<close>

lemma at_seg_sim: "at_seg x i l z \<Longrightarrow> sim z x"
  by (auto simp: at_seg_def)

lemma at_seg_loaded: "at_seg x i l z \<Longrightarrow> loaded x bs \<Longrightarrow> loaded z bs"
  using at_segD [of x i l z] by (simp add: loaded_def)

lemma at_seg_same:
  "at_seg x i l z \<Longrightarrow> extra_segs (io_request z) = extra_segs (io_request x) \<and> t_queue z = t_queue x"
  by (auto simp: at_seg_def)

lemma sim_trans: "sim x y \<Longrightarrow> sim y z \<Longrightarrow> sim x z"
  by (cases x; cases y; cases z; simp add: sim_def)

lemma gather_sgl_Ok:
  assumes "tasks w t = Some x" "loaded x bs" "0 < unat (t_len x)"
  shows "\<exists>z. gather_sgl t w = Ok (positions bs 0 (unat (t_len x)), put_task t z w)
    \<and> sim z x \<and> loaded z bs \<and> extra_segs (io_request z) = extra_segs (io_request x) \<and> t_queue z = t_queue x"
proof -
  obtain y where y: "data_buf_reset_sgl 0 x = Ok y" "at_seg x 0 (seg_end (unat (t_len x)) 0) y"
    using reset_sgl_Ok [OF assms(2), of 0] assms(3) by auto
  have n: "unat (nseg (io_request y)) = length bs" using at_segD(4) [OF y(2)] loadedD(1) [OF assms(2)] by simp
  have pos: "0 < length bs" using nbufs_bounds [OF assms(3)] loadedD(2) [OF assms(2)] by simp
  obtain ad l u where u: "data_buf_next_sge y = Ok (ad, l, u)"
      "sge_bytes (ad, l) = positions bs 0 (seg_end (unat (t_len x)) 0)" "at_seg x 1 0 u"
    using next_sge_Ok [OF assms(2) y(2) pos _ assms(3)] by auto
  obtain es z where z: "sgl_walk (length bs - 1) u = Ok (es, z)"
      "concat (map sge_bytes es) = positions bs (1 * 8192) (unat (t_len x))" "at_seg x (length bs) 0 z"
    using sgl_walk_Ok [OF assms(2,3) u(3), of "length bs - 1"] pos by auto
  have "positions bs 0 (seg_end (unat (t_len x)) 0) @ positions bs (1 * 8192) (unat (t_len x)) = positions bs 0 (unat (t_len x))"
  proof (cases "8192 \<le> unat (t_len x)")
    case True
    then have "seg_end (unat (t_len x)) 0 = 8192" by (simp add: seg_end_def)
    then show ?thesis using positions_append [of 0 8192 "unat (t_len x)" bs] True by simp
  next
    case False
    then show ?thesis by (simp add: seg_end_def positions_def)
  qed
  moreover have "sgl_walk (unat (nseg (io_request y))) y = Ok ((ad, l) # es, z)"
    using u(1) z(1) pos by (cases "length bs") (simp_all add: n)
  ultimately have "gather_sgl t w = Ok (positions bs 0 (unat (t_len x)), put_task t z w)"
    using assms(1) y(1) u(2) z(2) by (simp add: gather_sgl_def deref_def)
  then show ?thesis
    using at_seg_sim [OF z(3)] at_seg_loaded [OF z(3) assms(2)] at_seg_same [OF z(3)] by blast
qed

subsection \<open>Submitting one task\<close>

lemma block_units:
  assumes "q = of_nat bs" "0 < bs" "bs < 2 ^ 32" "bs dvd unat v"
  shows "q \<noteq> (0 :: u32)" "unat (v div ucast q) * bs = unat (v :: u64)"
    "unat v \<le> 131072 \<Longrightarrow> unat (ucast (v div ucast q) :: u32) * bs = unat v"
proof -
  have q: "unat q = bs" using assms(1,3) by (simp add: unat_of_nat)
  then show "q \<noteq> 0" using assms(2) by auto
  have d: "unat (v div ucast q) = unat v div bs" by (simp add: unat_div q)
  then show *: "unat (v div ucast q) * bs = unat v" using assms(4) by simp
  show "unat (ucast (v div ucast q) :: u32) * bs = unat v" if "unat v \<le> 131072"
  proof -
    have "unat v div bs \<le> unat v" by simp
    then have "unat (v div ucast q) \<le> 131072" using d that by linarith
    then have "unat (v div ucast q) < 2 ^ 32" by simp
    then show ?thesis using * by (simp add: unat_ucast_64_32)
  qed
qed

lemma positions_values: "map (\<lambda>p. d (fst p) (snd p)) (positions bs 0 n) = map (payload d bs) [0..<n]"
  by (simp add: positions_def payload_def)

lemma length_positions [simp]: "length (positions bs a e) = e - a"
  by (simp add: positions_def)

definition frame :: "'q queue \<Rightarrow> 'q queue \<Rightarrow> bool" where
  "frame w w' \<longleftrightarrow> umem w' = umem w \<and> callbacks w' = callbacks w \<and> max_queue_depth w' = max_queue_depth w
     \<and> q_block_size w' = q_block_size w \<and> (ioc w')\<lparr>total_nseg := 0\<rparr> = (ioc w)\<lparr>total_nseg := 0\<rparr>"

lemma frame_refl [simp]: "frame w w"
  by (simp add: frame_def)

lemma frame_trans: "frame u v \<Longrightarrow> frame v w \<Longrightarrow> frame u w"
  by (simp add: frame_def)

lemma submit_one_again:
  assumes cfg: "cfg_ok c" and inv: "q_inv c B F (t # R) w" and few: "length (data_buf_list w) < nbufs (c_len c t)"
  shows "\<exists>w'. submit_one env t w = Ok (False, w') \<and> q_inv c B F (t # R) w' \<and> qp w' = qp w \<and> frame w w'
    \<and> (\<forall>u. u \<noteq> t \<longrightarrow> tasks w' u = tasks w u) \<and> dma w' = dma w"
proof -
  note I = q_invD [OF inv]
  obtain x where x: "tasks w t = Some x" "sim x (c_task c t)" "unloaded x"
    using I(5) [of t] by (auto simp: wait_task_def)
  have tc: "cfg_task_ok c t" using cfg_okD(2) [OF cfg] I(2) by simp
  have cmd: "command x \<noteq> FLUSH_COMMAND" "t_len x = t_len (c_task c t)" using tc simD [OF x(2)] by (simp_all add: cfg_task_ok_def)
  let ?w = "put_task t (x\<lparr>t_queue := True\<rparr>) w"
  have al: "alloc_buf_from_pool t wr ?w = Ok (- ENOMEM, ?w)" for wr
    by (rule alloc_none [of _ _ "x\<lparr>t_queue := True\<rparr>"]) (use few cmd in \<open>simp_all add: put_task_def\<close>)
  have "q_block_size w \<noteq> 0"
    using block_units(1) [OF I(10) cfg_okD(6,7) [OF cfg], of 0] by simp
  then have "submit_one env t w = Ok (False, ?w)"
    using x(1) cmd(1) al by (cases "command x") (simp_all add: submit_one_def deref_def Let_def)
  moreover have "q_inv c B F (t # R) ?w"
    unfolding q_inv_def
  proof (intro conjI ballI)
    fix u assume u: "u \<in> set F"
    then have "u \<noteq> t" using I(1) by auto
    then show "out_task c ?w u (B u)" using I(4) [OF u] by (simp add: out_task_def put_task_def)
  next
    fix u assume u: "u \<in> set (t # R)"
    have "unloaded (x\<lparr>t_queue := True\<rparr>)" using x(3) by (simp add: unloaded_def)
    then show "wait_task c ?w u" using I(5) [OF u] x(2) by (auto simp: wait_task_def put_task_def)
  qed (use I in \<open>simp_all add: put_task_def\<close>)
  ultimately show ?thesis by (intro exI [of _ ?w]) (simp add: frame_def put_task_def)
qed

text \<open>
  A write that finds its buffers, whatever the library: it is given the task's sectors and the caller's bytes. \<open>f\<close> is
  what an accepted command does to the library, by its payload.
\<close>

lemma submit_one_write:
  assumes x: "tasks w t = Some x" "unloaded x" "command x = WRITE_COMMAND" "0 < unat (t_len x)" "unat (t_len x) \<le> 262144"
    and pool: "nbufs (unat (t_len x)) \<le> length (data_buf_list w)" "distinct (data_buf_list w)" and bs: "q_block_size w \<noteq> 0"
    and env: "\<And>ps d. cmd_writev env (t_offset x div ucast (q_block_size w)) (ucast (t_len x div ucast (q_block_size w))) t ps d (qp w)
      = (0, f (map (\<lambda>p. d (fst p) (snd p)) ps))"
  shows "\<exists>w'. submit_one env t w = Ok (True, w') \<and> qp w' = f (map (\<lambda>p. umem w (t_buf x + p)) [0..<unat (t_len x)])
    \<and> data_buf_list w' = drop (nbufs (unat (t_len x))) (data_buf_list w) \<and> frame w w'
    \<and> current_queue_depth w' = current_queue_depth w
    \<and> (\<forall>u. u \<noteq> t \<longrightarrow> tasks w' u = tasks w u) \<and> (\<exists>y. tasks w' t = Some y \<and> sim y x)"
proof -
  define n where "n = nbufs (unat (t_len x))"
  define bf where "bf = take n (data_buf_list w)"
  define x1 where "x1 = x\<lparr>t_queue := True\<rparr>"
  define w1 where "w1 = put_task t x1 w"
  have x1: "tasks w1 t = Some x1" "unloaded x1" "t_len x1 = t_len x" "t_buf x1 = t_buf x"
    using x(2) by (simp_all add: w1_def put_task_def x1_def unloaded_def)
  have w1: "data_buf_list w1 = data_buf_list w" "umem w1 = umem w" by (simp_all add: w1_def put_task_def)
  have pre: "0 < unat (t_len x1)" "unat (t_len x1) \<le> 262144" "nbufs (unat (t_len x1)) \<le> length (data_buf_list w1)"
      "distinct (data_buf_list w1)"
    using x(4,5) pool by (simp_all add: x1(3) w1)
  from alloc_Ok [OF x1(1,2) pre, of True, unfolded x1(3,4) w1, folded n_def, folded bf_def] obtain r d where
    A: "alloc_buf_from_pool t True w1 = Ok (0, put_task t (x1\<lparr>io_request := r\<rparr>) (w1\<lparr>data_buf_list := drop n (data_buf_list w),
          ioc := (ioc w1)\<lparr>total_nseg := total_nseg (ioc w1) + int n\<rparr>, dma := d\<rparr>))"
      "loaded (x1\<lparr>io_request := r\<rparr>) bf"
      "\<forall>p < unat (t_len x). payload d bf p = umem w (t_buf x + p)"
    by blast
  define x2 where "x2 = x1\<lparr>io_request := r\<rparr>"
  define w2 where "w2 = put_task t x2 (w1\<lparr>data_buf_list := drop n (data_buf_list w),
          ioc := (ioc w1)\<lparr>total_nseg := total_nseg (ioc w1) + int n\<rparr>, dma := d\<rparr>)"
  have x2: "tasks w2 t = Some x2" "t_len x2 = t_len x"
    by (simp_all add: w2_def put_task_def x2_def x1(3))
  from gather_sgl_Ok [OF x2(1) A(2) [folded x2_def], unfolded x2(2), OF x(4)] obtain z where
    z: "gather_sgl t w2 = Ok (positions bf 0 (unat (t_len x)), put_task t z w2)" "sim z x2" by blast
  define w3 where "w3 = put_task t z w2"
  have w3: "dma w3 = d" "qp w3 = qp w" "q_block_size w1 = q_block_size w" "tasks w3 t = Some z" "frame w w3"
      "data_buf_list w3 = drop n (data_buf_list w)" "current_queue_depth w3 = current_queue_depth w"
      "\<forall>u. u \<noteq> t \<longrightarrow> tasks w3 u = tasks w u"
    by (simp_all add: w3_def w2_def w1_def put_task_def frame_def)
  have v: "map (\<lambda>p. d (fst p) (snd p)) (positions bf 0 (unat (t_len x))) = map (\<lambda>p. umem w (t_buf x + p)) [0..<unat (t_len x)]"
    unfolding positions_values using A(3) by simp
  have "submit_one env t w = Ok (True, w3\<lparr>qp := f (map (\<lambda>p. umem w (t_buf x + p)) [0..<unat (t_len x)])\<rparr>)"
    using x(1,3) bs A(1) z(1) env [of "positions bf 0 (unat (t_len x))" d, unfolded v] w3(1-3)
    by (simp add: submit_one_def deref_def Let_def x1_def [symmetric] w1_def [symmetric] x2_def [symmetric] w2_def [symmetric]
        w3_def [symmetric])
  moreover have "sim z x" using z(2) by (intro sim_trans [OF z(2)]) (simp add: x2_def x1_def)
  ultimately show ?thesis using w3 by (simp add: n_def frame_def)
qed

lemma submit_one_Ok:
  assumes cfg: "cfg_ok c" and inv: "q_inv c B F (t # R) w" and room: "length F < unat (max_queue_depth w)"
    and enough: "nbufs (c_len c t) \<le> length (data_buf_list w)"
    and env: "accepts env (c_reg c) (c_bs c) (unat (max_queue_depth w)) disk inflight" "length (inflight (qp w)) = length F"
    and data: "command (c_task c t) = WRITE_COMMAND \<Longrightarrow>
      \<forall>p < c_len c t. umem w (t_buf (c_task c t) + p) = c_umem c (t_buf (c_task c t) + p)"
  shows "\<exists>w' bs. submit_one env t w = Ok (True, w')
    \<and> q_inv c (B(t := bs)) (F @ [t]) R (w'\<lparr>current_queue_depth := current_queue_depth w' + 1\<rparr>)
    \<and> inflight (qp w') = inflight (qp w) @ [(t, cfg_cmd c t bs)] \<and> disk (qp w') = disk (qp w) \<and> frame w w'
    \<and> (\<forall>u. u \<noteq> t \<longrightarrow> tasks w' u = tasks w u) \<and> (\<exists>x. tasks w' t = Some x \<and> sim x (c_task c t))"
proof -
  note I = q_invD [OF inv]
  obtain x where x: "tasks w t = Some x" "sim x (c_task c t)" "unloaded x"
    using I(5) [of t] by (auto simp: wait_task_def)
  have tc: "cfg_task_ok c t" using cfg_okD(2) [OF cfg] I(2) by simp
  note X = simD [OF x(2)]
  define wr where "wr \<longleftrightarrow> command (c_task c t) = WRITE_COMMAND"
  define n where "n = nbufs (c_len c t)"
  define bs where "bs = take n (data_buf_list w)"
  define x1 where "x1 = x\<lparr>t_queue := True\<rparr>"
  define w1 where "w1 = put_task t x1 w"
  have x1: "tasks w1 t = Some x1" "unloaded x1" "t_len x1 = t_len (c_task c t)" "t_buf x1 = t_buf (c_task c t)"
    using x(3) X by (simp_all add: w1_def put_task_def x1_def unloaded_def)
  have len: "0 < c_len c t" "c_len c t \<le> 131072" using tc by (simp_all add: cfg_task_ok_def)
  have dl: "data_buf_list w1 = data_buf_list w" by (simp add: w1_def put_task_def)
  have dp: "distinct (data_buf_list w)" using q_inv_pool [OF inv cfg] by simp
  have pre: "0 < unat (t_len x1)" "unat (t_len x1) \<le> 262144" "nbufs (unat (t_len x1)) \<le> length (data_buf_list w1)"
      "distinct (data_buf_list w1)"
    using len enough dp by (simp_all add: x1(3) dl)
  have um: "umem w1 = umem w" by (simp add: w1_def put_task_def)
  from alloc_Ok [OF x1(1,2) pre, of wr, unfolded x1(3,4) dl um, folded n_def, folded bs_def] obtain r d where
    A: "alloc_buf_from_pool t wr w1 = Ok (0, put_task t (x1\<lparr>io_request := r\<rparr>) (w1\<lparr>data_buf_list := drop n (data_buf_list w),
          ioc := (ioc w1)\<lparr>total_nseg := total_nseg (ioc w1) + int n\<rparr>, dma := d\<rparr>))"
      "loaded (x1\<lparr>io_request := r\<rparr>) bs" "extra_segs r = None"
      "wr \<longrightarrow> (\<forall>p < c_len c t. payload d bs p = umem w (t_buf (c_task c t) + p))"
    by blast
  define x2 where "x2 = x1\<lparr>io_request := r\<rparr>"
  define w2 where "w2 = put_task t x2 (w1\<lparr>data_buf_list := drop n (data_buf_list w),
          ioc := (ioc w1)\<lparr>total_nseg := total_nseg (ioc w1) + int n\<rparr>, dma := d\<rparr>)"
  have x2: "tasks w2 t = Some x2" "t_len x2 = t_len (c_task c t)"
    by (simp_all add: w2_def put_task_def x2_def x1(3))
  have "0 < unat (t_len x2)" using len(1) by (simp add: x2(2))
  from gather_sgl_Ok [OF x2(1) A(2) [folded x2_def] this, unfolded x2(2)] obtain z where
    z: "gather_sgl t w2 = Ok (positions bs 0 (c_len c t), put_task t z w2)" "sim z x2" "loaded z bs"
      "extra_segs (io_request z) = extra_segs (io_request x2)" "t_queue z = t_queue x2"
    by blast
  have z45: "extra_segs (io_request z) = None" "t_queue z" using z(4,5) A(3) by (simp_all add: x2_def x1_def)
  have zs: "sim z (c_task c t)"
    using z(2) x(2) by (intro sim_trans [OF z(2)]) (simp add: x2_def x1_def)
  define w3 where "w3 = put_task t z w2"
  have w3: "dma w3 = d" "qp w3 = qp w" "ioc w3 = (ioc w)\<lparr>total_nseg := total_nseg (ioc w) + int n\<rparr>"
    "data_buf_list w3 = drop n (data_buf_list w)" "tasks w3 t = Some z" "umem w3 = umem w" "callbacks w3 = callbacks w"
    "max_queue_depth w3 = max_queue_depth w" "q_block_size w3 = q_block_size w" "current_queue_depth w3 = current_queue_depth w"
    "\<And>u. u \<noteq> t \<Longrightarrow> tasks w3 u = tasks w u"
    by (simp_all add: w3_def w2_def w1_def put_task_def)
  let ?off = "t_offset x div ucast (q_block_size w)" and ?cnt = "ucast (t_len x div ucast (q_block_size w)) :: u32"
  have bu: "q_block_size w \<noteq> 0" "unat ?off * c_bs c = c_off c t" "unat ?cnt * c_bs c = c_len c t"
    using block_units(1) [OF I(10) cfg_okD(6,7) [OF cfg], of 0] block_units(2) [OF I(10) cfg_okD(6,7) [OF cfg], of "t_offset x"]
      block_units(3) [OF I(10) cfg_okD(6,7) [OF cfg], of "t_len x"] tc len(2)
    by (simp_all add: cfg_task_ok_def X)
  have ps: "length (positions bs 0 (c_len c t)) = unat ?cnt * c_bs c" by (simp add: bu(3))
  have rg: "{unat ?off * c_bs c..<unat ?off * c_bs c + length (positions bs 0 (c_len c t))} \<subseteq> c_reg c"
    using tc by (simp add: bu(2) cfg_task_ok_def)
  obtain q where q: "(if wr then cmd_writev env ?off ?cnt t (positions bs 0 (c_len c t)) d (qp w)
        else cmd_readv env ?off ?cnt t (positions bs 0 (c_len c t)) (qp w)) = (0, q)"
      "disk q = disk (qp w)" "inflight q = inflight (qp w) @ [(t, cfg_cmd c t bs)]"
  proof (cases wr)
    case True
    have "map (\<lambda>p. d (fst p) (snd p)) (positions bs 0 (c_len c t)) = map (\<lambda>p. c_umem c (t_buf (c_task c t) + p)) [0..<c_len c t]"
      unfolding positions_values using A(4) True data by (simp add: wr_def)
    then have "cfg_cmd c t bs = Wr (unat ?off * c_bs c) (map (\<lambda>p. d (fst p) (snd p)) (positions bs 0 (c_len c t)))"
      using True bu(2) by (simp add: cfg_cmd_def wr_def)
    then show ?thesis
      using env(1) [unfolded accepts_def, rule_format, OF ps rg, of "qp w" t d] env(2) room that True by auto
  next
    case False
    then have "cfg_cmd c t bs = Rd (unat ?off * c_bs c) (positions bs 0 (c_len c t))"
      using bu(2) by (simp add: cfg_cmd_def wr_def)
    then show ?thesis
      using env(1) [unfolded accepts_def, rule_format, OF ps rg, of "qp w" t d] env(2) room that False by auto
  qed
  define w4 where "w4 = w3\<lparr>qp := q\<rparr>"
  have cases: "command x = (if wr then WRITE_COMMAND else READ_COMMAND)"
    using tc X(1) by (cases "command x") (simp_all add: wr_def cfg_task_ok_def)
  have w1b: "q_block_size w1 = q_block_size w" by (simp add: w1_def put_task_def)
  have sub: "submit_one env t w = Ok (True, w4)"
    using x(1) bu(1) cases A(1) z(1) q(1) w3(1,2) w1b
    by (cases wr) (simp_all add: submit_one_def deref_def Let_def w4_def x1_def [symmetric] w1_def [symmetric]
        x2_def [symmetric] w2_def [symmetric] w3_def [symmetric])
  define w5 where "w5 = w4\<lparr>current_queue_depth := current_queue_depth w4 + 1\<rparr>"
  have tF: "t \<notin> set F" "t \<notin> set R" using I(1) by auto
  have w5: "tasks w5 t = Some z" "\<And>u. u \<noteq> t \<Longrightarrow> tasks w5 u = tasks w u" "data_buf_list w5 = drop n (data_buf_list w)"
    using w3 by (simp_all add: w5_def w4_def)
  have "q_inv c (B(t := bs)) (F @ [t]) R w5"
    unfolding q_inv_def
  proof (intro conjI ballI)
    show "distinct ((F @ [t]) @ R)" "set ((F @ [t]) @ R) \<subseteq> set (c_ts c)" using I(1,2) by auto
    show "chain (c_task c) R" using chain_tl [OF I(3)] .
    show "out_task c w5 u ((B(t := bs)) u)" if "u \<in> set (F @ [t])" for u
    proof (cases "u = t")
      case True
      then show ?thesis using w5(1) zs z(3) z45 by (simp add: out_task_def)
    next
      case False
      then show ?thesis using that I(4) [of u] w5(2) by (simp add: out_task_def)
    qed
    show "wait_task c w5 u" if "u \<in> set R" for u
    proof -
      have "u \<noteq> t" using that tF(2) by blast
      then show ?thesis using I(5) [of u] that w5(2) [of u] by (simp add: wait_task_def)
    qed
    have B: "concat (map (B(t := bs)) (F @ [t])) = concat (map B F) @ bs"
    proof -
      have "map (B(t := bs)) F = map B F" using tF(1) by (intro map_cong) auto
      then show ?thesis by (simp del: map_eq_conv)
    qed
    have dr: "mset bs + mset (drop n (data_buf_list w)) = mset (data_buf_list w)"
      unfolding bs_def by (metis append_take_drop_id mset_append)
    have "mset (drop n (data_buf_list w)) + (mset (concat (map B F)) + mset bs)
        = (mset bs + mset (drop n (data_buf_list w))) + mset (concat (map B F))" by (simp only: ac_simps)
    then show "mset (data_buf_list w5) + mset (concat (map (B(t := bs)) (F @ [t]))) = mset (c_pool c)"
      unfolding B w5(3) mset_append dr I(6) .
    have "length bs = n" using enough by (simp add: bs_def n_def)
    then show "total_nseg (ioc w5) = c_nseg c + int (length (concat (map (B(t := bs)) (F @ [t]))))"
      unfolding B using I(11) w3(3) by (simp add: w5_def w4_def)
    have "unat (current_queue_depth w + 1) = length F + 1"
      using I(8) room unsigned_less [of "max_queue_depth w", where ?'a = nat] by (simp add: unat_word_ariths)
    then show "unat (current_queue_depth w5) = length (F @ [t])" using w3(10) by (simp add: w5_def w4_def)
    show "num_running (ioc w5) = int (length (F @ [t]) + length R)"
      using I(7) w3(3) by (simp add: w5_def w4_def)
    show "length (F @ [t]) \<le> unat (max_queue_depth w5)" using room w3(8) by (simp add: w5_def w4_def)
    show "q_block_size w5 = of_nat (c_bs c)" using I(10) w3(9) by (simp add: w5_def w4_def)
  qed
  moreover have "frame w w4" using w3 by (simp add: frame_def w4_def)
  ultimately show ?thesis
    using sub q(2,3) w3 zs by (intro exI [of _ w4] exI [of _ bs]) (simp add: w5_def w4_def)
qed

subsection \<open>Submitting the chain\<close>

definition head :: "task_id list \<Rightarrow> task_id option" where
  "head ts = (case ts of [] \<Rightarrow> None | t # _ \<Rightarrow> Some t)"

lemma head_simps [simp]: "head [] = None" "head (t # ts) = Some t"
  by (simp_all add: head_def)

definition flying :: "run_cfg \<Rightarrow> (task_id \<Rightarrow> buf_id list) \<Rightarrow> task_id list \<Rightarrow> (task_id \<times> nvme_cmd) list" where
  "flying c B F = map (\<lambda>t. (t, cfg_cmd c t (B t))) F"

lemma map_fst_flying [simp]: "map fst (flying c B F) = F" "length (flying c B F) = length F"
  by (simp_all add: flying_def comp_def)

lemma flying_cong: "(\<And>t. t \<in> set F \<Longrightarrow> B t = B' t) \<Longrightarrow> flying c B F = flying c B' F"
  by (simp add: flying_def)

lemma nbufs_16: "cfg_task_ok c t \<Longrightarrow> nbufs (c_len c t) \<le> 16"
  using nbufs_le [of "c_len c t" 16] by (simp add: cfg_task_ok_def)

text \<open>A task that finds too few buffers is not alone: some task holds buffers.\<close>

lemma short_pool_busy:
  assumes "cfg_ok c" "q_inv c B F R w" "t \<in> set R" "length (data_buf_list w) < nbufs (c_len c t)"
  shows "F \<noteq> []"
proof
  assume "F = []"
  then have "mset (data_buf_list w) = mset (c_pool c)" using q_invD(6) [OF assms(2)] by simp
  then have "length (data_buf_list w) = length (c_pool c)" by (rule mset_eq_length)
  moreover have "cfg_task_ok c t" using cfg_okD(2) [OF assms(1)] q_invD(2) [OF assms(2)] assms(3) by auto
  ultimately show False using nbufs_16 [of c t] cfg_okD(5) [OF assms(1)] assms(4) by simp
qed

lemma submit_chain_Ok:
  assumes cfg: "cfg_ok c"
  shows "q_inv c B F R w \<Longrightarrow> inflight (qp w) = flying c B F \<Longrightarrow> length R \<le> n \<Longrightarrow> 0 < unat (max_queue_depth w) \<Longrightarrow>
    accepts env (c_reg c) (c_bs c) (unat (max_queue_depth w)) disk inflight \<Longrightarrow>
    (\<And>t p. t \<in> set R \<Longrightarrow> command (c_task c t) = WRITE_COMMAND \<Longrightarrow> p < c_len c t \<Longrightarrow>
       umem w (t_buf (c_task c t) + p) = c_umem c (t_buf (c_task c t) + p)) \<Longrightarrow>
    \<exists>w' B' F' R'. submit_chain n env (head R) w = Ok (head R', w') \<and> q_inv c B' F' R' w'
      \<and> inflight (qp w') = flying c B' F' \<and> F @ R = F' @ R' \<and> disk (qp w') = disk (qp w) \<and> frame w w'
      \<and> (\<forall>u. u \<notin> set R \<longrightarrow> tasks w' u = tasks w u) \<and> (R' \<noteq> [] \<longrightarrow> F' \<noteq> []) \<and> length R' \<le> length R
      \<and> (length R' < length R \<or> qp w' = qp w)"
proof (induction n arbitrary: B F R w)
  case 0
  then show ?case
    by (intro exI [of _ w] exI [of _ B] exI [of _ F] exI [of _ R]) simp
next
  case (Suc n)
  note I = q_invD [OF Suc.prems(1)]
  show ?case
  proof (cases R)
    case Nil
    then show ?thesis
      using Suc.prems(1,2) by (intro exI [of _ w] exI [of _ B] exI [of _ F] exI [of _ R]) simp
  next
    case (Cons t R2)
    note inv = Suc.prems(1) [unfolded Cons]
    consider (full) "current_queue_depth w = max_queue_depth w"
      | (short) "current_queue_depth w \<noteq> max_queue_depth w" "length (data_buf_list w) < nbufs (c_len c t)"
      | (go) "current_queue_depth w \<noteq> max_queue_depth w" "nbufs (c_len c t) \<le> length (data_buf_list w)"
      by linarith
    then show ?thesis
    proof cases
      case full
      then have "F \<noteq> []" using I(8) Suc.prems(4) by auto
      then show ?thesis
        using Suc.prems(1,2) full Cons by (intro exI [of _ w] exI [of _ B] exI [of _ F] exI [of _ R]) simp
    next
      case short
      obtain w' where w': "submit_one env t w = Ok (False, w')" "q_inv c B F (t # R2) w'" "qp w' = qp w" "frame w w'"
          "\<forall>u. u \<noteq> t \<longrightarrow> tasks w' u = tasks w u"
        using submit_one_again [OF cfg inv short(2), of env] by blast
      have "F \<noteq> []" using short_pool_busy [OF cfg inv _ short(2)] by simp
      then show ?thesis
        using w' short(1) Suc.prems(2) Cons by (intro exI [of _ w'] exI [of _ B] exI [of _ F] exI [of _ R]) simp
    next
      case go
      have "length F \<noteq> unat (max_queue_depth w)" using go(1) I(8) by (metis word_unat_eq_iff)
      then have room: "length F < unat (max_queue_depth w)" using I(9) by simp
      have lf: "length (inflight (qp w)) = length F" using Suc.prems(2) by simp
      have dt: "command (c_task c t) = WRITE_COMMAND \<Longrightarrow>
          \<forall>p < c_len c t. umem w (t_buf (c_task c t) + p) = c_umem c (t_buf (c_task c t) + p)"
        using Suc.prems(6) [of t] Cons by simp
      obtain w1 bs where w1: "submit_one env t w = Ok (True, w1)"
          "q_inv c (B(t := bs)) (F @ [t]) R2 (w1\<lparr>current_queue_depth := current_queue_depth w1 + 1\<rparr>)"
          "inflight (qp w1) = inflight (qp w) @ [(t, cfg_cmd c t bs)]" "disk (qp w1) = disk (qp w)" "frame w w1"
          "\<forall>u. u \<noteq> t \<longrightarrow> tasks w1 u = tasks w u" "\<exists>x. tasks w1 t = Some x \<and> sim x (c_task c t)"
        using submit_one_Ok [OF cfg inv room go(2) Suc.prems(5) lf dt] by blast
      define w2 where "w2 = w1\<lparr>current_queue_depth := current_queue_depth w1 + 1\<rparr>"
      have f2: "frame w w2" "qp w2 = qp w1" "tasks w2 = tasks w1"
        using w1(5) by (simp_all add: w2_def frame_def)
      have tF: "t \<notin> set F" using I(1) Cons by simp
      have fl: "flying c B F = flying c (B(t := bs)) F"
        by (rule flying_cong) (use tF in auto)
      have iw: "inflight (qp w2) = flying c (B(t := bs)) (F @ [t])"
        using w1(3) Suc.prems(2) fl f2(2) by (simp add: flying_def)
      have ln: "length R2 \<le> n" using Suc.prems(3) Cons by simp
      have mx: "max_queue_depth w2 = max_queue_depth w" "umem w2 = umem w" using f2(1) by (simp_all add: frame_def)
      have dep: "0 < unat (max_queue_depth w2)" "accepts env (c_reg c) (c_bs c) (unat (max_queue_depth w2)) disk inflight"
        using Suc.prems(4,5) by (simp_all add: mx)
      have dat: "umem w2 (t_buf (c_task c u) + p) = c_umem c (t_buf (c_task c u) + p)"
        if "u \<in> set R2" "command (c_task c u) = WRITE_COMMAND" "p < c_len c u" for u p
        using Suc.prems(6) [of u p] that Cons mx(2) by simp
      from Suc.IH [OF w1(2) [folded w2_def] iw ln dep dat] obtain w' B' F' R' where
          w': "submit_chain n env (head R2) w2 = Ok (head R', w')" "q_inv c B' F' R' w'"
          "inflight (qp w') = flying c B' F'" "(F @ [t]) @ R2 = F' @ R'" "disk (qp w') = disk (qp w2)" "frame w2 w'"
          "\<forall>u. u \<notin> set R2 \<longrightarrow> tasks w' u = tasks w2 u" "R' \<noteq> [] \<longrightarrow> F' \<noteq> []" "length R' \<le> length R2"
        by blast
      obtain x where x: "tasks w1 t = Some x" "sim x (c_task c t)" using w1(7) by blast
      have "t_next x = head R2"
        using simD(6) [OF x(2)] chain_next [of "c_task c" t R2] I(3) Cons by (simp add: head_def)
      then have "submit_chain (Suc n) env (head R) w = Ok (head R', w')"
        using go(1) w1(1) x(1) w'(1) by (simp add: Cons deref_def w2_def)
      then show ?thesis
        using w' Cons w1(4,6) f2 frame_trans [OF f2(1) w'(6)]
        by (intro exI [of _ w'] exI [of _ B'] exI [of _ F'] exI [of _ R']) auto
    qed
  qed
qed

subsection \<open>Completing one task\<close>

lemma mset_concat_remove1: "t \<in> set F \<Longrightarrow> mset (concat (map B F)) = mset (B t) + mset (concat (map B (remove1 t F)))"
  by (induction F) auto

lemma q_inv_complete:
  assumes inv: "q_inv c B F R w" and t: "t \<in> set F"
    and w': "data_buf_list w' = rev (B t) @ data_buf_list w" "num_running (ioc w') = num_running (ioc w) - 1"
      "total_nseg (ioc w') = total_nseg (ioc w) - int (length (B t))" "current_queue_depth w' = current_queue_depth w - 1"
      "max_queue_depth w' = max_queue_depth w" "q_block_size w' = q_block_size w"
      "\<And>u. u \<in> set (F @ R) \<Longrightarrow> u \<noteq> t \<Longrightarrow> tasks w' u = tasks w u"
  shows "q_inv c B (remove1 t F) R w'"
proof -
  note I = q_invD [OF inv]
  have dF: "distinct F" "t \<notin> set R" using I(1) t by auto
  have sF: "set (remove1 t F) = set F - {t}" using dF(1) by simp
  have len: "length F = Suc (length (remove1 t F))" using t length_pos_if_in_set [OF t] by (simp add: length_remove1)
  have mc: "mset (concat (map B F)) = mset (B t) + mset (concat (map B (remove1 t F)))" by (rule mset_concat_remove1 [OF t])
  then have lc: "length (concat (map B F)) = length (B t) + length (concat (map B (remove1 t F)))"
    by (metis size_mset size_union)
  show ?thesis
    unfolding q_inv_def
  proof (intro conjI ballI)
    show "distinct (remove1 t F @ R)" using I(1) by (auto simp: sF)
    show "set (remove1 t F @ R) \<subseteq> set (c_ts c)" using I(2) by (auto simp: sF)
    show "chain (c_task c) R" by (rule I(3))
    show "out_task c w' u (B u)" if "u \<in> set (remove1 t F)" for u
      using I(4) [of u] that w'(7) [of u] by (simp add: sF out_task_def)
    show "wait_task c w' u" if "u \<in> set R" for u
    proof -
      have "u \<noteq> t" using that dF(2) by blast
      then show ?thesis using I(5) [of u] that w'(7) [of u] by (simp add: wait_task_def)
    qed
    show "mset (data_buf_list w') + mset (concat (map B (remove1 t F))) = mset (c_pool c)"
      using I(6) mc w'(1) by (simp add: ac_simps)
    show "num_running (ioc w') = int (length (remove1 t F) + length R)" using I(7) w'(2) len by simp
    show "unat (current_queue_depth w') = length (remove1 t F)"
    proof -
      have "current_queue_depth w \<noteq> 0" using I(8) len by auto
      then have "unat (current_queue_depth w - 1) = unat (current_queue_depth w) - 1" by (simp add: unat_minus_one)
      then show ?thesis using I(8) len w'(4) by simp
    qed
    show "length (remove1 t F) \<le> unat (max_queue_depth w')" using I(9) len w'(5) by simp
    show "q_block_size w' = of_nat (c_bs c)" using I(10) w'(6) by simp
    show "total_nseg (ioc w') = c_nseg c + int (length (concat (map B (remove1 t F))))" using I(11) w'(3) lc by simp
  qed
qed

text \<open>The effect of the end of an asynchronous command.\<close>

definition after_notify :: "'a world_scheme \<Rightarrow> 'a world_scheme" where
  "after_notify w = w\<lparr>ioc := (ioc w)\<lparr>num_running := num_running (ioc w) - 1,
       notified := notified (ioc w) + (if ioc_priv (ioc w) = None \<and> num_running (ioc w) = 1 then 1 else 0)\<rparr>,
     callbacks := callbacks w @ (case ioc_priv (ioc w) of None \<Rightarrow> [] | Some p \<Rightarrow> if num_running (ioc w) = 1 then [p] else [])\<rparr>"

lemma notify_Ok: "1 \<le> num_running (ioc w) \<Longrightarrow> notify_done w = Ok (after_notify w)"
  by (cases w; cases "ioc w") (simp add: notify_done_def after_notify_def try_aio_wake_def set_running_def Let_def split: option.splits)

lemma after_notify_simps [simp]:
  "tasks (after_notify w) = tasks w" "data_buf_list (after_notify w) = data_buf_list w" "dma (after_notify w) = dma w"
  "umem (after_notify w) = umem w" "next_task (after_notify w) = next_task w"
  "total_nseg (ioc (after_notify w)) = total_nseg (ioc w)" "num_running (ioc (after_notify w)) = num_running (ioc w) - 1"
  "ioc_priv (ioc (after_notify w)) = ioc_priv (ioc w)"
  by (simp_all add: after_notify_def)

lemma after_notify_queue [simp]:
  "qp (after_notify w) = qp w" "max_queue_depth (after_notify w) = max_queue_depth w"
  "current_queue_depth (after_notify w) = current_queue_depth w" "q_block_size (after_notify w) = q_block_size w"
  by (simp_all add: after_notify_def)

text \<open>\<open>S\<close> is the set of tasks that are not completed. The context is as it was, but for its counters.\<close>

definition ioc_kept :: "run_cfg \<Rightarrow> 'a world_scheme \<Rightarrow> bool" where
  "ioc_kept c w \<longleftrightarrow> (ioc w)\<lparr>num_running := 0, total_nseg := 0, notified := 0\<rparr> = c_ioc c"

definition told :: "run_cfg \<Rightarrow> bool \<Rightarrow> 'a world_scheme \<Rightarrow> bool" where
  "told c b w \<longleftrightarrow> callbacks w = c_callbacks c @ (case ioc_priv (c_ioc c) of None \<Rightarrow> [] | Some p \<Rightarrow> if b then [p] else [])
     \<and> notified (ioc w) = c_notified c + (if b \<and> ioc_priv (c_ioc c) = None then 1 else 0)"

lemma ioc_kept_priv: "ioc_kept c w \<Longrightarrow> ioc_priv (ioc w) = ioc_priv (c_ioc c)"
  unfolding ioc_kept_def by (drule arg_cong [where f = ioc_priv]) simp

lemma ioc_eqI:
  "x\<lparr>total_nseg := 0\<rparr> = y\<lparr>total_nseg := 0\<rparr> \<Longrightarrow>
    x\<lparr>num_running := 0, total_nseg := 0, notified := 0\<rparr> = y\<lparr>num_running := 0, total_nseg := 0, notified := 0\<rparr>
    \<and> notified x = notified (y :: io_context)"
  by (cases x; cases y) simp

lemma frameD:
  assumes "frame w w'"
  shows "umem w' = umem w" "ioc_kept c w' = ioc_kept c w" "told c b w' = told c b w"
  using assms ioc_eqI [of "ioc w'" "ioc w"] by (simp_all add: frame_def ioc_kept_def told_def)

lemma ioc_kept_after_notify [simp]: "ioc_kept c (after_notify w) = ioc_kept c w"
  by (simp add: ioc_kept_def after_notify_def)

lemma told_after_notify:
  "ioc_kept c w \<Longrightarrow> told c False w \<Longrightarrow> told c (num_running (ioc w) = 1) (after_notify w)"
  using ioc_kept_priv [of c w] by (simp add: told_def after_notify_def split: option.splits)


subsection \<open>The loop, over any kind of submission\<close>

text \<open>
  What the loop needs of a kind of submission. \<open>M c S w m\<close> describes a state in which the tasks
  of \<open>S\<close> are not completed and \<open>m\<close> is the disk: the caller's bytes are unchanged where a write
  will gather them; only the tasks of \<open>S\<close> change when commands are issued; the disk may change
  where writes of \<open>S\<close> are under way; and the callback for a finished command is defined and takes
  its task out of \<open>S\<close>.
\<close>

locale io_mode =
  fixes mode_ok :: "run_cfg \<Rightarrow> bool"
    and M :: "run_cfg \<Rightarrow> task_id set \<Rightarrow> 'q queue \<Rightarrow> (nat \<Rightarrow> u8) \<Rightarrow> bool"
  assumes source: "mode_ok c \<Longrightarrow> M c S w m \<Longrightarrow> t \<in> set (c_ts c) \<Longrightarrow> command (c_task c t) = WRITE_COMMAND \<Longrightarrow> p < c_len c t \<Longrightarrow>
      umem w (t_buf (c_task c t) + p) = c_umem c (t_buf (c_task c t) + p)"
    and issue: "M c S w m \<Longrightarrow> frame w w' \<Longrightarrow> (\<And>u. u \<notin> S \<Longrightarrow> tasks w' u = tasks w u) \<Longrightarrow> M c S w' m"
    and transfer: "cfg_ok c \<Longrightarrow> mode_ok c \<Longrightarrow> M c S w m \<Longrightarrow> S \<subseteq> set (c_ts c) \<Longrightarrow>
      (\<And>a. (\<And>t. t \<in> S \<Longrightarrow> a \<notin> write_range c t) \<Longrightarrow> m' a = m a) \<Longrightarrow> M c S w m'"
    and complete: "cfg_ok c \<Longrightarrow> mode_ok c \<Longrightarrow> q_inv c B F R w \<Longrightarrow> t \<in> set F \<Longrightarrow> M c (set (F @ R)) w m \<Longrightarrow>
      cmd_done (cfg_cmd c t (B t)) (dma w) m \<Longrightarrow>
      \<exists>w'. io_complete t False w = Ok w' \<and> q_inv c B (remove1 t F) R w' \<and> M c (set (F @ R) - {t}) w' m
        \<and> qp w' = qp w \<and> dma w' = dma w \<and> max_queue_depth w' = max_queue_depth w"
begin

lemma complete_all_Ok:
  assumes cfg: "cfg_ok c" "mode_ok c"
  shows "distinct ts \<Longrightarrow> set ts \<subseteq> set F \<Longrightarrow> q_inv c B F R w \<Longrightarrow> M c (set (F @ R)) w m \<Longrightarrow>
    (\<And>t. t \<in> set ts \<Longrightarrow> cmd_done (cfg_cmd c t (B t)) (dma w) m) \<Longrightarrow>
    \<exists>w'. complete_all (map (\<lambda>t. (t, False)) ts) w = Ok w' \<and> q_inv c B (filter (\<lambda>t. t \<notin> set ts) F) R w'
      \<and> M c (set (filter (\<lambda>t. t \<notin> set ts) F @ R)) w' m \<and> qp w' = qp w \<and> max_queue_depth w' = max_queue_depth w"
proof (induction ts arbitrary: F w)
  case (Cons t ts)
  have t: "t \<in> set F" "distinct F" "t \<notin> set R" using Cons.prems(2) q_invD(1) [OF Cons.prems(3)] by auto
  obtain w1 where w1: "io_complete t False w = Ok w1" "q_inv c B (remove1 t F) R w1" "M c (set (F @ R) - {t}) w1 m"
      "qp w1 = qp w" "dma w1 = dma w" "max_queue_depth w1 = max_queue_depth w"
    using complete [OF cfg Cons.prems(3) t(1) Cons.prems(4) Cons.prems(5) [of t]] by auto
  have s: "set (F @ R) - {t} = set (remove1 t F @ R)" using t by auto
  have sub: "set ts \<subseteq> set (remove1 t F)" using Cons.prems(1,2) t(2) by auto
  have don: "cmd_done (cfg_cmd c u (B u)) (dma w1) m" if "u \<in> set ts" for u using Cons.prems(5) [of u] that w1(5) by simp
  have ft: "filter (\<lambda>u. u \<notin> set ts) (remove1 t F) = filter (\<lambda>u. u \<notin> set (t # ts)) F"
    using t(2) by (simp add: distinct_remove1_removeAll removeAll_filter_not_eq) (metis (mono_tags, lifting))
  from Cons.IH [OF _ sub w1(2) w1(3) [unfolded s] don] Cons.prems(1) obtain w' where
      "complete_all (map (\<lambda>t. (t, False)) ts) w1 = Ok w'" "q_inv c B (filter (\<lambda>u. u \<notin> set ts) (remove1 t F)) R w'"
      "M c (set (filter (\<lambda>u. u \<notin> set ts) (remove1 t F) @ R)) w' m" "qp w' = qp w1" "max_queue_depth w' = max_queue_depth w1"
    by auto
  then show ?case using w1(1,4,6) unfolding ft by (intro exI [of _ w']) simp
qed (intro exI, auto)

end

subsection \<open>Polling and the loop\<close>

lemma flying_ids [simp]: "fst ` set (flying c B F) = set F"
  by (force simp: flying_def)

lemma flying_mem: "e \<in> set (flying c B F) \<longleftrightarrow> (\<exists>t \<in> set F. e = (t, cfg_cmd c t (B t)))"
  by (auto simp: flying_def)

lemma filter_flying: "filter (\<lambda>e. fst e \<notin> T) (flying c B F) = flying c B (filter (\<lambda>t. t \<notin> T) F)"
  by (simp add: flying_def filter_map comp_def)

lemma cmd_range_cfg: "cmd_range (cfg_cmd c t bs) = write_range c t"
  by (simp add: cfg_cmd_def write_range_def)

lemma cmd_addrs_cfg: "cmd_addrs (cfg_cmd c t bs) \<subseteq> set (positions bs 0 (c_len c t))"
  by (simp add: cfg_cmd_def)

lemma positions_nth: "i < n \<Longrightarrow> positions bs 0 n ! i = (bs ! (i div 8192), i mod 8192)"
  by (simp add: positions_def)

lemma seg_index: "p < n \<Longrightarrow> p div 8192 < nbufs n"
  using nbufs_bounds [of n] by (simp add: div_less_iff_less_mult)

lemma positions_bufs:
  assumes "length bs = nbufs n" "(b, p) \<in> set (positions bs 0 n)"
  shows "b \<in> set bs"
  using assms seg_index [of _ n] by (auto simp: positions_def)

lemma positions_distinct:
  assumes "length bs = nbufs n" "distinct bs"
  shows "distinct (positions bs 0 n)"
  unfolding distinct_conv_nth
proof (intro allI impI)
  fix i j assume ij: "i < length (positions bs 0 n)" "j < length (positions bs 0 n)" "i \<noteq> j"
  show "positions bs 0 n ! i \<noteq> positions bs 0 n ! j"
  proof
    assume eq: "positions bs 0 n ! i = positions bs 0 n ! j"
    have l: "i < n" "j < n" using ij by simp_all
    then have "bs ! (i div 8192) = bs ! (j div 8192)" and m: "i mod 8192 = j mod 8192"
      using eq by (simp_all add: positions_nth)
    then have "i div 8192 = j div 8192"
      using assms seg_index [OF l(1)] seg_index [OF l(2)] by (simp add: nth_eq_iff_index_eq)
    then show False using m ij(3) by (metis div_mult_mod_eq)
  qed
qed

lemma out_taskD:
  assumes "q_inv c B F R w" "t \<in> set F"
  obtains x where "tasks w t = Some x" "sim x (c_task c t)" "loaded x (B t)" "extra_segs (io_request x) = None" "t_queue x"
    "length (B t) = nbufs (c_len c t)" "distinct (B t)"
proof -
  obtain x where x: "tasks w t = Some x" "sim x (c_task c t)" "loaded x (B t)" "extra_segs (io_request x) = None" "t_queue x"
    using q_invD(4) [OF assms] by (auto simp: out_task_def)
  show ?thesis using that [OF x] loadedD(2,5) [OF x(3)] simD(3) [OF x(2)] by simp
qed

lemma out_bufs: "q_inv c B F R w \<Longrightarrow> t \<in> set F \<Longrightarrow> length (B t) = nbufs (c_len c t) \<and> distinct (B t)"
  by (erule (1) out_taskD) blast

lemma bufs_disjoint:
  "distinct (concat (map B F)) \<Longrightarrow> distinct F \<Longrightarrow> t \<in> set F \<Longrightarrow> u \<in> set F \<Longrightarrow> t \<noteq> u \<Longrightarrow> set (B t) \<inter> set (B u) = {}"
  by (induction F) auto

lemma independent_flying:
  assumes "cfg_ok c" "q_inv c B F R w"
  shows "independent (flying c B F)"
proof -
  have dF: "distinct F" "set F \<subseteq> set (c_ts c)" using q_invD(1,2) [OF assms(2)] by auto
  have db: "distinct (concat (map B F))" using q_inv_pool [OF assms(2,1)] by simp
  have D: "cmd_range (cfg_cmd c t (B t)) \<inter> cmd_range (cfg_cmd c u (B u)) = {}
      \<and> cmd_addrs (cfg_cmd c t (B t)) \<inter> cmd_addrs (cfg_cmd c u (B u)) = {}"
    if tu: "t \<in> set F" "u \<in> set F" "t \<noteq> u" for t u
  proof
    show "cmd_range (cfg_cmd c t (B t)) \<inter> cmd_range (cfg_cmd c u (B u)) = {}"
      using cfg_okD(8) [OF assms(1)] tu dF(2) by (auto simp: cmd_range_cfg)
    have "fst ` cmd_addrs (cfg_cmd c s (B s)) \<subseteq> set (B s)" if s: "s \<in> set F" for s
    proof -
      show ?thesis using out_bufs [OF assms(2) s] cmd_addrs_cfg [of c s "B s"] positions_bufs [of "B s" "c_len c s"] by fastforce
    qed
    then have "fst ` cmd_addrs (cfg_cmd c t (B t)) \<inter> fst ` cmd_addrs (cfg_cmd c u (B u)) = {}"
      using tu bufs_disjoint [OF db dF(1) tu] by blast
    then show "cmd_addrs (cfg_cmd c t (B t)) \<inter> cmd_addrs (cfg_cmd c u (B u)) = {}" by blast
  qed
  have E: "case cfg_cmd c t (B t) of Wr a bytes \<Rightarrow> True | Rd a ps \<Rightarrow> distinct ps" if "t \<in> set F" for t
  proof -
    show ?thesis using out_bufs [OF assms(2) that] positions_distinct [of "B t" "c_len c t"] by (simp add: cfg_cmd_def)
  qed
  show ?thesis
    unfolding independent_def
  proof (intro conjI ballI impI)
    fix e f assume ef: "e \<in> set (flying c B F)" "f \<in> set (flying c B F)" "fst e \<noteq> fst f"
    obtain t where t: "t \<in> set F" "e = (t, cfg_cmd c t (B t))" using ef(1) unfolding flying_mem by blast
    obtain u where u: "u \<in> set F" "f = (u, cfg_cmd c u (B u))" using ef(2) unfolding flying_mem by blast
    have "t \<noteq> u" using ef(3) t(2) u(2) by simp
    then show "cmd_range (snd e) \<inter> cmd_range (snd f) = {}" "cmd_addrs (snd e) \<inter> cmd_addrs (snd f) = {}"
      using D [OF t(1) u(1)] t(2) u(2) by simp_all
  next
    fix e assume "e \<in> set (flying c B F)"
    then show "case snd e of Wr a bytes \<Rightarrow> True | Rd a ps \<Rightarrow> distinct ps" using E by (auto simp only: flying_mem snd_conv)
  qed (simp add: dF(1))
qed

lemma cmd_span_cfg: "cmd_span (cfg_cmd c t bs) = {c_off c t ..< c_off c t + c_len c t}"
  by (simp add: cfg_cmd_def)

lemma span_flying:
  assumes "cfg_ok c" "q_inv c B F R w" "e \<in> set (flying c B F)"
  shows "cmd_span (snd e) \<subseteq> c_reg c"
proof -
  obtain t where t: "t \<in> set F" "e = (t, cfg_cmd c t (B t))" using assms(3) unfolding flying_mem by blast
  have "cfg_task_ok c t" using cfg_okD(2) [OF assms(1)] q_invD(2) [OF assms(2)] t(1) by auto
  then show ?thesis by (simp only: t(2) snd_conv cmd_span_cfg cfg_task_ok_def)
qed

context io_mode begin

lemma poll_Ok:
  assumes cfg: "cfg_ok c" "mode_ok c" and inv: "q_inv c B F R w" and M: "M c (set (F @ R)) w (disk (qp w))"
    and env: "completes env (c_reg c) disk inflight idle" and fl: "inflight (qp w) = flying c B F"
  shows "\<exists>w' F'. poll env w = Ok w' \<and> q_inv c B F' R w' \<and> M c (set (F' @ R)) w' (disk (qp w'))
    \<and> inflight (qp w') = flying c B F' \<and> max_queue_depth w' = max_queue_depth w
    \<and> (F = [] \<and> F' = [] \<or> length F' < length F \<or> F' = F \<and> idle (qp w') < idle (qp w))"
proof (cases "F = []")
  case True
  then have "current_queue_depth w = 0" using q_invD(8) [OF inv] by (simp add: unat_eq_0)
  then show ?thesis using True inv M fl by (intro exI [of _ w] exI [of _ F]) (simp add: poll_def)
next
  case False
  then have cq: "current_queue_depth w \<noteq> 0" using q_invD(8) [OF inv] by auto
  have ind: "independent (inflight (qp w))" unfolding fl by (rule independent_flying [OF cfg(1) inv])
  have "cmd_span (snd e) \<subseteq> c_reg c" if "e \<in> set (inflight (qp w))" for e
    using that span_flying [OF cfg(1) inv] by (simp only: fl)
  from env [unfolded completes_def, rule_format, OF ind this, of "dma w"] obtain ts d q where
    P: "process_completions env 0 (dma w) (qp w) = (int (length ts), map (\<lambda>t. (t, False)) ts, d, q)"
      "distinct ts" "set ts \<subseteq> set F" "inflight q = flying c B (filter (\<lambda>t. t \<notin> set ts) F)"
      "\<And>t. t \<in> set F \<Longrightarrow> t \<in> set ts \<Longrightarrow> cmd_done (cfg_cmd c t (B t)) d (disk q)"
      "\<And>a. (\<And>t. t \<in> set F \<Longrightarrow> a \<notin> write_range c t) \<Longrightarrow> disk q a = disk (qp w) a"
      "ts \<noteq> [] \<or> idle q < idle (qp w)"
    unfolding fl flying_ids filter_flying using False by (auto simp: flying_mem cmd_range_cfg flying_def)
  define w1 where "w1 = w\<lparr>dma := d, qp := q\<rparr>"
  have inv1: "q_inv c B F R w1" using inv by (simp add: q_inv_def w1_def out_task_def wait_task_def)
  have "M c (set (F @ R)) w1 (disk (qp w))"
    by (rule issue [OF M]) (simp_all add: frame_def w1_def)
  then have M1: "M c (set (F @ R)) w1 (disk q)"
    by (rule transfer [OF cfg]) (use q_invD(2) [OF inv] P(6) in auto)
  have dn: "cmd_done (cfg_cmd c t (B t)) (dma w1) (disk q)" if "t \<in> set ts" for t
    using P(3,5) that by (auto simp: w1_def)
  obtain w' where w': "complete_all (map (\<lambda>t. (t, False)) ts) w1 = Ok w'" "q_inv c B (filter (\<lambda>t. t \<notin> set ts) F) R w'"
      "M c (set (filter (\<lambda>t. t \<notin> set ts) F @ R)) w' (disk q)" "qp w' = qp w1" "max_queue_depth w' = max_queue_depth w1"
    using complete_all_Ok [OF cfg P(2,3) inv1 M1 dn] by blast
  have "poll env w = Ok w'" using cq P(1) w'(1) by (simp add: poll_def w1_def)
  moreover have "length (filter (\<lambda>t. t \<notin> set ts) F) < length F \<or> filter (\<lambda>t. t \<notin> set ts) F = F \<and> idle q < idle (qp w)"
  proof (cases "ts = []")
    case True
    then show ?thesis using P(7) by simp
  next
    case False
    then obtain t where "t \<in> set F" "t \<in> set ts" using P(3) by (cases ts) auto
    then show ?thesis using length_filter_less [of t F "\<lambda>t. t \<notin> set ts"] by simp
  qed
  ultimately show ?thesis
    using w' P(4) by (intro exI [of _ w'] exI [of _ "filter (\<lambda>t. t \<notin> set ts) F"]) (simp add: w1_def)
qed

text \<open>One turn of the body either issues a command, completes one, or brings a completion nearer.\<close>

lemma turn_Ok:
  assumes cfg: "cfg_ok c" "mode_ok c" and inv: "q_inv c B F R w" and M: "M c (set (F @ R)) w (disk (qp w))"
    and env: "spdk_contract env (c_reg c) (c_bs c) (unat (max_queue_depth w)) disk inflight idle" "inflight (qp w) = flying c B F"
    and pos: "0 < unat (max_queue_depth w)" "length R \<le> m" "F @ R \<noteq> []"
  shows "\<exists>w1 w' B' F' R'. poll env w = Ok w1 \<and> submit_chain m env (head R) w1 = Ok (head R', w')
    \<and> q_inv c B' F' R' w' \<and> M c (set (F' @ R')) w' (disk (qp w')) \<and> inflight (qp w') = flying c B' F'
    \<and> max_queue_depth w' = max_queue_depth w
    \<and> ((length (F' @ R'), length R', idle (qp w')), (length (F @ R), length R, idle (qp w))) \<in> less_than <*lex*> less_than <*lex*> less_than
    \<and> length R' \<le> length R"
proof -
  have ctr: "accepts env (c_reg c) (c_bs c) (unat (max_queue_depth w)) disk inflight" "completes env (c_reg c) disk inflight idle"
    using env(1) by (simp_all add: spdk_contract_def)
  obtain w1 F1 where 1: "poll env w = Ok w1" "q_inv c B F1 R w1" "M c (set (F1 @ R)) w1 (disk (qp w1))"
      "inflight (qp w1) = flying c B F1" "max_queue_depth w1 = max_queue_depth w"
      "F = [] \<and> F1 = [] \<or> length F1 < length F \<or> F1 = F \<and> idle (qp w1) < idle (qp w)"
    using poll_Ok [OF cfg inv M ctr(2) env(2)] by blast
  have src: "umem w1 (t_buf (c_task c t) + p) = c_umem c (t_buf (c_task c t) + p)"
    if "t \<in> set R" "command (c_task c t) = WRITE_COMMAND" "p < c_len c t" for t p
    using source [OF cfg(2) 1(3) _ that(2,3)] q_invD(2) [OF 1(2)] that(1) by auto
  note acc = ctr(1) [folded 1(5)] and pos1 = pos(1) [folded 1(5)]
  from submit_chain_Ok [OF cfg(1) 1(2,4) pos(2) pos1 acc src] obtain w' B' F' R' where
    2: "submit_chain m env (head R) w1 = Ok (head R', w')" "q_inv c B' F' R' w'"
      "inflight (qp w') = flying c B' F'" "F1 @ R = F' @ R'" "disk (qp w') = disk (qp w1)" "frame w1 w'"
      "\<forall>u. u \<notin> set R \<longrightarrow> tasks w' u = tasks w1 u" "R' \<noteq> [] \<longrightarrow> F' \<noteq> []" "length R' \<le> length R"
      "length R' < length R \<or> qp w' = qp w1"
    by blast
  have "M c (set (F1 @ R)) w' (disk (qp w1))"
    by (rule issue [OF 1(3) 2(6)]) (use 2(7) in auto)
  then have M': "M c (set (F' @ R')) w' (disk (qp w'))" unfolding 2(4,5) .
  have len: "length F1 + length R = length F' + length R'" using arg_cong [OF 2(4), of length] by simp
  have "R' = [] \<or> F' \<noteq> []" using 2(8) by blast
  then have "length R' < length R" if "F1 = []" "R \<noteq> []" using that len by (cases F') auto
  then have "((length (F' @ R'), length R', idle (qp w')), (length (F @ R), length R, idle (qp w))) \<in> less_than <*lex*> less_than <*lex*> less_than"
    using 1(6) 2(9,10) len pos(3) by auto
  then show ?thesis using 1(1,5) 2(1,2,3,6,9) M' by (auto simp: frame_def)
qed

text \<open>The loop ends, with every task completed.\<close>

lemma aio_handle_Ok:
  assumes cfg: "cfg_ok c" "mode_ok c" and m: "length (c_ts c) \<le> m"
  shows "q_inv c B F R w \<Longrightarrow> M c (set (F @ R)) w (disk (qp w)) \<Longrightarrow>
    spdk_contract env (c_reg c) (c_bs c) (unat (max_queue_depth w)) disk inflight idle \<Longrightarrow> inflight (qp w) = flying c B F \<Longrightarrow>
    0 < unat (max_queue_depth w) \<Longrightarrow> (F @ R = [] \<longrightarrow> test) \<Longrightarrow>
    \<exists>k0 w' B'. (\<forall>k \<ge> k0. aio_handle k m env test (head R) w = Ok w') \<and> q_inv c B' [] [] w' \<and> M c {} w' (disk (qp w'))
      \<and> inflight (qp w') = [] \<and> max_queue_depth w' = max_queue_depth w"
proof (induction "(length (F @ R), length R, idle (qp w))" arbitrary: B F R w test
    rule: wf_induct [OF wf_lex_prod [OF wf_less_than wf_lex_prod [OF wf_less_than wf_less_than]]])
  case 1
  note IH = 1(1) and inv = 1(2) and M = 1(3) and env = 1(4) and fl = 1(5) and pos = 1(6) and ft = 1(7)
  have nr: "num_running (ioc w) = 0 \<longleftrightarrow> F @ R = []" unfolding q_invD(7) [OF inv] of_nat_eq_0_iff by simp
  show ?case
  proof (cases "F @ R = []")
    case True
    then have "test" "num_running (ioc w) = 0" using ft nr by simp_all
    then have "aio_handle k m env test (head R) w = Ok w" for k by (cases k) simp_all
    then show ?thesis using True inv M fl by (intro exI [of _ 0] exI [of _ w] exI [of _ B]) (simp add: flying_def)
  next
    case False
    have lR: "length R \<le> m"
    proof -
      have "length (F @ R) \<le> length (c_ts c)"
        using q_invD(1,2) [OF inv] by (metis card_mono distinct_card List.finite_set cfg_okD(1) [OF cfg(1)])
      then show ?thesis using m by simp
    qed
    obtain w1 w2 B' F' R' where T: "poll env w = Ok w1" "submit_chain m env (head R) w1 = Ok (head R', w2)"
      "q_inv c B' F' R' w2" "M c (set (F' @ R')) w2 (disk (qp w2))" "inflight (qp w2) = flying c B' F'"
      "max_queue_depth w2 = max_queue_depth w"
      "((length (F' @ R'), length R', idle (qp w2)), (length (F @ R), length R, idle (qp w))) \<in> less_than <*lex*> less_than <*lex*> less_than"
      using turn_Ok [OF cfg inv M env fl pos lR False] by blast
    have "\<exists>k0 w' B2. (\<forall>k \<ge> k0. aio_handle k m env (head R' = None) (head R') w2 = Ok w') \<and> q_inv c B2 [] [] w'
        \<and> M c {} w' (disk (qp w')) \<and> inflight (qp w') = [] \<and> max_queue_depth w' = max_queue_depth w2"
      by (rule IH [rule_format, OF T(7) refl T(3,4) env [folded T(6)] T(5) pos [folded T(6)]]) simp
    then obtain k0 w' B2 where
      R: "\<forall>k \<ge> k0. aio_handle k m env (head R' = None) (head R') w2 = Ok w'" "q_inv c B2 [] [] w'" "M c {} w' (disk (qp w'))"
        "inflight (qp w') = []" "max_queue_depth w' = max_queue_depth w2"
      by blast
    have "aio_handle k m env test (head R) w = Ok w'" if k: "Suc k0 \<le> k" for k
    proof -
      obtain j where "k = Suc j" "k0 \<le> j" using k by (cases k) auto
      then show ?thesis using T(1,2) R(1) False nr by (auto simp del: append_is_Nil_conv)
    qed
    then show ?thesis using R T(6) by (intro exI [of _ "Suc k0"] exI [of _ w'] exI [of _ B2]) simp
  qed
qed

end

subsection \<open>Writes\<close>

definition give_back :: "buf_id list \<Rightarrow> 'a world_scheme \<Rightarrow> 'a world_scheme" where
  "give_back bs w = w\<lparr>data_buf_list := rev bs @ data_buf_list w,
     ioc := (ioc w)\<lparr>total_nseg := total_nseg (ioc w) - int (length bs)\<rparr>\<rparr>"

lemma give_back_simps [simp]:
  "tasks (give_back bs w) = tasks w" "data_buf_list (give_back bs w) = rev bs @ data_buf_list w" "dma (give_back bs w) = dma w"
  "umem (give_back bs w) = umem w" "callbacks (give_back bs w) = callbacks w"
  "ioc (give_back bs w) = (ioc w)\<lparr>total_nseg := total_nseg (ioc w) - int (length bs)\<rparr>"
  by (simp_all add: give_back_def)

lemma give_back_queue [simp]:
  "qp (give_back bs w) = qp w" "max_queue_depth (give_back bs w) = max_queue_depth w"
  "current_queue_depth (give_back bs w) = current_queue_depth w" "q_block_size (give_back bs w) = q_block_size w"
  by (simp_all add: give_back_def)

lemma delete_Ok:
  "tasks w t = Some x \<Longrightarrow> nseg (io_request x) = 0 \<Longrightarrow> primary x = None \<Longrightarrow>
    delete_task t w = Ok (w\<lparr>tasks := (tasks w)(t := None)\<rparr>)"
  by (simp add: delete_task_def deref_def)

lemma release_give_back:
  "tasks w t = Some x \<Longrightarrow> loaded x bs \<Longrightarrow> extra_segs (io_request x) = None \<Longrightarrow>
    release_segs t w = Ok (put_task t (x\<lparr>io_request := (io_request x)\<lparr>nseg := 0\<rparr>\<rparr>) (give_back bs w))"
  by (simp add: release_Ok give_back_def)

lemma ioc_kept_total [simp]: "ioc_kept c (w\<lparr>ioc := (ioc w)\<lparr>total_nseg := n\<rparr>\<rparr>) = ioc_kept c w"
  by (simp add: ioc_kept_def)

lemma ioc_kept_give_back [simp]: "ioc_kept c (give_back bs w) = ioc_kept c w"
  by (simp add: ioc_kept_def)

lemma told_give_back [simp]: "told c b (give_back bs w) = told c b w"
  by (simp add: told_def)

lemma kept_tasks [simp]:
  "ioc_kept c (w\<lparr>tasks := ts\<rparr>) = ioc_kept c w" "told c b (w\<lparr>tasks := ts\<rparr>) = told c b w"
  "ioc_kept c (put_task t x w) = ioc_kept c w" "told c b (put_task t x w) = told c b w"
  by (simp_all add: ioc_kept_def told_def put_task_def)

definition write_ok :: "run_cfg \<Rightarrow> bool" where
  "write_ok c \<longleftrightarrow> (\<forall>t \<in> set (c_ts c). command (c_task c t) = WRITE_COMMAND \<and> primary (c_task c t) = None)"

definition written :: "run_cfg \<Rightarrow> task_id \<Rightarrow> (nat \<Rightarrow> u8) \<Rightarrow> bool" where
  "written c t m \<longleftrightarrow> (\<forall>p < c_len c t. m (c_off c t + p) = c_umem c (t_buf (c_task c t) + p))"

definition write_state :: "run_cfg \<Rightarrow> task_id set \<Rightarrow> 'q queue \<Rightarrow> (nat \<Rightarrow> u8) \<Rightarrow> bool" where
  "write_state c S w m \<longleftrightarrow> S \<subseteq> set (c_ts c) \<and> umem w = c_umem c \<and> ioc_kept c w \<and> told c (S = {}) w
     \<and> (\<forall>u. u \<notin> set (c_ts c) \<longrightarrow> tasks w u = c_heap c u)
     \<and> (\<forall>t \<in> set (c_ts c) - S. tasks w t = None \<and> written c t m)
     \<and> (\<forall>a. (\<forall>t \<in> set (c_ts c). a \<notin> write_range c t) \<longrightarrow> m a = c_disk c a)"

lemma write_stateD:
  assumes "write_state c S w m"
  shows "S \<subseteq> set (c_ts c)" "umem w = c_umem c" "ioc_kept c w" "told c (S = {}) w"
    "u \<notin> set (c_ts c) \<Longrightarrow> tasks w u = c_heap c u" "t \<in> set (c_ts c) \<Longrightarrow> t \<notin> S \<Longrightarrow> tasks w t = None"
    "t \<in> set (c_ts c) \<Longrightarrow> t \<notin> S \<Longrightarrow> written c t m"
    "(\<And>t. t \<in> set (c_ts c) \<Longrightarrow> a \<notin> write_range c t) \<Longrightarrow> m a = c_disk c a"
  using assms unfolding write_state_def by blast+

lemma write_complete:
  fixes w :: "'q queue"
  assumes cfg: "cfg_ok c" "write_ok c" and inv: "q_inv c B F R w" and t: "t \<in> set F"
    and M: "write_state c (set (F @ R)) w m" and dn: "cmd_done (cfg_cmd c t (B t)) (dma w) m"
  shows "\<exists>w'. io_complete t False w = Ok w' \<and> q_inv c B (remove1 t F) R w' \<and> write_state c (set (F @ R) - {t}) w' m
        \<and> qp w' = qp w \<and> dma w' = dma w \<and> max_queue_depth w' = max_queue_depth w"
proof -
  note I = q_invD [OF inv] and W = write_stateD [OF M]
  obtain x where x: "tasks w t = Some x" "sim x (c_task c t)" "loaded x (B t)" "extra_segs (io_request x) = None" "t_queue x"
    using out_taskD [OF inv t] by blast
  have tc: "t \<in> set (c_ts c)" using I(2) t by auto
  have cm: "command x = WRITE_COMMAND" "primary x = None" using cfg(2) tc simD [OF x(2)] by (simp_all add: write_ok_def)
  define w1 where "w1 = w\<lparr>current_queue_depth := current_queue_depth w - 1\<rparr>"
  define w2 where "w2 = give_back (B t) (after_notify w1)"
  define w3 where "w3 = w2\<lparr>tasks := (tasks w)(t := None)\<rparr>"
  have nr: "num_running (ioc w1) = int (length F + length R)" using I(7) by (simp add: w1_def)
  then have pos: "1 \<le> num_running (ioc w1)" using t by (cases F) simp_all
  have tk: "tasks (after_notify w1) t = Some x" using x(1) by (simp add: w1_def)
  have "io_complete t False w = Ok w3"
    using x(1,5) cm notify_Ok [OF pos] release_give_back [OF tk x(3,4)]
    by (simp add: io_complete_def deref_def Let_def w1_def [symmetric] w2_def [symmetric] w3_def
        delete_task_def put_task_def) (simp add: w2_def w1_def)
  moreover have "q_inv c B (remove1 t F) R w3"
    by (rule q_inv_complete [OF inv t]) (simp_all add: w3_def w2_def w1_def)
  moreover have "write_state c (set (F @ R) - {t}) w3 m"
  proof -
    have tFR: "t \<in> set (F @ R)" using t by simp
    have "num_running (ioc w1) = 1 \<longleftrightarrow> set (F @ R) - {t} = {}"
    proof -
      have "card (set (F @ R) - {t}) = length F + length R - 1" using distinct_card [OF I(1)] tFR by simp
      then have "set (F @ R) - {t} = {} \<longleftrightarrow> length F + length R - 1 = 0" by (metis card_0_eq finite_Diff List.finite_set)
      moreover have "1 \<le> length F + length R" using t by (cases F) simp_all
      ultimately show ?thesis unfolding nr by linarith
    qed
    moreover have ne: "(set (F @ R) = {}) = False" using tFR by (metis empty_iff)
    have "told c False w" using W(4) unfolding ne .
    then have "told c False w1" "ioc_kept c w1" using W(3) by (simp_all add: w1_def told_def ioc_kept_def)
    ultimately have td: "told c (set (F @ R) - {t} = {}) w3" "ioc_kept c w3"
      using told_after_notify [of c w1] by (simp_all add: w3_def w2_def)
    have wt: "written c t m"
      using dn cfg(2) tc by (simp add: written_def cfg_cmd_def write_ok_def)
    show ?thesis
      unfolding write_state_def
    proof (intro conjI allI ballI impI)
      show "set (F @ R) - {t} \<subseteq> set (c_ts c)" using W(1) by blast
      show "umem w3 = c_umem c" using W(2) by (simp add: w3_def w2_def w1_def)
      show "ioc_kept c w3" "told c (set (F @ R) - {t} = {}) w3" using td by simp_all
      show "tasks w3 u = c_heap c u" if "u \<notin> set (c_ts c)" for u
      proof -
        have "u \<noteq> t" using that tc by blast
        then show ?thesis using W(5) [OF that] by (simp add: w3_def)
      qed
      fix u assume u: "u \<in> set (c_ts c) - (set (F @ R) - {t})"
      show "tasks w3 u = None" using u W(6) [of u] by (cases "u = t") (simp_all add: w3_def)
      show "written c u m" using u W(7) [of u] wt by (cases "u = t") simp_all
    next
      show "m a = c_disk c a" if "\<forall>t \<in> set (c_ts c). a \<notin> write_range c t" for a using W(8) [of a] that by blast
    qed
  qed
  ultimately show ?thesis by (intro exI [of _ w3]) (simp add: w3_def w2_def w1_def)
qed

lemma written_frame:
  assumes "cfg_ok c" "write_ok c" "t \<in> set (c_ts c)" "written c t m"
    "\<And>a. a \<in> write_range c t \<Longrightarrow> m' a = m a"
  shows "written c t m'"
  using assms by (simp add: written_def write_range_def write_ok_def)

lemma write_issue:
  assumes "write_state c S w m" "frame w w'" "\<And>u. u \<notin> S \<Longrightarrow> tasks w' u = tasks w u"
  shows "write_state c S w' m"
proof -
  note W = write_stateD [OF assms(1)]
  have "tasks w' u = c_heap c u" if "u \<notin> set (c_ts c)" for u
    using assms(3) [of u] W(1) W(5) [OF that] that by auto
  moreover have "tasks w' t = None" if "t \<in> set (c_ts c)" "t \<notin> S" for t
    using assms(3) [OF that(2)] W(6) [OF that] by simp
  ultimately show ?thesis
    using W(1,2,3,4) W(7) W(8) frameD [OF assms(2)] unfolding write_state_def by simp
qed

lemma write_transfer:
  assumes "cfg_ok c" "write_ok c" "write_state c S w m" "S \<subseteq> set (c_ts c)"
    "\<And>a. (\<And>t. t \<in> S \<Longrightarrow> a \<notin> write_range c t) \<Longrightarrow> m' a = m a"
  shows "write_state c S w m'"
proof -
  note W = write_stateD [OF assms(3)]
  have "written c t m'" if t: "t \<in> set (c_ts c)" "t \<notin> S" for t
  proof (rule written_frame [OF assms(1,2) t(1) W(7) [OF t]])
    fix a assume a: "a \<in> write_range c t"
    show "m' a = m a"
    proof (rule assms(5))
      fix s assume s: "s \<in> S"
      then have "s \<noteq> t" "s \<in> set (c_ts c)" using t assms(4) by auto
      then show "a \<notin> write_range c s" using cfg_okD(8) [OF assms(1), of s t] t(1) a by blast
    qed
  qed
  moreover have "m' a = c_disk c a" if "\<forall>t \<in> set (c_ts c). a \<notin> write_range c t" for a
    using assms(4,5) W(8) [of a] that by (metis subsetD)
  ultimately show ?thesis using assms(3) unfolding write_state_def by blast
qed

interpretation wr: io_mode write_ok "write_state :: run_cfg \<Rightarrow> task_id set \<Rightarrow> 'q queue \<Rightarrow> (nat \<Rightarrow> u8) \<Rightarrow> bool"
proof
  fix c S and w w' :: "'q queue" and m m' :: "nat \<Rightarrow> u8" and t p
  show "write_ok c \<Longrightarrow> write_state c S w m \<Longrightarrow> umem w (t_buf (c_task c t) + p) = c_umem c (t_buf (c_task c t) + p)"
    using write_stateD(2) by metis
  show "write_state c S w' m" if "write_state c S w m" "frame w w'" "\<And>u. u \<notin> S \<Longrightarrow> tasks w' u = tasks w u"
    using that by (rule write_issue)
  show "write_state c S w m'" if "cfg_ok c" "write_ok c" "write_state c S w m" "S \<subseteq> set (c_ts c)"
      "\<And>a. (\<And>t. t \<in> S \<Longrightarrow> a \<notin> write_range c t) \<Longrightarrow> m' a = m a"
    using that by (rule write_transfer)
qed (rule write_complete)

end
