(* ===== verification/Queue_Run.thy ===== *)
theory Queue_Run
  imports Driver_Queue
begin

section \<open>Whole runs of the NVMe queue\<close>

text \<open>
  The second kind of submission that \<open>_aio_handle\<close> serves, reads, and what a whole run of the loop
  achieves, for writes and for reads, over any library and device that keep \<open>spdk_contract\<close>.
\<close>

subsection \<open>Reads\<close>

text \<open>
  Three kinds: the asynchronous read (return code 0, no primary), the synchronous read of one task
  (return code not 0, no primary: the task outlives the run and its return code becomes 0), and the
  synchronous read of several tasks, whose common primary counts them.
\<close>

definition c_fill :: "run_cfg \<Rightarrow> task_id \<Rightarrow> fill" where
  "c_fill c t = the (fill_cb (c_task c t))"

definition fill_range :: "run_cfg \<Rightarrow> task_id \<Rightarrow> nat set" where
  "fill_range c t = {fill_buf (c_fill c t) ..< fill_buf (c_fill c t) + unat (fill_len (c_fill c t))}"

definition read_task_ok :: "run_cfg \<Rightarrow> task_id \<Rightarrow> bool" where
  "read_task_ok c t \<longleftrightarrow> command (c_task c t) = READ_COMMAND \<and> fill_cb (c_task c t) \<noteq> None
     \<and> unat (fill_off (c_fill c t)) \<le> 8192 \<and> unat (fill_off (c_fill c t)) + unat (fill_len (c_fill c t)) \<le> c_len c t
     \<and> primary (c_task c t) = c_primary c \<and> (return_code (c_task c t) = 0 \<longleftrightarrow> \<not> c_sync c)"

definition read_ok :: "run_cfg \<Rightarrow> bool" where
  "read_ok c \<longleftrightarrow> (\<forall>t \<in> set (c_ts c). read_task_ok c t) \<and> (c_primary c \<noteq> None \<longrightarrow> c_sync c)
     \<and> (\<forall>t \<in> set (c_ts c). c_primary c \<noteq> Some t)
     \<and> (\<forall>t \<in> set (c_ts c). \<forall>u \<in> set (c_ts c). t \<noteq> u \<longrightarrow> fill_range c t \<inter> fill_range c u = {})"

definition delivered :: "run_cfg \<Rightarrow> task_id \<Rightarrow> (nat \<Rightarrow> u8) \<Rightarrow> bool" where
  "delivered c t m \<longleftrightarrow> (\<forall>p < unat (fill_len (c_fill c t)).
     m (fill_buf (c_fill c t) + p) = c_disk c (c_off c t + unat (fill_off (c_fill c t)) + p))"

definition task_left :: "run_cfg \<Rightarrow> task_id \<Rightarrow> task option \<Rightarrow> bool" where
  "task_left c t x \<longleftrightarrow> (if c_sync c \<and> c_primary c = None
     then (\<exists>y. x = Some y \<and> return_code y = 0 \<and> nseg (io_request y) = 0 \<and> primary y = None) else x = None)"

definition primary_at :: "nat \<Rightarrow> task option \<Rightarrow> bool" where
  "primary_at n x \<longleftrightarrow> (\<exists>y. x = Some y \<and> t_ref y = int n \<and> return_code y = (if n = 0 then 0 else 1)
     \<and> nseg (io_request y) = 0 \<and> primary y = None)"

definition read_state :: "run_cfg \<Rightarrow> task_id set \<Rightarrow> 'q queue \<Rightarrow> (nat \<Rightarrow> u8) \<Rightarrow> bool" where
  "read_state c S w m \<longleftrightarrow> S \<subseteq> set (c_ts c) \<and> (\<forall>t \<in> set (c_ts c). c_primary c \<noteq> Some t) \<and> m = c_disk c
     \<and> ioc_kept c w \<and> told c (S = {} \<and> \<not> c_sync c) w
     \<and> (\<forall>u. u \<notin> set (c_ts c) \<longrightarrow> c_primary c \<noteq> Some u \<longrightarrow> tasks w u = c_heap c u)
     \<and> (\<forall>t \<in> set (c_ts c) - S. delivered c t (umem w) \<and> task_left c t (tasks w t))
     \<and> (\<forall>q. c_primary c = Some q \<longrightarrow> primary_at (card S) (tasks w q))
     \<and> (\<forall>a. (\<forall>t \<in> set (c_ts c). a \<notin> fill_range c t) \<longrightarrow> umem w a = c_umem c a)"

lemma read_stateD:
  assumes "read_state c S w m"
  shows "S \<subseteq> set (c_ts c)" "t \<in> set (c_ts c) \<Longrightarrow> c_primary c \<noteq> Some t" "m = c_disk c" "ioc_kept c w"
    "told c (S = {} \<and> \<not> c_sync c) w"
    "u \<notin> set (c_ts c) \<Longrightarrow> c_primary c \<noteq> Some u \<Longrightarrow> tasks w u = c_heap c u"
    "t \<in> set (c_ts c) \<Longrightarrow> t \<notin> S \<Longrightarrow> delivered c t (umem w)" "t \<in> set (c_ts c) \<Longrightarrow> t \<notin> S \<Longrightarrow> task_left c t (tasks w t)"
    "c_primary c = Some q \<Longrightarrow> primary_at (card S) (tasks w q)"
    "(\<And>t. t \<in> set (c_ts c) \<Longrightarrow> a \<notin> fill_range c t) \<Longrightarrow> umem w a = c_umem c a"
  using assms unfolding read_state_def by blast+

lemma read_okD:
  assumes "read_ok c" "t \<in> set (c_ts c)"
  shows "command (c_task c t) = READ_COMMAND" "fill_cb (c_task c t) = Some (c_fill c t)"
    "unat (fill_off (c_fill c t)) \<le> 8192" "unat (fill_off (c_fill c t)) + unat (fill_len (c_fill c t)) \<le> c_len c t"
    "primary (c_task c t) = c_primary c" "return_code (c_task c t) = 0 \<longleftrightarrow> \<not> c_sync c"
    "c_primary c \<noteq> None \<Longrightarrow> c_sync c" "c_primary c \<noteq> Some t"
    "u \<in> set (c_ts c) \<Longrightarrow> t \<noteq> u \<Longrightarrow> fill_range c t \<inter> fill_range c u = {}"
  using assms unfolding read_ok_def read_task_ok_def c_fill_def by auto

lemma delivered_frame:
  assumes "delivered c t m" "\<And>a. a \<in> fill_range c t \<Longrightarrow> m' a = m a"
  shows "delivered c t m'"
  using assms by (simp add: delivered_def fill_range_def)

text \<open>What one completion has to do to the description.\<close>

lemma read_state_done:
  assumes ok: "read_ok c" and M: "read_state c S w m" and t: "t \<in> S"
    and dv: "delivered c t (umem w')" "\<And>a. a \<notin> fill_range c t \<Longrightarrow> umem w' a = umem w a"
    and io: "ioc_kept c w'" "told c (S - {t} = {} \<and> \<not> c_sync c) w'"
    and tk: "\<And>u. u \<noteq> t \<Longrightarrow> c_primary c \<noteq> Some u \<Longrightarrow> tasks w' u = tasks w u" "task_left c t (tasks w' t)"
    and pr: "\<And>q. c_primary c = Some q \<Longrightarrow> primary_at (card (S - {t})) (tasks w' q)"
  shows "read_state c (S - {t}) w' m"
proof -
  note R = read_stateD [OF M]
  have tc: "t \<in> set (c_ts c)" using R(1) t by blast
  show ?thesis
    unfolding read_state_def
  proof (intro conjI allI ballI impI)
    show "S - {t} \<subseteq> set (c_ts c)" using R(1) by blast
    show "c_primary c \<noteq> Some u" if "u \<in> set (c_ts c)" for u by (rule R(2) [OF that])
    show "m = c_disk c" by (rule R(3))
    show "tasks w' u = c_heap c u" if "u \<notin> set (c_ts c)" "c_primary c \<noteq> Some u" for u
      using R(6) [OF that] tk(1) [of u] that tc by metis
    fix u assume u: "u \<in> set (c_ts c) - (S - {t})"
    show "delivered c u (umem w')"
    proof (cases "u = t")
      case False
      then have "u \<in> set (c_ts c)" "u \<notin> S" using u by auto
      then show ?thesis
        using delivered_frame [OF R(7) [of u], of "umem w'"] dv(2) read_okD(9) [OF ok tc, of u] False by blast
    qed (simp add: dv(1))
    show "task_left c u (tasks w' u)"
    proof (cases "u = t")
      case False
      then have "u \<in> set (c_ts c)" "u \<notin> S" using u by auto
      then show ?thesis using R(8) [of u] R(2) [of u] tk(1) [OF False] by simp
    qed (simp add: tk(2))
  next
    show "umem w' a = c_umem c a" if "\<forall>u \<in> set (c_ts c). a \<notin> fill_range c u" for a
      using R(10) [of a] dv(2) [of a] that tc by metis
  qed (use io pr in auto)
qed

text \<open>The fill callback copies the slice that the task was built for.\<close>

lemma fill_cb_Ok:
  assumes x: "tasks w t = Some x" "sim x (c_task c t)" "loaded x (B t)" and ok: "read_ok c" "t \<in> set (c_ts c)"
    and dn: "cmd_done (cfg_cmd c t (B t)) (dma w) (c_disk c)"
  obtains m where "run_fill_cb t w = Ok (w\<lparr>umem := m\<rparr>)" "delivered c t m" "\<And>a. a \<notin> fill_range c t \<Longrightarrow> m a = umem w a"
proof -
  note K = read_okD [OF ok] and L = loadedD [OF x(3)] and X = simD [OF x(2)]
  define f where "f = c_fill c t"
  define m where "m = (\<lambda>a. if fill_buf f \<le> a \<and> a < fill_buf f + unat (fill_len f)
    then payload (dma w) (B t) (unat (fill_off f) + (a - fill_buf f)) else umem w a)"
  have len: "unat (fill_off f) + unat (fill_len f) \<le> length (B t) * 8192"
    using K(4) L(6) X(3) by (simp add: f_def)
  have "run_fill_cb t w = Ok (w\<lparr>umem := m\<rparr>)"
    using copy_loop_start [OF L(4) len, of "dma w" "fill_buf f" "umem w"] K(2,3) x(1) X(5)
    by (simp add: run_fill_cb_def copy_to_buf_def deref_def m_def f_def)
  moreover have "delivered c t m"
    unfolding delivered_def f_def [symmetric]
  proof (intro allI impI)
    fix p assume p: "p < unat (fill_len f)"
    then have "unat (fill_off f) + p < c_len c t" using K(4) by (simp add: f_def)
    then have "payload (dma w) (B t) (unat (fill_off f) + p) = c_disk c (c_off c t + (unat (fill_off f) + p))"
      using dn K(1) by (simp add: cfg_cmd_def positions_nth payload_def)
    then show "m (fill_buf f + p) = c_disk c (c_off c t + unat (fill_off f) + p)"
      using p by (simp add: m_def add.assoc)
  qed
  moreover have "m a = umem w a" if "a \<notin> fill_range c t" for a
    using that by (auto simp: m_def fill_range_def f_def)
  ultimately show ?thesis by (rule that)
qed

lemma last_one:
  assumes "distinct (F @ R)" "t \<in> set F"
  shows "card (set (F @ R) - {t}) = length F + length R - 1" "set (F @ R) - {t} = {} \<longleftrightarrow> length F + length R = 1"
    "card (set (F @ R)) = length F + length R" "1 \<le> length F + length R" "t \<in> set (F @ R)"
proof -
  show *: "card (set (F @ R)) = length F + length R" "t \<in> set (F @ R)" using distinct_card [OF assms(1)] assms(2) by simp_all
  then show **: "card (set (F @ R) - {t}) = length F + length R - 1" by simp
  show pos: "1 \<le> length F + length R" using assms(2) by (cases F) simp_all
  have "set (F @ R) - {t} = {} \<longleftrightarrow> card (set (F @ R) - {t}) = 0" by (metis card_0_eq finite_Diff List.finite_set)
  then show "set (F @ R) - {t} = {} \<longleftrightarrow> length F + length R = 1" using ** pos by linarith
qed

text \<open>The state after the copy and the release of the segments, which the three kinds share.\<close>

definition read_mid :: "task_id \<Rightarrow> task \<Rightarrow> buf_id list \<Rightarrow> (nat \<Rightarrow> u8) \<Rightarrow> 'q queue \<Rightarrow> 'q queue" where
  "read_mid t x bs m w = put_task t (x\<lparr>io_request := (io_request x)\<lparr>nseg := 0\<rparr>\<rparr>)
     (give_back bs (w\<lparr>current_queue_depth := current_queue_depth w - 1, umem := m\<rparr>))"

lemma read_mid_simps [simp]:
  "tasks (read_mid t x bs m w) = (tasks w)(t \<mapsto> x\<lparr>io_request := (io_request x)\<lparr>nseg := 0\<rparr>\<rparr>)"
  "umem (read_mid t x bs m w) = m" "dma (read_mid t x bs m w) = dma w" "qp (read_mid t x bs m w) = qp w"
  "max_queue_depth (read_mid t x bs m w) = max_queue_depth w" "q_block_size (read_mid t x bs m w) = q_block_size w"
  "current_queue_depth (read_mid t x bs m w) = current_queue_depth w - 1"
  "data_buf_list (read_mid t x bs m w) = rev bs @ data_buf_list w"
  "num_running (ioc (read_mid t x bs m w)) = num_running (ioc w)"
  "total_nseg (ioc (read_mid t x bs m w)) = total_nseg (ioc w) - int (length bs)"
  "ioc_kept c (read_mid t x bs m w) = ioc_kept c w" "told c b (read_mid t x bs m w) = told c b w"
  by (simp_all add: read_mid_def put_task_def ioc_kept_def told_def)

definition read_tail :: "task_id \<Rightarrow> task \<Rightarrow> 'q queue \<Rightarrow> 'q queue res" where
  "read_tail t task w =
     (if return_code task = 0
      then rbind (notify_done w) (\<lambda>w. delete_task t w)
      else rbind (case primary task of
               Some q \<Rightarrow> rbind (delete_task t w) (\<lambda>w. rbind (deref q w) (\<lambda>y.
                 if t_ref y = 0 then set_return_code q 0 w else Ok w))
             | None \<Rightarrow> set_return_code t 0 w)
           (\<lambda>w. Ok (set_running (num_running (ioc w) - 1) w)))"

lemma io_complete_read:
  assumes "tasks w t = Some x" "command x = READ_COMMAND" "loaded x bs" "extra_segs (io_request x) = None" "t_queue x"
    "run_fill_cb t (w\<lparr>current_queue_depth := current_queue_depth w - 1\<rparr>)
       = Ok (w\<lparr>current_queue_depth := current_queue_depth w - 1, umem := m\<rparr>)"
  shows "io_complete t False w = read_tail t x (read_mid t x bs m w)"
proof -
  have "release_segs t (w\<lparr>current_queue_depth := current_queue_depth w - 1, umem := m\<rparr>) = Ok (read_mid t x bs m w)"
    using release_give_back [OF _ assms(3,4), of "w\<lparr>current_queue_depth := current_queue_depth w - 1, umem := m\<rparr>" t] assms(1)
    by (simp add: read_mid_def)
  then show ?thesis
    using assms(1,2,5,6) by (simp add: io_complete_def deref_def Let_def read_tail_def cong: if_cong option.case_cong)
qed

definition same_buffers :: "'q queue \<Rightarrow> 'q queue \<Rightarrow> bool" where
  "same_buffers w w' \<longleftrightarrow> umem w' = umem w \<and> dma w' = dma w \<and> qp w' = qp w \<and> max_queue_depth w' = max_queue_depth w
     \<and> q_block_size w' = q_block_size w \<and> current_queue_depth w' = current_queue_depth w
     \<and> data_buf_list w' = data_buf_list w \<and> total_nseg (ioc w') = total_nseg (ioc w)
     \<and> num_running (ioc w') = num_running (ioc w) - 1"

lemma set_running_simps [simp]:
  "tasks (set_running n w) = tasks w" "umem (set_running n w) = umem w" "dma (set_running n w) = dma w"
  "data_buf_list (set_running n w) = data_buf_list w" "total_nseg (ioc (set_running n w)) = total_nseg (ioc w)"
  "num_running (ioc (set_running n w)) = n"
  "ioc_kept c (set_running n w) = ioc_kept c w" "told c b (set_running n w) = told c b w"
  by (simp_all add: set_running_def ioc_kept_def told_def)

lemma set_running_queue [simp]:
  "qp (set_running n w) = qp w" "max_queue_depth (set_running n w) = max_queue_depth w"
  "current_queue_depth (set_running n w) = current_queue_depth w" "q_block_size (set_running n w) = q_block_size w"
  by (simp_all add: set_running_def)

lemma read_tail_Ok:
  assumes x: "tasks w t = Some y" "nseg (io_request y) = 0" "primary y = c_primary c" "primary x = c_primary c"
      "return_code x = 0 \<longleftrightarrow> \<not> c_sync c"
    and kind: "c_primary c \<noteq> None \<Longrightarrow> c_sync c" "c_primary c \<noteq> Some t"
    and n: "num_running (ioc w) = int n" "1 \<le> n" and io: "ioc_kept c w" "told c False w"
    and pr: "\<And>q. c_primary c = Some q \<Longrightarrow> primary_at n (tasks w q)"
  shows "\<exists>w'. read_tail t x w = Ok w' \<and> same_buffers w w' \<and> ioc_kept c w' \<and> told c (n = 1 \<and> \<not> c_sync c) w'
    \<and> (\<forall>u. u \<noteq> t \<longrightarrow> c_primary c \<noteq> Some u \<longrightarrow> tasks w' u = tasks w u) \<and> task_left c t (tasks w' t)
    \<and> (\<forall>q. c_primary c = Some q \<longrightarrow> primary_at (n - 1) (tasks w' q))"
proof (cases "c_primary c")
  case None
  show ?thesis
  proof (cases "c_sync c")
    case True
    define w' where "w' = set_running (num_running (ioc w) - 1) (put_task t (y\<lparr>return_code := 0\<rparr>) w)"
    have "read_tail t x w = Ok w'"
      using x True None by (simp add: read_tail_def set_return_code_def deref_def w'_def put_task_def)
    moreover have "task_left c t (tasks w' t)" using x True None by (simp add: task_left_def w'_def put_task_def)
    ultimately show ?thesis
      using io True None by (intro exI [of _ w']) (simp add: w'_def same_buffers_def put_task_def [of t])
  next
    case False
    define w' where "w' = (after_notify w)\<lparr>tasks := (tasks w)(t := None)\<rparr>"
    have "read_tail t x w = Ok w'"
      using x False None n notify_Ok [of w] delete_Ok [of "after_notify w" t y] by (simp add: read_tail_def w'_def)
    moreover have "told c (n = 1) w'" "ioc_kept c w'"
      using told_after_notify [OF io] io(1) n(1) by (simp_all add: w'_def)
    moreover have "task_left c t (tasks w' t)" using False by (simp add: task_left_def w'_def)
    ultimately show ?thesis using False None by (intro exI [of _ w']) (simp add: w'_def same_buffers_def)
  qed
next
  case (Some q)
  then have sy: "c_sync c" "q \<noteq> t" using kind by auto
  obtain z where z: "tasks w q = Some z" "t_ref z = int n" "return_code z = 1" "nseg (io_request z) = 0" "primary z = None"
    using pr [OF Some] n(2) by (auto simp: primary_at_def)
  define z1 where "z1 = z\<lparr>t_ref := t_ref z - 1\<rparr>"
  define z2 where "z2 = (if t_ref z1 = 0 then z1\<lparr>return_code := 0\<rparr> else z1)"
  define w' where "w' = set_running (num_running (ioc w) - 1) (w\<lparr>tasks := (tasks w)(q \<mapsto> z2, t := None)\<rparr>)"
  have del: "delete_task t w = Ok (w\<lparr>tasks := (tasks w)(q \<mapsto> z1, t := None)\<rparr>)"
    using x z sy(2) Some by (simp add: delete_task_def deref_def put_task_def z1_def)
  have "read_tail t x w = Ok w'"
    using x sy Some del by (simp add: read_tail_def deref_def set_return_code_def put_task_def w'_def z2_def fun_upd_twist)
  moreover have "primary_at (n - 1) (tasks w' q)"
    using z n(2) sy(2) by (auto simp: primary_at_def w'_def z2_def z1_def)
  moreover have "task_left c t (tasks w' t)" using Some by (simp add: task_left_def w'_def)
  ultimately show ?thesis
    using io sy Some by (intro exI [of _ w']) (auto simp: w'_def same_buffers_def)
qed

lemma read_complete:
  fixes w :: "'q queue"
  assumes cfg: "cfg_ok c" "read_ok c" and inv: "q_inv c B F R w" and t: "t \<in> set F"
    and M: "read_state c (set (F @ R)) w m" and dn: "cmd_done (cfg_cmd c t (B t)) (dma w) m"
  shows "\<exists>w'. io_complete t False w = Ok w' \<and> q_inv c B (remove1 t F) R w' \<and> read_state c (set (F @ R) - {t}) w' m
        \<and> qp w' = qp w \<and> dma w' = dma w \<and> max_queue_depth w' = max_queue_depth w"
proof -
  note I = q_invD [OF inv] and S = read_stateD [OF M]
  note L = last_one [OF I(1) t]
  obtain x where x: "tasks w t = Some x" "sim x (c_task c t)" "loaded x (B t)" "extra_segs (io_request x) = None" "t_queue x"
    using out_taskD [OF inv t] by blast
  have tc: "t \<in> set (c_ts c)" using I(2) t by auto
  note K = read_okD [OF cfg(2) tc] and X = simD [OF x(2)]
  let ?w0 = "w\<lparr>current_queue_depth := current_queue_depth w - 1\<rparr>"
  have dn0: "cmd_done (cfg_cmd c t (B t)) (dma ?w0) (c_disk c)" "tasks ?w0 t = Some x" using dn S(3) x(1) by simp_all
  obtain u where u0: "run_fill_cb t ?w0 = Ok (?w0\<lparr>umem := u\<rparr>)" "delivered c t u" "\<And>a. a \<notin> fill_range c t \<Longrightarrow> u a = umem ?w0 a"
    by (rule fill_cb_Ok [where B = B, OF dn0(2) x(2,3) cfg(2) tc dn0(1)]) blast
  then have u: "run_fill_cb t ?w0 = Ok (?w0\<lparr>umem := u\<rparr>)" "delivered c t u" "\<And>a. a \<notin> fill_range c t \<Longrightarrow> u a = umem w a"
    by simp_all
  define w2 where "w2 = read_mid t x (B t) u w"
  define y where "y = x\<lparr>io_request := (io_request x)\<lparr>nseg := 0\<rparr>\<rparr>"
  have cm: "command x = READ_COMMAND" using X(1) K(1) by simp
  have cp: "io_complete t False w = read_tail t x w2"
    unfolding w2_def by (rule io_complete_read [OF x(1) cm x(3,4,5)]) (use u(1) in simp)
  define n where "n = length F + length R"
  have ne: "(set (F @ R) = {} \<and> \<not> c_sync c) = False" using L(5) by (metis empty_iff)
  have td: "told c False w2" "ioc_kept c w2" using S(4,5) unfolding ne by (simp_all add: w2_def)
  have y2: "tasks w2 t = Some y" "nseg (io_request y) = 0" "primary y = c_primary c" "primary x = c_primary c"
      "return_code x = 0 \<longleftrightarrow> \<not> c_sync c" "num_running (ioc w2) = int n"
    using X K(5,6) I(7) by (simp_all add: w2_def y_def n_def)
  have pr: "primary_at n (tasks w2 q)" if "c_primary c = Some q" for q
    using S(9) [OF that] K(8) that L(3) by (auto simp: w2_def n_def)
  obtain w3 where w3: "read_tail t x w2 = Ok w3" "same_buffers w2 w3" "ioc_kept c w3" "told c (n = 1 \<and> \<not> c_sync c) w3"
      "\<forall>v. v \<noteq> t \<longrightarrow> c_primary c \<noteq> Some v \<longrightarrow> tasks w3 v = tasks w2 v" "task_left c t (tasks w3 t)"
      "\<forall>q. c_primary c = Some q \<longrightarrow> primary_at (n - 1) (tasks w3 q)"
    using read_tail_Ok [of w2 t y c x n, OF y2(1-5) K(7,8) y2(6) _ td(2,1) pr] L(4) by (auto simp: n_def)
  have tk: "tasks w3 v = tasks w v" if "v \<noteq> t" "c_primary c \<noteq> Some v" for v
    using w3(5) that by (simp add: w2_def)
  have same: "umem w3 = u" "dma w3 = dma w" "qp w3 = qp w" "max_queue_depth w3 = max_queue_depth w"
    using w3(2) by (simp_all add: same_buffers_def w2_def)
  have "q_inv c B (remove1 t F) R w3"
  proof (rule q_inv_complete [OF inv t])
    fix v assume v: "v \<in> set (F @ R)" "v \<noteq> t"
    then have "c_primary c \<noteq> Some v" using S(1,2) by blast
    then show "tasks w3 v = tasks w v" using tk v(2) by blast
  qed (use w3(2) in \<open>simp_all add: same_buffers_def w2_def\<close>)
  moreover have "read_state c (set (F @ R) - {t}) w3 m"
  proof (rule read_state_done [OF cfg(2) M L(5)])
    show "told c (set (F @ R) - {t} = {} \<and> \<not> c_sync c) w3" using w3(4) unfolding L(2) n_def .
    show "primary_at (card (set (F @ R) - {t})) (tasks w3 q)" if "c_primary c = Some q" for q
      using w3(7) that unfolding L(1) n_def by blast
  qed (use u w3(3,6) tk same(1) in simp_all)
  ultimately show ?thesis using cp w3(1) same by (intro exI [of _ w3]) simp
qed

lemma read_issue:
  assumes "read_state c S w m" "frame w w'" "\<And>u. u \<notin> S \<Longrightarrow> tasks w' u = tasks w u"
  shows "read_state c S w' m"
proof -
  note R = read_stateD [OF assms(1)]
  have "tasks w' u = c_heap c u" if "u \<notin> set (c_ts c)" "c_primary c \<noteq> Some u" for u
    using assms(3) [of u] R(1) R(6) [OF that] that by auto
  moreover have "task_left c t (tasks w' t)" if "t \<in> set (c_ts c)" "t \<notin> S" for t
    using assms(3) [OF that(2)] R(8) [OF that] by simp
  moreover have "primary_at (card S) (tasks w' q)" if "c_primary c = Some q" for q
  proof -
    have "q \<notin> S" using R(1) R(2) [of q] that by blast
    then show ?thesis using assms(3) R(9) [OF that] by simp
  qed
  ultimately show ?thesis
    using R(1,2,3,4,5,7,10) frameD [OF assms(2)] unfolding read_state_def by simp
qed

lemma read_transfer:
  assumes "read_ok c" "read_state c S w m" "\<And>a. (\<And>t. t \<in> S \<Longrightarrow> a \<notin> write_range c t) \<Longrightarrow> m' a = m a"
  shows "read_state c S w m'"
proof -
  have "a \<notin> write_range c t" if "t \<in> S" for t a
    using read_okD(1) [OF assms(1)] read_stateD(1) [OF assms(2)] that by (auto simp: write_range_def)
  then have "m' = m" using assms(3) by blast
  then show ?thesis using assms(2) by simp
qed

interpretation rd: io_mode read_ok "read_state :: run_cfg \<Rightarrow> task_id set \<Rightarrow> 'q queue \<Rightarrow> (nat \<Rightarrow> u8) \<Rightarrow> bool"
proof
  fix c S and w w' :: "'q queue" and m m' :: "nat \<Rightarrow> u8" and t p
  show "umem w (t_buf (c_task c t) + p) = c_umem c (t_buf (c_task c t) + p)"
    if "read_ok c" "t \<in> set (c_ts c)" "command (c_task c t) = WRITE_COMMAND"
    using read_okD(1) [OF that(1,2)] that(3) by simp
  show "read_state c S w' m" if "read_state c S w m" "frame w w'" "\<And>u. u \<notin> S \<Longrightarrow> tasks w' u = tasks w u"
    using that by (rule read_issue)
  show "read_state c S w m'" if "read_ok c" "read_state c S w m" "\<And>a. (\<And>t. t \<in> S \<Longrightarrow> a \<notin> write_range c t) \<Longrightarrow> m' a = m a"
    using that by (rule read_transfer)
qed (rule read_complete)

subsection \<open>More fuel gives the same result\<close>

lemma submit_chain_mono: "submit_chain m env t w = Ok r \<Longrightarrow> m \<le> m' \<Longrightarrow> submit_chain m' env t w = Ok r"
proof (induction m env t w arbitrary: m' r rule: submit_chain.induct)
  case (3 n env t w)
  obtain j where j: "m' = Suc j" "n \<le> j" using 3(3) by (cases m') auto
  show ?case
  proof (cases "current_queue_depth w = max_queue_depth w")
    case False
    then obtain s w1 where s: "submit_one env t w = Ok (s, w1)" using 3(2) by auto
    show ?thesis
    proof (cases s)
      case True
      then obtain x where "deref t w1 = Ok x"
          "submit_chain n env (t_next x) (w1\<lparr>current_queue_depth := current_queue_depth w1 + 1\<rparr>) = Ok r"
        using 3(2) False s by auto
      then show ?thesis using 3(1) [OF False True _ j(2)] True j s False by (simp del: rbind_eq_Inr)
    qed (use 3(2) False s j in simp)
  qed (use 3(2) j in simp)
next
  case (1 n env w)
  then show ?case by (cases m') simp_all
qed simp

lemma aio_handle_mono: "aio_handle k m env test t w = Ok r \<Longrightarrow> m \<le> m' \<Longrightarrow> aio_handle k m' env test t w = Ok r"
proof (induction k m env test t w arbitrary: r rule: aio_handle.induct)
  case (2 k m env test t w)
  show ?case
  proof (cases "test \<and> num_running (ioc w) = 0")
    case False
    then obtain w1 t2 w2 where 1: "poll env w = Ok w1" "submit_chain m env t w1 = Ok (t2, w2)"
        "aio_handle k m env (t2 = None) t2 w2 = Ok r"
      using 2(2) by auto
    have "aio_handle k m' env (t2 = None) t2 w2 = Ok r"
      by (rule 2(1) [OF False 1(3) 2(3)])
    then show ?thesis using 1(1) submit_chain_mono [OF 1(2) 2(3)] False by (auto simp del: rbind_eq_Inr)
  qed (use 2(2) in auto)
qed (simp split: if_splits)

end
