(* ===== verification/Bit_Op.thy ===== *)
theory Bit_Op
  imports Prelude
begin

section \<open>Alignment arithmetic: common/bit\_op.hpp and common/global.cpp\<close>

text \<open>
  The templates \<open>p2align\<close> and \<open>p2roundup\<close> over an unsigned type of any width, and the
  page constants of \<open>global.cpp\<close>. The page size is what \<open>sysconf\<close> returned, a parameter.
\<close>

definition p2align :: "'a::len word \<Rightarrow> 'a word \<Rightarrow> 'a word" where
  "p2align x align = x AND (- align)"

definition p2roundup :: "'a::len word \<Rightarrow> 'a word \<Rightarrow> 'a word" where
  "p2roundup x align = - ((- x) AND (- align))"

lemma and_minus_exp: "x AND (- (2 ^ k)) = x - take_bit k x" for x :: "'a::len word"
proof -
  have "x AND NOT (mask k) = push_bit k (drop_bit k x)"
    by (rule bit_eqI) (auto simp: bit_and_iff bit_not_iff bit_mask_iff bit_push_bit_iff bit_drop_bit_eq bit_imp_le_length)
  also have "\<dots> = x - take_bit k x"
    using bits_ident [of k x] by (simp add: algebra_simps)
  finally show ?thesis by (simp add: minus_exp_eq_not_mask)
qed

lemma unat_take_bit: "unat (take_bit k x) = unat x mod 2 ^ k" for x :: "'a::len word"
  by (simp add: unsigned_take_bit_eq flip: take_bit_eq_mod)

lemma unat_and_minus_exp: "unat (x AND (- (2 ^ k))) = unat x - unat x mod 2 ^ k" for x :: "'a::len word"
proof -
  have "take_bit k x \<le> x"
    by (simp add: word_le_nat_alt unat_take_bit)
  then show ?thesis
    by (simp add: and_minus_exp unat_sub unat_take_bit)
qed

lemma unat_p2align: "unat (p2align x (2 ^ k)) = unat x div 2 ^ k * 2 ^ k"
  by (simp add: p2align_def unat_and_minus_exp minus_mod_eq_div_mult)

lemma uint_p2roundup:
  "uint (p2roundup x (2 ^ k)) = (uint x + (- uint x) mod 2 ^ k) mod 2 ^ LENGTH('a)"
  if "k \<le> LENGTH('a)" for x :: "'a::len word"
proof -
  have "p2roundup x (2 ^ k) = x + take_bit k (- x)"
    by (simp add: p2roundup_def and_minus_exp)
  moreover have "uint (take_bit k (- x)) = take_bit k (uint (- x))"
    by (simp add: unsigned_take_bit_eq)
  moreover have "take_bit k (uint (- x)) = (- uint x) mod 2 ^ k"
    using that by (simp add: uint_word_ariths take_bit_eq_mod mod_mod_cancel le_imp_power_dvd)
  ultimately show ?thesis
    by (simp add: uint_word_ariths)
qed

lemma ceil_int: "x + (- x) mod a = (x + a - 1) div a * a" if "0 < a" for x a :: int
proof -
  have "(x + a - 1) mod a = a - 1 - (- x) mod a"
  proof -
    have "(x + a - 1) mod a = (a - 1 - (- x) mod a) mod a"
      by (metis add.commute add_diff_eq diff_minus_eq_add mod_diff_right_eq)
    moreover have "0 \<le> a - 1 - (- x) mod a \<and> a - 1 - (- x) mod a < a"
      using that pos_mod_bound [of a "- x"] pos_mod_sign [of a "- x"] by linarith
    ultimately show ?thesis by simp
  qed
  then show ?thesis
    by (simp add: minus_mod_eq_div_mult [symmetric])
qed

lemma unat_p2roundup:
  "unat (p2roundup x (2 ^ k)) = ((unat x + 2 ^ k - 1) div 2 ^ k * 2 ^ k) mod 2 ^ LENGTH('a)"
  if "k \<le> LENGTH('a)" for x :: "'a::len word"
proof -
  have "int (unat (p2roundup x (2 ^ k))) = uint (p2roundup x (2 ^ k))"
    by simp
  also have "\<dots> = ((uint x + 2 ^ k - 1) div 2 ^ k * 2 ^ k) mod 2 ^ LENGTH('a)"
    using that by (simp add: uint_p2roundup ceil_int)
  also have "\<dots> = int (((unat x + 2 ^ k - 1) div 2 ^ k * 2 ^ k) mod 2 ^ LENGTH('a))"
    by (simp add: of_nat_mod of_nat_div of_nat_diff Suc_le_eq)
  finally show ?thesis by linarith
qed


subsection \<open>The rounding contract, as the block device uses it\<close>

text \<open>
  \<open>read_random\<close> needs only this of the two templates: for an alignment that meets the
  documented precondition (\<open>align\<close> is a power of two) both round to multiples, the one down by
  less than a block, the other up by less than a block unless the result would leave 64 bits.
\<close>

definition pow2_align :: "u64 \<Rightarrow> bool" where
  "pow2_align a \<longleftrightarrow> (\<exists>k<64. a = 2 ^ k)"

lemma unat_pow2: "k < 64 \<Longrightarrow> unat (2 ^ k :: u64) = 2 ^ k"
proof -
  assume k: "k < 64"
  then have "(2 :: nat) ^ k < 2 ^ 64" by (intro power_strict_increasing) simp_all
  moreover have "unat (2 ^ k :: u64) = unat (of_nat (2 ^ k) :: u64)" by simp
  ultimately show ?thesis by (simp only: unat_of_nat) simp
qed

lemma pow2_align_unat: "a = 2 ^ k \<Longrightarrow> k < 64 \<Longrightarrow> unat a = 2 ^ k" for a :: u64
  by (simp add: unat_pow2)

locale block_rounding =
  fixes down up :: "u64 \<Rightarrow> u64 \<Rightarrow> u64"
    and ok :: "u64 \<Rightarrow> bool"
  assumes ok_pos: "ok a \<Longrightarrow> 0 < unat a"
    and down_dvd: "ok a \<Longrightarrow> unat a dvd unat (down x a)"
    and down_le: "ok a \<Longrightarrow> unat (down x a) \<le> unat x"
    and down_gt: "ok a \<Longrightarrow> unat x < unat (down x a) + unat a"
    and up_dvd: "ok a \<Longrightarrow> unat a dvd unat (up x a)"
    and up_ge: "ok a \<Longrightarrow> unat a dvd s \<Longrightarrow> s < 2 ^ 64 \<Longrightarrow> unat x \<le> s \<Longrightarrow> unat x \<le> unat (up x a)"
    and up_le: "ok a \<Longrightarrow> unat a dvd s \<Longrightarrow> s < 2 ^ 64 \<Longrightarrow> unat x \<le> s \<Longrightarrow> unat (up x a) \<le> s"
begin

lemma window:
  assumes "ok a" "unat a dvd s" "s < 2 ^ 64" "unat off + unat len \<le> s" "0 < unat len"
  shows "unat (down off a) \<le> unat off" "unat off - unat (down off a) < unat a"
    and "unat off + unat len \<le> unat (up (off + len) a)" "unat (up (off + len) a) \<le> s"
    and "unat (down off a) < unat (up (off + len) a)"
    and "unat a dvd unat (up (off + len) a) - unat (down off a)"
proof -
  have sum: "unat (off + len) = unat off + unat len"
    using assms by (simp add: unat_word_ariths)
  show "unat (down off a) \<le> unat off" "unat off - unat (down off a) < unat a"
    using down_le [OF assms(1), of off] down_gt [OF assms(1), of off] by linarith+
  show "unat off + unat len \<le> unat (up (off + len) a)" "unat (up (off + len) a) \<le> s"
    using up_ge [OF assms(1-3), of "off + len"] up_le [OF assms(1-3), of "off + len"] assms(4)
    by (simp_all add: sum)
  then show "unat (down off a) < unat (up (off + len) a)"
    using down_le [OF assms(1), of off] assms(5) by linarith
  show "unat a dvd unat (up (off + len) a) - unat (down off a)"
    using down_dvd [OF assms(1)] up_dvd [OF assms(1)] by (simp add: dvd_diff_nat)
qed

end

lemma p2roundup_ge:
  assumes "k < 64" "2 ^ k dvd s" "s < 2 ^ 64" "unat x \<le> s"
  shows "unat x \<le> unat (p2roundup x (2 ^ k :: u64)) \<and> unat (p2roundup x (2 ^ k :: u64)) \<le> s"
proof -
  obtain q where q: "s = 2 ^ k * q" using assms(2) by blast
  let ?c = "(unat x + 2 ^ k - 1) div 2 ^ k"
  have "?c \<le> (2 ^ k * q + 2 ^ k - 1) div 2 ^ k"
    using assms(4) q by (intro div_le_mono) linarith
  also have "(2 ^ k * q + 2 ^ k - 1) div 2 ^ k = (q * 2 ^ k + (2 ^ k - 1)) div 2 ^ k"
    by (simp add: mult.commute)
  also have "\<dots> = q"
    by (subst div_mult_self3) simp_all
  finally have "?c * 2 ^ k \<le> s" using q by (simp add: mult.commute)
  moreover have "unat x \<le> ?c * 2 ^ k"
  proof -
    have "unat x + 2 ^ k - 1 < ?c * 2 ^ k + 2 ^ k"
      using dividend_less_div_times [of "2 ^ k" "unat x + 2 ^ k - 1"] by simp
    then show ?thesis by linarith
  qed
  ultimately show ?thesis
    using assms(1,3) by (simp add: unat_p2roundup)
qed

lemma p2roundup_dvd: "k < 64 \<Longrightarrow> 2 ^ k dvd unat (p2roundup x (2 ^ k :: u64))"
  using le_imp_power_dvd [of k 64 "2 :: nat"] by (simp add: unat_p2roundup dvd_mod)

interpretation p2: block_rounding p2align p2roundup pow2_align
proof unfold_locales
  fix a x :: u64 and s :: nat
  assume "pow2_align a"
  then obtain k where k: "k < 64" "a = 2 ^ k" by (auto simp: pow2_align_def)
  then have a: "unat a = 2 ^ k" by (simp add: unat_pow2)
  show "0 < unat a" by (simp add: a)
  show "unat a dvd unat (p2align x a)" "unat (p2align x a) \<le> unat x"
    "unat x < unat (p2align x a) + unat a"
    unfolding k(2) unat_p2align using k(1) dividend_less_div_times [of "2 ^ k" "unat x"]
    by (simp_all add: unat_pow2)
  show "unat a dvd unat (p2roundup x a)"
    using p2roundup_dvd [OF k(1), of x] k by (simp add: unat_pow2)
  show "unat x \<le> unat (p2roundup x a)" if "unat a dvd s" "s < 2 ^ 64" "unat x \<le> s"
    using p2roundup_ge [of k s x] that k a by simp
  show "unat (p2roundup x a) \<le> s" if "unat a dvd s" "s < 2 ^ 64" "unat x \<le> s"
    using p2roundup_ge [of k s x] that k a by simp
qed

subsection \<open>The page constants\<close>

text \<open>\<open>__builtin_clz\<close> counts the zero bits above the highest set bit; undefined at 0.\<close>

fun clz_from :: "nat \<Rightarrow> u32 \<Rightarrow> nat" where
  "clz_from 0 v = 0"
| "clz_from (Suc i) v = (if bit v i then 0 else Suc (clz_from i v))"

definition get_bits_of :: "u32 \<Rightarrow> nat" where
  "get_bits_of v = (if v = 0 then 0 else 32 - clz_from 32 v)"

definition constant_page_shift :: "u32 \<Rightarrow> nat" where
  "constant_page_shift page_size = get_bits_of (page_size - 1)"

definition constant_page_mask :: "u32 \<Rightarrow> u64" where
  "constant_page_mask page_size = NOT (ucast (page_size - 1))"

lemma unat_u32_less: "unat (v :: u32) < 2 ^ 32"
  using unsigned_less [of v, where ?'a = nat] by simp

lemma clz_from_le: "clz_from n v \<le> n"
  by (induction n) auto

lemma clz_from_less: "unat v < 2 ^ n \<Longrightarrow> unat v < 2 ^ (n - clz_from n v)"
proof (induction n)
  case (Suc n)
  show ?case
  proof (cases "bit v n")
    case False
    have "unat v < 2 ^ n"
    proof (rule ccontr)
      assume "\<not> unat v < 2 ^ n"
      then have "unat v div 2 ^ n = 1"
        using Suc.prems by (intro div_nat_eqI) simp_all
      then show False using False bit_unsigned_iff [of v n, where ?'a = nat] by (simp add: bit_iff_odd [of "unat v"])
    qed
    then show ?thesis using Suc False by simp
  qed (use Suc in simp)
qed simp

lemma clz_from_ge: "clz_from n v < n \<Longrightarrow> 2 ^ (n - clz_from n v - 1) \<le> unat v"
proof (induction n)
  case (Suc n)
  show ?case
  proof (cases "bit v n")
    case True
    then have "odd (unat v div 2 ^ n)"
      using bit_unsigned_iff [of v n, where ?'a = nat] bit_imp_le_length [OF True]
      by (simp add: bit_iff_odd [of "unat v"])
    then have "unat v div 2 ^ n \<noteq> 0" by (metis even_zero)
    then have "2 ^ n \<le> unat v" by (simp add: div_eq_0_iff)
    with True show ?thesis by simp
  qed (use Suc in simp)
qed simp

lemma get_bits_of_less: "unat v < 2 ^ get_bits_of v"
  using clz_from_less [OF unat_u32_less, of v] by (simp add: get_bits_of_def)

lemma get_bits_of_ge: "v \<noteq> 0 \<Longrightarrow> 2 ^ (get_bits_of v - 1) \<le> unat v"
proof -
  assume v: "v \<noteq> 0"
  have "clz_from 32 v < 32"
  proof (rule ccontr)
    assume "\<not> clz_from 32 v < 32"
    then have "clz_from 32 v = 32" using clz_from_le [of 32 v] by simp
    then have "unat v < 1" using clz_from_less [OF unat_u32_less, of v] by simp
    with v show False by (simp add: unat_eq_0)
  qed
  with v show ?thesis using clz_from_ge [of 32 v] by (simp add: get_bits_of_def)
qed

text \<open>\<open>get_bits_of\<close> is the number of bits of the binary representation.\<close>

lemma get_bits_of_unique:
  assumes "unat v < 2 ^ n" "n = 0 \<or> 2 ^ (n - 1) \<le> unat v"
  shows "get_bits_of v = n"
proof (cases "v = 0")
  case True
  with assms show ?thesis by (simp add: get_bits_of_def)
next
  case False
  then have "unat v \<noteq> 0" by (simp add: unat_eq_0)
  then have n: "n \<noteq> 0" using assms(1) by (cases n) auto
  have "(2 :: nat) ^ (n - 1) < 2 ^ get_bits_of v" "(2 :: nat) ^ (get_bits_of v - 1) < 2 ^ n"
    using assms n False get_bits_of_less [of v] get_bits_of_ge [of v] by linarith+
  then have "n - 1 < get_bits_of v" "get_bits_of v - 1 < n" by simp_all
  then show ?thesis by linarith
qed

lemma unat_pow2_minus_1: "k < 32 \<Longrightarrow> unat (2 ^ k - 1 :: u32) = 2 ^ k - 1"
proof -
  assume k: "k < 32"
  then have "(2 :: nat) ^ k < 2 ^ 32" by (intro power_strict_increasing) simp_all
  moreover have "unat (2 ^ k :: u32) = unat (of_nat (2 ^ k) :: u32)" by simp
  ultimately have "unat (2 ^ k :: u32) = 2 ^ k" by (simp only: unat_of_nat) simp
  moreover from this have "(2 ^ k :: u32) \<noteq> 0" by (metis power_not_zero unsigned_0 zero_neq_numeral)
  ultimately show ?thesis by (simp add: unat_minus_one)
qed

lemma constant_page_shift_pow2: "k < 32 \<Longrightarrow> constant_page_shift (2 ^ k) = k"
  unfolding constant_page_shift_def
proof (rule get_bits_of_unique)
  assume k: "k < 32"
  have "k = 0 \<or> (2 :: nat) ^ (k - 1) \<le> 2 ^ k - 1" by (cases k) simp_all
  then show "k = 0 \<or> 2 ^ (k - 1) \<le> unat (2 ^ k - 1 :: u32)"
    using k by (auto simp: unat_pow2_minus_1)
  show "unat (2 ^ k - 1 :: u32) < 2 ^ k"
    using k by (simp add: unat_pow2_minus_1)
qed

lemma and_constant_page_mask:
  "k < 32 \<Longrightarrow> x AND constant_page_mask (2 ^ k) = p2align x (2 ^ k)"
proof -
  assume k: "k < 32"
  have "(2 ^ k - 1 :: u32) = mask k" by (simp add: mask_eq_exp_minus_1)
  then have "ucast (2 ^ k - 1 :: u32) = (mask k :: u64)"
    using k by (intro bit_eqI) (auto simp: bit_unsigned_iff bit_mask_iff)
  then show ?thesis
    by (simp add: constant_page_mask_def p2align_def minus_exp_eq_not_mask)
qed

subsection \<open>Properties\<close>

text \<open>C31: for an alignment that is a power of two, at any word width, \<open>p2align\<close> is the greatest
  multiple of it that is at most \<open>x\<close>, and \<open>p2roundup\<close> the least that is at least \<open>x\<close>, reduced to
  the width (so it is 0 when that multiple does not fit).\<close>

theorem p2_rounding:
  assumes "k < LENGTH('a)"
  shows "unat (p2align x (2 ^ k :: 'a::len word)) = unat x div 2 ^ k * 2 ^ k
    \<and> unat (p2roundup x (2 ^ k :: 'a word)) = ((unat x + 2 ^ k - 1) div 2 ^ k * 2 ^ k) mod 2 ^ LENGTH('a)
    \<and> 2 ^ k dvd unat (p2align x (2 ^ k :: 'a word)) \<and> 2 ^ k dvd unat (p2roundup x (2 ^ k :: 'a word))
    \<and> unat x - unat (p2align x (2 ^ k :: 'a word)) < 2 ^ k"
proof -
  have k: "k \<le> LENGTH('a)" using assms by simp
  have "(2 :: nat) ^ k dvd 2 ^ LENGTH('a)" using k by (rule le_imp_power_dvd)
  then have "2 ^ k dvd unat (p2roundup x (2 ^ k))"
    by (simp add: unat_p2roundup [OF k] dvd_mod)
  moreover have "unat x - unat x div 2 ^ k * 2 ^ k < 2 ^ k"
    by (simp add: minus_div_mult_eq_mod)
  ultimately show ?thesis by (simp add: unat_p2align unat_p2roundup [OF k])
qed

lemma p2_rounding_witness:
  "unat (p2align (0x1234 :: 16 word) (2 ^ 8)) = 0x1200 \<and> unat (p2roundup (0x1234 :: 16 word) (2 ^ 8)) = 0x1300
   \<and> unat (p2roundup (0xfff1 :: 16 word) (2 ^ 8)) = 0"
  using p2_rounding [where 'a = 16, of 8 "0x1234"] p2_rounding [where 'a = 16, of 8 "0xfff1"] by simp

text \<open>For a page size that is a power of two the constants of \<open>global.cpp\<close> are right: the shift is
  its logarithm, and masking an address with the page mask rounds it down to its page.\<close>

theorem page_constants:
  assumes "k < 32"
  shows "constant_page_shift (2 ^ k) = k \<and> x AND constant_page_mask (2 ^ k) = p2align x (2 ^ k)
    \<and> unat (x AND constant_page_mask (2 ^ k)) = unat x div 2 ^ k * 2 ^ k"
  using assms by (simp add: constant_page_shift_pow2 and_constant_page_mask unat_p2align)

lemma page_constants_witness:
  "constant_page_shift 4096 = 12 \<and> unat (0x12345678 AND constant_page_mask 4096) = 0x12345000"
proof -
  have k: "(12 :: nat) < 32" by simp
  have "constant_page_shift (2 ^ 12) = 12" using page_constants [OF k] by blast
  moreover have "unat ((0x12345678 :: u64) AND constant_page_mask (2 ^ 12)) = unat (0x12345678 :: u64) div 2 ^ 12 * 2 ^ 12"
    using page_constants [OF k] by blast
  ultimately show ?thesis by simp
qed

end
