(* ===== verification/Block_Device.thy ===== *)
theory Block_Device
  imports Bit_Op
begin

section \<open>BlockDevice: blk/block\_device.hpp and blk/block\_device.cpp\<close>

text \<open>
  The choice of a driver for a path or a type name, and the check of the geometry of a request.
  The file system (\<open>readlink\<close>) is a parameter. The device classes are the constructors of
  \<open>device_class\<close>; only the fields that the code reads are kept.
\<close>

datatype block_device_t = Dev_unknown | Dev_aio | Dev_spdk

datatype device_class = KernelDevice | NVMEDevice

record block_device =
  dev_size :: u64
  dev_block_size :: u64
  optimal_io_size :: u64
  support_discard :: bool
  rotational :: bool
  lock_exclusive :: bool
  conventional_region_size :: u64
  zone_size :: u64

definition new_block_device :: block_device where
  "new_block_device = \<lparr>dev_size = 0, dev_block_size = 0, optimal_io_size = 0, support_discard = False,
     rotational = True, lock_exclusive = True, conventional_region_size = 0, zone_size = 0\<rparr>"

definition SPDK_PREFIX :: string where "SPDK_PREFIX = ''spdk:''"

text \<open>
  \<open>NVMEDevice::support\<close>: \<open>basename\<close> is what follows the last slash, and \<open>strncmp\<close>
  over the length of the prefix asks whether the name starts with it. \<open>readlink\<close> gives the
  target of a symbolic link and \<open>None\<close> for anything else.
\<close>

definition basename :: "string \<Rightarrow> string" where
  "basename s = rev (takeWhile (\<lambda>c. c \<noteq> CHR ''/'') (rev s))"

definition strncmp_eq :: "string \<Rightarrow> string \<Rightarrow> bool" where
  "strncmp_eq s prefix \<longleftrightarrow> take (length prefix) s = prefix"

definition nvme_support :: "(string \<Rightarrow> string option) \<Rightarrow> string \<Rightarrow> bool" where
  "nvme_support readlink path =
     (case readlink path of None \<Rightarrow> False | Some target \<Rightarrow> strncmp_eq (basename target) SPDK_PREFIX)"

definition detect_device_type :: "(string \<Rightarrow> string option) \<Rightarrow> string \<Rightarrow> block_device_t" where
  "detect_device_type readlink path = (if nvme_support readlink path then Dev_spdk else Dev_aio)"

definition device_type_from_name :: "string \<Rightarrow> block_device_t" where
  "device_type_from_name name =
     (if name = ''aio'' then Dev_aio else if name = ''spdk'' then Dev_spdk else Dev_unknown)"

definition create_with_type :: "block_device_t \<Rightarrow> device_class res" where
  "create_with_type t =
     (case t of Dev_aio \<Rightarrow> Ok KernelDevice | Dev_spdk \<Rightarrow> Ok NVMEDevice | Dev_unknown \<Rightarrow> Fault AssertFail)"

definition create :: "(string \<Rightarrow> string option) \<Rightarrow> string \<Rightarrow> string \<Rightarrow> device_class res" where
  "create readlink name path =
     create_with_type (if name = [] then detect_device_type readlink path else device_type_from_name name)"

text \<open>The remainder of a division by zero is undefined; \<open>block_size\<close> is 0 until \<open>open\<close>.\<close>

definition is_valid_io :: "u64 \<Rightarrow> u64 \<Rightarrow> block_device \<Rightarrow> bool res" where
  "is_valid_io off len d =
     (if dev_block_size d = 0 then Fault Undefined
      else Ok (off mod dev_block_size d = 0 \<and> len mod dev_block_size d = 0 \<and> 0 < len
               \<and> off < dev_size d \<and> off + len \<le> dev_size d))"

text \<open>The zone calls of the base class: \<open>is_smr\<close> is false here, so all of them assert.\<close>

definition is_smr :: "block_device \<Rightarrow> bool" where
  "is_smr d = False"

definition get_zone_size :: "block_device \<Rightarrow> u64 res" where
  "get_zone_size d = c_assert (is_smr d) (Ok (zone_size d))"

definition get_conventional_region_size :: "block_device \<Rightarrow> u64 res" where
  "get_conventional_region_size d = c_assert (is_smr d) (Ok (conventional_region_size d))"

definition set_no_exclusive_lock :: "block_device \<Rightarrow> block_device" where
  "set_no_exclusive_lock d = d\<lparr>lock_exclusive := False\<rparr>"

text \<open>\<open>get_devices\<close>: \<open>devname\<close> is the answer of \<open>get_devname\<close> (a status, a name).\<close>

definition get_devices :: "int \<times> string \<Rightarrow> string set \<Rightarrow> int \<times> string set" where
  "get_devices devname ls = (0, if fst devname = 0 then insert (snd devname) ls else ls)"

definition kernel_get_devname :: "string \<Rightarrow> int \<times> string" where
  "kernel_get_devname devname = (if devname = [] then (- ENOENT, []) else (0, devname))"

subsection \<open>Properties\<close>

text \<open>The request as the caller means it, over the natural numbers.\<close>

definition io_in_range :: "u64 \<Rightarrow> u64 \<Rightarrow> block_device \<Rightarrow> bool" where
  "io_in_range off len d \<longleftrightarrow>
     unat (dev_block_size d) dvd unat off \<and> unat (dev_block_size d) dvd unat len \<and> 0 < unat len
   \<and> unat off + unat len \<le> unat (dev_size d)"

lemma dvd_word: "a mod b = 0 \<longleftrightarrow> unat b dvd unat a" for a b :: u64
  by (simp add: dvd_eq_mod_eq_0 unat_mod_distrib [symmetric] unat_eq_0)

lemma in_range_no_wrap: "io_in_range off len d \<Longrightarrow> unat (off + len) = unat off + unat len"
  using unsigned_less [of "dev_size d", where ?'a = nat] by (simp add: io_in_range_def unat_word_ariths)

text \<open>C32: for a device with a block size, \<open>is_valid_io\<close> accepts every block-aligned, non-empty
  request inside the device; and what it accepts is such a request, unless \<open>off + len\<close> leaves
  64 bits.\<close>

theorem is_valid_io_spec:
  assumes "dev_block_size d \<noteq> 0" "unat off + unat len < 2 ^ 64"
  shows "is_valid_io off len d = Ok (io_in_range off len d)"
proof -
  have sum: "unat (off + len) = unat off + unat len"
    using assms(2) by (simp add: unat_word_ariths)
  show ?thesis
    using assms(1) by (auto simp: is_valid_io_def dvd_word io_in_range_def word_less_nat_alt word_le_nat_alt sum)
qed

definition sample_device :: block_device where
  "sample_device = new_block_device\<lparr>dev_size := 1048576, dev_block_size := 4096\<rparr>"

lemma is_valid_io_spec_witness: "is_valid_io 4096 8192 sample_device = Ok (io_in_range 4096 8192 sample_device)"
  by (rule is_valid_io_spec) (simp_all add: sample_device_def)

text \<open>The sum is computed in 64 bits, so a request that wraps is accepted although it lies
  outside the device: from any aligned offset below the size, a length of \<open>2^64 - off\<close>.\<close>

theorem is_valid_io_accepts_wrap:
  assumes "dev_block_size d = 2 ^ k" "k < 64" "off \<noteq> 0" "off < dev_size d" "dev_block_size d udvd off"
  shows "is_valid_io off (- off) d = Ok True \<and> \<not> io_in_range off (- off) d"
proof -
  have b: "unat (dev_block_size d) = 2 ^ k" by (simp add: assms(1) unat_pow2 [OF assms(2)])
  have dv: "2 ^ k dvd unat off" using assms(5) b by (simp add: udvd_iff_dvd)
  have neg: "unat (- off) = 2 ^ 64 - unat off"
  proof -
    have "(unat off + unat (- off)) mod 2 ^ 64 = 0"
      using unat_word_ariths(1) [of off "- off"] by simp
    moreover have "0 < unat off" "unat off < 2 ^ 64" "unat (- off) < 2 ^ 64"
      using assms(3) unsigned_less [of off, where ?'a = nat] unsigned_less [of "- off", where ?'a = nat]
      by (simp_all add: unat_gt_0)
    ultimately have "unat off + unat (- off) = 2 ^ 64" by (rule mod_sum_eq)
    then show ?thesis by simp
  qed
  have "(2 :: nat) ^ k dvd 2 ^ 64" using assms(2) by (intro le_imp_power_dvd) simp
  then have dl: "2 ^ k dvd unat (- off)" unfolding neg using dv by (intro dvd_diff_nat)
  have pos: "0 < unat (- off)" unfolding neg using unsigned_less [of off, where ?'a = nat] by simp
  have "unat off + unat (- off) = 2 ^ 64"
    unfolding neg using unsigned_less [of off, where ?'a = nat] by simp
  then have "\<not> io_in_range off (- off) d"
    using unsigned_less [of "dev_size d", where ?'a = nat] by (simp add: io_in_range_def)
  moreover have "dev_block_size d \<noteq> 0" using b by auto
  ultimately show ?thesis
    using assms(4) b dv dl pos by (simp add: is_valid_io_def dvd_word word_less_nat_alt)
qed

lemma is_valid_io_accepts_wrap_witness: "is_valid_io 4096 (- 4096) sample_device = Ok True"
  using is_valid_io_accepts_wrap [of sample_device 12 4096]
  by (simp add: sample_device_def new_block_device_def udvd_iff_dvd)

text \<open>Which driver a device gets. A given type name decides alone, and any name other than "aio"
  and "spdk" stops the program; without a name, only a symbolic link whose target's last component
  starts with "spdk:" is an NVMe device.\<close>

theorem create_decides:
  "create readlink name path =
     (if name = ''aio'' then Ok KernelDevice else if name = ''spdk'' then Ok NVMEDevice
      else if name \<noteq> [] then Fault AssertFail
      else if \<exists>target dir rest. readlink path = Some target \<and> target = dir @ ''spdk:'' @ rest
           \<and> CHR ''/'' \<notin> set rest \<and> (dir = [] \<or> last dir = CHR ''/'') then Ok NVMEDevice
      else Ok KernelDevice)"
proof -
  have base: "strncmp_eq (basename t) SPDK_PREFIX \<longleftrightarrow>
      (\<exists>dir rest. t = dir @ ''spdk:'' @ rest \<and> CHR ''/'' \<notin> set rest \<and> (dir = [] \<or> last dir = CHR ''/''))" for t
  proof
    assume p: "strncmp_eq (basename t) SPDK_PREFIX"
    define b where "b = basename t"
    define d where "d = rev (dropWhile (\<lambda>c. c \<noteq> CHR ''/'') (rev t))"
    have t: "t = d @ b"
      unfolding b_def d_def basename_def by (metis rev_append rev_rev_ident takeWhile_dropWhile_id)
    have nb: "CHR ''/'' \<notin> set b"
      unfolding b_def basename_def by (auto dest: set_takeWhileD)
    have dl: "d = [] \<or> last d = CHR ''/''"
      unfolding d_def using hd_dropWhile [of "\<lambda>c. c \<noteq> CHR ''/''" "rev t"] by (auto simp: last_rev)
    have "b = SPDK_PREFIX @ drop (length SPDK_PREFIX) b"
      using p append_take_drop_id [of "length SPDK_PREFIX" b] unfolding strncmp_eq_def b_def [symmetric] by metis
    moreover have "length SPDK_PREFIX = 5" by (simp add: SPDK_PREFIX_def)
    ultimately have "b = ''spdk:'' @ drop 5 b" by (metis SPDK_PREFIX_def)
    moreover have "CHR ''/'' \<notin> set (drop 5 b)" using nb in_set_dropD by fast
    ultimately show "\<exists>dir rest. t = dir @ ''spdk:'' @ rest \<and> CHR ''/'' \<notin> set rest \<and> (dir = [] \<or> last dir = CHR ''/'')"
      using t dl by metis
  next
    assume "\<exists>dir rest. t = dir @ ''spdk:'' @ rest \<and> CHR ''/'' \<notin> set rest \<and> (dir = [] \<or> last dir = CHR ''/'')"
    then obtain dir rest where t: "t = dir @ ''spdk:'' @ rest" "CHR ''/'' \<notin> set rest" "dir = [] \<or> last dir = CHR ''/''"
      by blast
    have "takeWhile (\<lambda>c. c \<noteq> CHR ''/'') (rev dir) = []"
      using t(3) by (cases dir rule: rev_cases) auto
    then have "basename t = ''spdk:'' @ rest"
      unfolding basename_def t(1) using t(2) by (subst rev_append, subst takeWhile_append2) auto
    then show "strncmp_eq (basename t) SPDK_PREFIX" by (simp add: strncmp_eq_def SPDK_PREFIX_def)
  qed
  show ?thesis
    by (cases "readlink path")
      (auto simp: create_def create_with_type_def device_type_from_name_def detect_device_type_def nvme_support_def base)
qed

end
