(* ===== verification/Nvme_Device.thy ===== *)
theory Nvme_Device
  imports Queue_Run Block_Device
begin

section \<open>NVMEDevice: blk/spdk/nvme\_device.hpp, nvme\_device.cpp and driver.hpp\<close>

text \<open>
  The public operations: a request is split into tasks of at most 128 KiB, chained in the
  \<open>IOContext\<close>, and \<open>aio_submit\<close> runs the calling thread's queue until they are done. The file
  system, the parser of transport ids and the manager's answer are parameters of \<open>open\<close>.
\<close>

subsection \<open>SharedDriverData\<close>

record shared_driver =
  driver_block_size :: u32
  driver_size :: u64
  registered_devices :: "nat list"

definition new_shared_driver :: "u32 \<Rightarrow> u64 \<Rightarrow> shared_driver" where
  "new_shared_driver sector_size ns_size =
     \<lparr>driver_block_size = sector_size, driver_size = ns_size, registered_devices = []\<rparr>"

definition register_device :: "nat \<Rightarrow> shared_driver \<Rightarrow> shared_driver" where
  "register_device p dr = dr\<lparr>registered_devices := registered_devices dr @ [p]\<rparr>"

fun remove_device_loop :: "nat \<Rightarrow> nat list \<Rightarrow> nat list \<Rightarrow> nat list" where
  "remove_device_loop p [] new_devices = new_devices"
| "remove_device_loop p (it # its) new_devices =
     remove_device_loop p its (if it \<noteq> p then new_devices @ [it] else new_devices)"

definition remove_device :: "nat \<Rightarrow> shared_driver \<Rightarrow> shared_driver" where
  "remove_device p dr = dr\<lparr>registered_devices := remove_device_loop p (registered_devices dr) []\<rparr>"

subsection \<open>Opening and closing\<close>

record nvme_device = block_device +
  dev_name :: string

text \<open>
  \<open>get_line\<close>: the first line of a file, \<open>None\<close> when it does not open. \<open>parse\<close> answers a status
  and a transport id, \<open>try_get\<close> a status and a driver. The result is the status, the driver with
  the device \<open>p\<close> registered, and the device.
\<close>

definition nvme_open ::
    "(string \<Rightarrow> string option) \<Rightarrow> (string \<Rightarrow> int \<times> 'i) \<Rightarrow> ('i \<Rightarrow> int \<times> shared_driver) \<Rightarrow> ('i \<Rightarrow> string) \<Rightarrow>
     nat \<Rightarrow> string \<Rightarrow> nvme_device \<Rightarrow> int \<times> shared_driver option \<times> nvme_device" where
  "nvme_open get_line parse try_get traddr p path d =
     (case get_line path of
        None \<Rightarrow> (-1, None, d)
      | Some val \<Rightarrow> (case parse val of (r, trid) \<Rightarrow>
          if r \<noteq> 0 then (r, None, d)
          else (case try_get trid of (r, dr) \<Rightarrow>
            if r < 0 then (r, None, d)
            else let dr = register_device p dr;
                     d = d\<lparr>dev_block_size := ucast (driver_block_size dr), dev_size := driver_size dr,
                           dev_name := traddr trid, rotational := False\<rparr>;
                     d = d\<lparr>dev_size := dev_size d AND NOT (dev_block_size d - 1)\<rparr> in
                 (0, Some dr, d))))"

definition nvme_close :: "nat \<Rightarrow> shared_driver \<Rightarrow> nvme_device \<Rightarrow> shared_driver \<times> nvme_device" where
  "nvme_close p dr d = (remove_device p dr, d\<lparr>dev_name := []\<rparr>)"

definition collect_metadata :: "string \<Rightarrow> nvme_device \<Rightarrow> (string \<rightharpoonup> string) \<Rightarrow> int \<times> (string \<rightharpoonup> string)" where
  "collect_metadata prefix d pm =
     (0, pm(prefix @ ''rotational'' \<mapsto> ''0'',
            prefix @ ''size'' \<mapsto> to_string (unat (dev_size d)),
            prefix @ ''block_size'' \<mapsto> to_string (unat (dev_block_size d)),
            prefix @ ''driver'' \<mapsto> ''NVMEDevice'',
            prefix @ ''type'' \<mapsto> ''nvme'',
            prefix @ ''access_mode'' \<mapsto> ''spdk'',
            prefix @ ''nvme_serial_number'' \<mapsto> dev_name d))"

subsection \<open>Building the chain\<close>

definition split_size :: u64 where "split_size = 131072"

definition ioc_append_task :: "task_id \<Rightarrow> 'a world_scheme \<Rightarrow> 'a world_scheme res" where
  "ioc_append_task t w =
     rbind (case nvme_task_last (ioc w) of
              None \<Rightarrow> Ok w
            | Some l \<Rightarrow> rbind (deref l w) (\<lambda>x. Ok (put_task l (x\<lparr>t_next := Some t\<rparr>) w)))
       (\<lambda>w. Ok (w\<lparr>ioc := (ioc w)\<lparr>
          nvme_task_first := (if nvme_task_first (ioc w) = None then Some t else nvme_task_first (ioc w)),
          nvme_task_last := Some t, num_pending := num_pending (ioc w) + 1\<rparr>\<rparr>))"

function write_split_loop :: "u64 \<Rightarrow> u64 \<Rightarrow> u64 \<Rightarrow> nat \<Rightarrow> 'a world_scheme \<Rightarrow> 'a world_scheme res" where
  "write_split_loop off remain_len start buf w =
     (if remain_len = 0 then Ok w
      else let write_size = min remain_len split_size in
        rbind (new_task WRITE_COMMAND (off + start) write_size 0 None w) (\<lambda>(t, w).
          rbind (deref t w) (\<lambda>x.
            rbind (ioc_append_task t (put_task t (x\<lparr>t_buf := buf + unat start\<rparr>) w)) (\<lambda>w.
              write_split_loop off (remain_len - write_size) (start + write_size) buf w))))"
  by pat_completeness auto

termination
proof (relation "measure (\<lambda>(_, r, _). unat r)", simp, goal_cases)
  case (1 off r start buf w)
  then have "r \<noteq> 0" by simp
  moreover have "0 < min r split_size" using \<open>r \<noteq> 0\<close> by (simp add: split_size_def min_def word_gt_0)
  moreover have "min r split_size \<le> r" by simp
  ultimately show ?case using 1 by (simp add: word_less_nat_alt unat_sub word_le_nat_alt)
qed

declare write_split_loop.simps [simp del]

definition write_split :: "u64 \<Rightarrow> u64 \<Rightarrow> nat \<Rightarrow> 'a world_scheme \<Rightarrow> 'a world_scheme res" where
  "write_split off len buf w = write_split_loop off len 0 buf w"

text \<open>
  The loop of \<open>make_read_tasks\<close>. \<open>start\<close> is advanced by a full split, in 64 bits, so the source does
  not bound the number of turns; the fuel does.
\<close>

fun make_read_loop ::
    "nat \<Rightarrow> u64 \<Rightarrow> u64 \<Rightarrow> u64 \<Rightarrow> task_id option \<Rightarrow> u64 \<Rightarrow> u64 \<Rightarrow> nat \<Rightarrow> 'a world_scheme \<Rightarrow> 'a world_scheme res" where
  "make_read_loop 0 start aligned_end aligned_len prim tmp_off remain buf w =
     (if start < aligned_end then Fault NoReturn else Ok w)"
| "make_read_loop (Suc n) start aligned_end aligned_len prim tmp_off remain buf w =
     (if start < aligned_end
      then let read_size = min (aligned_end - start) split_size;
               tmp_len = min remain (read_size - tmp_off) in
        rbind (if prim \<noteq> None \<and> aligned_len \<le> split_size then Ok (the prim, w)
               else new_task READ_COMMAND start read_size 0 prim w) (\<lambda>(t, w).
          rbind (deref t w) (\<lambda>x.
            rbind (ioc_append_task t
                (put_task t (x\<lparr>fill_cb := Some \<lparr>fill_buf = buf, fill_off = tmp_off, fill_len = tmp_len\<rparr>\<rparr>) w)) (\<lambda>w.
              make_read_loop n (start + split_size) aligned_end aligned_len prim 0 (remain - tmp_len)
                (buf + unat tmp_len) w)))
      else Ok w)"

definition make_read_tasks ::
    "nat \<Rightarrow> u64 \<Rightarrow> nat \<Rightarrow> u64 \<Rightarrow> task_id option \<Rightarrow> u64 \<Rightarrow> u64 \<Rightarrow> 'a world_scheme \<Rightarrow> 'a world_scheme res" where
  "make_read_tasks n aligned_off buf aligned_len prim orig_off orig_len w =
     make_read_loop n aligned_off (aligned_off + aligned_len) aligned_len prim (orig_off - aligned_off) orig_len buf w"

subsection \<open>Submission\<close>

text \<open>
  What the constructor of the thread's queue gets from the driver and from SPDK: the answers of the
  allocations, whether a queue pair was given, the block size and the queue size.
\<close>

record queue_env =
  env_zmalloc :: "nat \<Rightarrow> buf_id option"
  env_qpair :: bool
  env_bs :: u32
  env_queue_size :: u32

text \<open>The \<open>thread_local\<close> variable: constructed when the thread first comes here.\<close>

definition thread_queue :: "queue_env \<Rightarrow> 'q queue \<Rightarrow> 'q queue res" where
  "thread_queue e w =
     (if q_init w then Ok w else queue_construct (env_zmalloc e) (env_qpair e) (env_bs e) (env_queue_size e) w)"

definition aio_submit :: "nat \<Rightarrow> queue_env \<Rightarrow> 'q spdk \<Rightarrow> 'q queue \<Rightarrow> 'q queue res" where
  "aio_submit n e env w =
     (let pending = num_pending (ioc w); t = nvme_task_first (ioc w) in
      if pending \<noteq> 0 \<and> t \<noteq> None
      then let w = w\<lparr>ioc := (ioc w)\<lparr>num_running := num_running (ioc w) + pending,
                                   num_pending := num_pending (ioc w) - pending\<rparr>\<rparr> in
        c_assert (num_pending (ioc w) = 0)
          (let w = w\<lparr>ioc := (ioc w)\<lparr>nvme_task_first := None, nvme_task_last := None\<rparr>\<rparr> in
           rbind (thread_queue e w) (\<lambda>w. aio_handle n n env True t w))
      else Ok w)"

subsection \<open>The public operations\<close>

text \<open>A block in which \<open>ioc\<close> is a local \<open>IOContext\<close>.\<close>

definition with_ioc :: "io_context \<Rightarrow> ('q queue \<Rightarrow> ('r \<times> 'q queue) res) \<Rightarrow> 'q queue \<Rightarrow> ('r \<times> 'q queue) res" where
  "with_ioc c f w = rbind (f (w\<lparr>ioc := c\<rparr>)) (\<lambda>(r, w'). Ok (r, w'\<lparr>ioc := ioc w\<rparr>))"

text \<open>What \<open>read\<close> and \<open>read_random\<close> share: the task on the stack, the submission, the result.\<close>

definition sync_read ::
    "nat \<Rightarrow> queue_env \<Rightarrow> 'q spdk \<Rightarrow> u64 \<Rightarrow> nat \<Rightarrow> u64 \<Rightarrow> u64 \<Rightarrow> u64 \<Rightarrow> 'q queue \<Rightarrow> (int \<times> 'q queue) res" where
  "sync_read n e env aligned_off buf aligned_len off len w =
     rbind (new_task READ_COMMAND aligned_off aligned_len 1 None w) (\<lambda>(t, w).
       rbind (with_ioc (new_ioc None False) (\<lambda>w.
           rbind (make_read_tasks n aligned_off buf aligned_len (Some t) off len w) (\<lambda>w.
             rbind (aio_submit n e env w) (\<lambda>w.
               rbind (deref t w) (\<lambda>x. Ok (return_code x, w))))) w)
         (\<lambda>(r, w). rbind (delete_task t w) (\<lambda>w. Ok (r, w))))"

definition nvme_read ::
    "nat \<Rightarrow> queue_env \<Rightarrow> 'q spdk \<Rightarrow> 'd block_device_scheme \<Rightarrow> u64 \<Rightarrow> u64 \<Rightarrow> nat \<Rightarrow> 'q queue \<Rightarrow> (int \<times> 'q queue) res" where
  "nvme_read n e env d off len buf w =
     rbind (is_valid_io off len (block_device.truncate d)) (\<lambda>v. c_assert v (sync_read n e env off buf len off len w))"

definition nvme_read_random ::
    "nat \<Rightarrow> queue_env \<Rightarrow> 'q spdk \<Rightarrow> 'd block_device_scheme \<Rightarrow> u64 \<Rightarrow> u64 \<Rightarrow> nat \<Rightarrow> 'q queue \<Rightarrow> (int \<times> 'q queue) res" where
  "nvme_read_random n e env d off len buf w =
     c_assert (0 < len) (c_assert (off < dev_size d) (c_assert (off + len \<le> dev_size d)
       (let aligned_off = p2align off (dev_block_size d);
            aligned_len = p2roundup (off + len) (dev_block_size d) - aligned_off in
        sync_read n e env aligned_off buf aligned_len off len w)))"

definition nvme_aio_read ::
    "nat \<Rightarrow> 'd block_device_scheme \<Rightarrow> u64 \<Rightarrow> u64 \<Rightarrow> nat \<Rightarrow> 'a world_scheme \<Rightarrow> (int \<times> 'a world_scheme) res" where
  "nvme_aio_read n d off len buf w =
     rbind (is_valid_io off len (block_device.truncate d)) (\<lambda>v. c_assert v
       (rbind (make_read_tasks n off buf len None off len w) (\<lambda>w. Ok (0, w))))"

definition nvme_write ::
    "nat \<Rightarrow> queue_env \<Rightarrow> 'q spdk \<Rightarrow> 'd block_device_scheme \<Rightarrow> u64 \<Rightarrow> u64 \<Rightarrow> nat \<Rightarrow> 'q queue \<Rightarrow> (int \<times> 'q queue) res" where
  "nvme_write n e env d off len buf w =
     rbind (is_valid_io off len (block_device.truncate d)) (\<lambda>v. c_assert v
       (with_ioc (new_ioc None False) (\<lambda>w.
          rbind (write_split off len buf w) (\<lambda>w. rbind (aio_submit n e env w) (\<lambda>w. Ok (0, w)))) w))"

definition nvme_aio_write ::
    "'d block_device_scheme \<Rightarrow> u64 \<Rightarrow> u64 \<Rightarrow> nat \<Rightarrow> 'a world_scheme \<Rightarrow> (int \<times> 'a world_scheme) res" where
  "nvme_aio_write d off len buf w =
     rbind (is_valid_io off len (block_device.truncate d)) (\<lambda>v. c_assert v
       (rbind (write_split off len buf w) (\<lambda>w. Ok (0, w))))"

definition nvme_flush :: "'a world_scheme \<Rightarrow> int \<times> 'a world_scheme" where
  "nvme_flush w = (0, w)"

definition nvme_invalidate_cache :: "u64 \<Rightarrow> u64 \<Rightarrow> 'a world_scheme \<Rightarrow> int \<times> 'a world_scheme" where
  "nvme_invalidate_cache off len w = (0, w)"

subsection \<open>The queue of the thread\<close>

definition upd :: "(task_id \<Rightarrow> task option) \<Rightarrow> task_id \<Rightarrow> io_context \<Rightarrow> 'q queue \<Rightarrow> 'q queue" where
  "upd h k c w = w\<lparr>tasks := h, next_task := k, ioc := c\<rparr>"

lemma upd_simps [simp]:
  "tasks (upd h k c w) = h" "next_task (upd h k c w) = k" "ioc (upd h k c w) = c" "umem (upd h k c w) = umem w"
  "callbacks (upd h k c w) = callbacks w" "data_buf_list (upd h k c w) = data_buf_list w" "dma (upd h k c w) = dma w"
  by (simp_all add: upd_def)

lemma upd_queue [simp]:
  "q_init (upd h k c w) = q_init w" "q_block_size (upd h k c w) = q_block_size w" "qp (upd h k c w) = qp w"
  "max_queue_depth (upd h k c w) = max_queue_depth w" "current_queue_depth (upd h k c w) = current_queue_depth w"
  by (simp_all add: upd_def)

lemma upd_swap:
  "upd h k c (w\<lparr>data_buf_list := l, dma := d\<rparr>) = (upd h k c w)\<lparr>data_buf_list := l, dma := d\<rparr>"
  "upd h k c (w\<lparr>q_init := i, q_block_size := b, max_queue_depth := x, current_queue_depth := y, data_buf_list := l\<rparr>)
     = (upd h k c w)\<lparr>q_init := i, q_block_size := b, max_queue_depth := x, current_queue_depth := y, data_buf_list := l\<rparr>"
  by (cases w; simp add: upd_def)+

lemma alloc_pool_upd: "alloc_pool z n i w = Ok w1 \<Longrightarrow> alloc_pool z n i (upd h k c w) = Ok (upd h k c w1)"
  by (induction z n i w rule: alloc_pool.induct) (auto simp: upd_swap split: option.splits)

lemma thread_queue_upd: "thread_queue e w = Ok w1 \<Longrightarrow> thread_queue e (upd h k c w) = Ok (upd h k c w1)"
proof (cases "q_init w")
  case False
  assume "thread_queue e w = Ok w1"
  then have a: "env_qpair e" "alloc_pool (env_zmalloc e) (unat data_buffer_default_num) 0
      (w\<lparr>q_init := True, q_block_size := env_bs e, max_queue_depth := env_queue_size e - 1, current_queue_depth := 0,
         data_buf_list := []\<rparr>) = Ok w1"
    using False by (simp_all add: thread_queue_def queue_construct_def)
  show ?thesis
    using alloc_pool_upd [OF a(2), of h k c] a(1) False by (simp add: thread_queue_def queue_construct_def upd_swap)
qed (simp add: thread_queue_def)

lemma alloc_pool_keeps:
  "alloc_pool z n i w = Ok w1 \<Longrightarrow> tasks w1 = tasks w \<and> next_task w1 = next_task w \<and> ioc w1 = ioc w \<and> umem w1 = umem w
    \<and> callbacks w1 = callbacks w \<and> qp w1 = qp w \<and> q_init w1 = q_init w \<and> q_block_size w1 = q_block_size w
    \<and> max_queue_depth w1 = max_queue_depth w \<and> current_queue_depth w1 = current_queue_depth w
    \<and> data_buf_list w1 = rev (map (\<lambda>j. the (z j)) [i..<i + n]) @ data_buf_list w
    \<and> (\<forall>j \<in> {i..<i + n}. z j \<noteq> None)"
proof (induction z n i w rule: alloc_pool.induct)
  case (2 z n i w)
  from 2(2) obtain b where b: "z i = Some b"
      "alloc_pool z n (Suc i) (w\<lparr>data_buf_list := b # data_buf_list w, dma := (dma w)(b := (\<lambda>_. 0))\<rparr>) = Ok w1"
    by (auto split: option.splits)
  have "[i..<i + Suc n] = i # [Suc i..<Suc i + n]" by (simp add: upt_rec)
  moreover have "j = i \<or> j \<in> {Suc i..<Suc i + n}" if "j \<in> {i..<i + Suc n}" for j using that by auto
  ultimately show ?case using 2(1) [OF b] b(1) by fastforce
qed simp

lemma thread_queue_keeps:
  assumes "thread_queue e w = Ok w1"
  shows "tasks w1 = tasks w" "next_task w1 = next_task w" "ioc w1 = ioc w" "umem w1 = umem w" "callbacks w1 = callbacks w"
    "qp w1 = qp w" "q_init w1"
  using assms alloc_pool_keeps [of "env_zmalloc e"] by (fastforce simp: thread_queue_def queue_construct_def split: if_splits)+

text \<open>A queue that is ready: nothing in flight, and buffers for any one task.\<close>

definition queue_idle :: "nat \<Rightarrow> 'q queue \<Rightarrow> bool" where
  "queue_idle bs w \<longleftrightarrow> q_init w \<and> current_queue_depth w = 0 \<and> 0 < unat (max_queue_depth w) \<and> q_block_size w = of_nat bs
     \<and> distinct (data_buf_list w) \<and> 32 \<le> length (data_buf_list w)"

lemma fresh_queue_idle:
  assumes "\<not> q_init w" "thread_queue e w = Ok w1" "inj_on (env_zmalloc e) {..<1024}" "1 < unat (env_queue_size e)"
    "env_bs e = of_nat bs"
  shows "queue_idle bs w1 \<and> length (data_buf_list w1) = 1024
    \<and> data_buf_list w1 = rev (map (\<lambda>j. the (env_zmalloc e j)) [0..<1024])"
proof -
  have n: "unat data_buffer_default_num = 1024" by (simp add: data_buffer_default_num_def)
  have q: "alloc_pool (env_zmalloc e) 1024 0
      (w\<lparr>q_init := True, q_block_size := env_bs e, max_queue_depth := env_queue_size e - 1, current_queue_depth := 0,
         data_buf_list := []\<rparr>) = Ok w1"
    using assms(1,2) by (simp add: thread_queue_def queue_construct_def n)
  note K = alloc_pool_keeps [OF q]
  have "distinct (map (\<lambda>j. the (env_zmalloc e j)) [0..<1024])"
    unfolding distinct_map
  proof
    show "inj_on (\<lambda>j. the (env_zmalloc e j)) (set [0..<1024])"
    proof (rule inj_onI)
      fix i j assume ij: "i \<in> set [0..<1024]" "j \<in> set [0..<1024]" "the (env_zmalloc e i) = the (env_zmalloc e j)"
      then have "env_zmalloc e i = env_zmalloc e j" using K by (metis add_0 atLeastLessThan_upt option.expand)
      then show "i = j" using ij assms(3) by (auto dest: inj_onD)
    qed
  qed simp
  moreover have "0 < unat (env_queue_size e - 1)"
  proof -
    have "env_queue_size e \<noteq> 0" using assms(4) by auto
    then show ?thesis using assms(4) unat_minus_one [of "env_queue_size e"] by simp
  qed
  ultimately show ?thesis using K assms(5) by (simp add: queue_idle_def)
qed

subsection \<open>The configuration of a submission\<close>

definition run_of :: "'q queue \<Rightarrow> task_id list \<Rightarrow> (nat \<Rightarrow> u8) \<Rightarrow> nat set \<Rightarrow> nat \<Rightarrow> task_id option \<Rightarrow> bool \<Rightarrow> run_cfg" where
  "run_of w ts m reg bs p sy = \<lparr>c_task = (\<lambda>t. the (tasks w t)), c_ts = ts, c_pool = data_buf_list w,
     c_nseg = total_nseg (ioc w), c_disk = m, c_umem = umem w, c_reg = reg, c_bs = bs, c_heap = tasks w,
     c_ioc = (ioc w)\<lparr>num_running := 0, total_nseg := 0, notified := 0\<rparr>, c_callbacks = callbacks w,
     c_notified = notified (ioc w), c_primary = p, c_sync = sy\<rparr>"

lemma run_of_simps [simp]:
  "c_task (run_of w ts m reg bs p sy) t = the (tasks w t)" "c_ts (run_of w ts m reg bs p sy) = ts"
  "c_pool (run_of w ts m reg bs p sy) = data_buf_list w" "c_nseg (run_of w ts m reg bs p sy) = total_nseg (ioc w)"
  "c_disk (run_of w ts m reg bs p sy) = m" "c_umem (run_of w ts m reg bs p sy) = umem w" "c_reg (run_of w ts m reg bs p sy) = reg" "c_bs (run_of w ts m reg bs p sy) = bs"
  "c_heap (run_of w ts m reg bs p sy) = tasks w"
  "c_ioc (run_of w ts m reg bs p sy) = (ioc w)\<lparr>num_running := 0, total_nseg := 0, notified := 0\<rparr>"
  "c_callbacks (run_of w ts m reg bs p sy) = callbacks w" "c_notified (run_of w ts m reg bs p sy) = notified (ioc w)"
  "c_primary (run_of w ts m reg bs p sy) = p" "c_sync (run_of w ts m reg bs p sy) = sy"
  by (simp_all add: run_of_def)

lemma run_of_inv:
  assumes "cfg_ok (run_of w ts m reg bs p sy)" "\<And>t. t \<in> set ts \<Longrightarrow> tasks w t \<noteq> None" "num_running (ioc w) = int (length ts)"
    "queue_idle bs w"
  shows "q_inv (run_of w ts m reg bs p sy) B [] ts w"
proof -
  have "wait_task (run_of w ts m reg bs p sy) w t" if "t \<in> set ts" for t
    using cfg_okD(2) [OF assms(1), of t] assms(2) [OF that] that by (auto simp: wait_task_def cfg_task_ok_def)
  then show ?thesis
    using assms(3,4) cfg_okD(1,3) [OF assms(1)] by (simp add: q_inv_def queue_idle_def)
qed

lemma run_of_kept: "ioc_kept (run_of w ts m reg bs p sy) w" "told (run_of w ts m reg bs p sy) False w"
  by (simp_all add: ioc_kept_def told_def split: option.splits)

lemma run_of_write:
  assumes "ts \<noteq> []"
  shows "write_state (run_of w ts m reg bs p sy) (set ts) w m"
proof -
  have "(set ts = {}) = False" using assms by simp
  then show ?thesis using run_of_kept [of w ts m reg bs p sy] by (simp add: write_state_def)
qed

lemma run_of_read:
  assumes "ts \<noteq> []" "distinct ts" "\<And>t. t \<in> set ts \<Longrightarrow> p \<noteq> Some t" "\<And>q. p = Some q \<Longrightarrow> primary_at (length ts) (tasks w q)"
  shows "read_state (run_of w ts m reg bs p sy) (set ts) w m"
proof -
  have "(set ts = {} \<and> \<not> sy) = False" using assms by simp
  then show ?thesis using run_of_kept [of w ts m reg bs p sy] assms by (simp add: read_state_def distinct_card)
qed

subsection \<open>What no step changes\<close>

definition fixed :: "'q queue \<Rightarrow> 'q queue \<Rightarrow> bool" where
  "fixed w w' \<longleftrightarrow> q_init w' = q_init w \<and> next_task w' = next_task w"

lemma fixed_refl [simp]: "fixed w w"
  by (simp add: fixed_def)

lemma fixed_trans: "fixed u v \<Longrightarrow> fixed v w \<Longrightarrow> fixed u w"
  by (simp add: fixed_def)

lemma fixed_put_task [simp]: "fixed w (put_task t x w')= fixed w w'"
  by (simp add: fixed_def put_task_def)

lemma fixed_simps [simp]:
  "fixed w (w'\<lparr>ioc := c\<rparr>) = fixed w w'" "fixed w (w'\<lparr>dma := d\<rparr>) = fixed w w'" "fixed w (w'\<lparr>umem := m\<rparr>) = fixed w w'"
  "fixed w (w'\<lparr>data_buf_list := l\<rparr>) = fixed w w'" "fixed w (w'\<lparr>tasks := h\<rparr>) = fixed w w'"
  "fixed w (w'\<lparr>callbacks := cb\<rparr>) = fixed w w'" "fixed w (w'\<lparr>qp := q\<rparr>) = fixed w w'"
  "fixed w (w'\<lparr>current_queue_depth := n\<rparr>) = fixed w w'"
  by (simp_all add: fixed_def)

lemma release_fixed: "release_segs t w = Ok w' \<Longrightarrow> fixed w w'"
  by (auto simp: release_segs_def Let_def split: if_splits)

lemma delete_fixed: "delete_task t w = Ok w' \<Longrightarrow> fixed w w'"
  by (auto simp: delete_task_def split: option.splits)

lemma notify_fixed: "notify_done w = Ok w' \<Longrightarrow> fixed w w'"
  by (auto simp: notify_done_def Let_def set_running_def split: option.splits if_splits)

lemma fill_fixed: "run_fill_cb t w = Ok w' \<Longrightarrow> fixed w w'"
  by (auto simp: run_fill_cb_def copy_to_buf_def split: option.splits)

lemma set_rc_fixed: "set_return_code t r w = Ok w' \<Longrightarrow> fixed w w'"
  by (auto simp: set_return_code_def)

lemma io_complete_fixed:
  assumes "io_complete t e w = Ok w'"
  shows "fixed w w'"
proof -
  let ?w = "w\<lparr>current_queue_depth := current_queue_depth w - 1\<rparr>"
  have *: "fixed u v \<Longrightarrow> fixed ?w u \<Longrightarrow> fixed w v" for u v :: "'a queue"
    by (simp add: fixed_def)
  have 0: "fixed ?w ?w" by simp
  obtain x where x: "deref t w = Ok x" using assms by (auto simp: io_complete_def)
  show ?thesis
  proof (cases "command x")
    case WRITE_COMMAND
    then obtain u v where "notify_done ?w = Ok u" "release_segs t u = Ok v" "delete_task t v = Ok w'"
      using assms x by (auto simp: io_complete_def Let_def)
    then show ?thesis using notify_fixed release_fixed delete_fixed fixed_trans * 0 by metis
  next
    case READ_COMMAND
    then obtain u v where uv: "run_fill_cb t ?w = Ok u" "release_segs t u = Ok v" "read_tail t x v = Ok w'"
      using assms x by (auto simp: io_complete_def Let_def read_tail_def)
    have "fixed v w'"
    proof (cases "return_code x = 0")
      case True
      then obtain u where "notify_done v = Ok u" "delete_task t u = Ok w'" using uv(3) by (auto simp: read_tail_def)
      then show ?thesis using notify_fixed delete_fixed fixed_trans by blast
    next
      case False
      then show ?thesis
        using uv(3) delete_fixed [of t v] set_rc_fixed fixed_trans
        by (fastforce simp: read_tail_def set_running_def split: option.splits if_splits)
    qed
    then show ?thesis using uv(1,2) fill_fixed release_fixed fixed_trans * 0 by metis
  next
    case FLUSH_COMMAND
    then have "set_return_code t 0 ?w = Ok w'" using assms x by (simp add: io_complete_def Let_def)
    then show ?thesis using set_rc_fixed * 0 by metis
  qed
qed

lemma complete_all_fixed: "complete_all cs w = Ok w' \<Longrightarrow> fixed w w'"
proof (induction cs w rule: complete_all.induct)
  case (2 t e cs w)
  then obtain u where u: "io_complete t e w = Ok u" "complete_all cs u = Ok w'" by auto
  show ?case by (rule fixed_trans [OF io_complete_fixed [OF u(1)] "2.IH" [OF u(2)]])
qed simp

lemma poll_fixed: "poll env w = Ok w' \<Longrightarrow> fixed w w'"
  using complete_all_fixed by (fastforce simp: poll_def fixed_def split: if_splits prod.splits)

lemma alloc_fixed: "alloc_buf_from_pool t wr w = Ok (r, w') \<Longrightarrow> fixed w w'"
  by (auto simp: alloc_buf_from_pool_def Let_def split: if_splits)

lemma gather_fixed: "gather_sgl t w = Ok (ps, w') \<Longrightarrow> fixed w w'"
  by (auto simp: gather_sgl_def)

lemma submit_failed_not_Ok [simp]: "submit_failed t w \<noteq> Ok r"
  by (simp add: submit_failed_def)

lemma submit_one_fixed:
  assumes "submit_one env t w = Ok (b, w')"
  shows "fixed w w'"
proof -
  obtain x where x: "deref t w = Ok x" using assms by (auto simp: submit_one_def)
  let ?w = "put_task t (x\<lparr>t_queue := True\<rparr>) w"
  have *: "fixed ?w v \<Longrightarrow> fixed w v" for v by (simp add: fixed_def put_task_def)
  show ?thesis
  proof (cases "command x")
    case READ_COMMAND
    then show ?thesis
      using assms x by (intro *) (auto simp: submit_one_def Let_def case_prod_beta split: if_splits
        dest!: alloc_fixed gather_fixed elim: fixed_trans)
  next
    case WRITE_COMMAND
    then show ?thesis
      using assms x by (intro *) (auto simp: submit_one_def Let_def case_prod_beta split: if_splits
        dest!: alloc_fixed gather_fixed elim: fixed_trans)
  next
    case FLUSH_COMMAND
    then show ?thesis
      using assms x by (auto simp: submit_one_def Let_def split: if_splits prod.splits)
  qed
qed

lemma submit_chain_fixed: "submit_chain m env t w = Ok (t', w') \<Longrightarrow> fixed w w'"
proof (induction m env t w rule: submit_chain.induct)
  case (3 n env t w)
  show ?case
  proof (cases "current_queue_depth w = max_queue_depth w")
    case False
    then obtain s w1 where s: "submit_one env t w = Ok (s, w1)" using 3(2) by auto
    note f = submit_one_fixed [OF s]
    show ?thesis
    proof (cases s)
      case True
      then obtain x :: task where "submit_chain n env (t_next x) (w1\<lparr>current_queue_depth := current_queue_depth w1 + 1\<rparr>) = Ok (t', w')"
        using 3(2) False s by (simp split: if_splits) blast
      from 3(1) [OF False True this] show ?thesis using f by (simp add: fixed_def)
    qed (use 3(2) False s f in simp)
  qed (use 3(2) in simp)
qed simp_all

lemma aio_handle_fixed: "aio_handle k m env test t w = Ok w' \<Longrightarrow> fixed w w'"
proof (induction k m env test t w rule: aio_handle.induct)
  case (2 k m env test t w)
  show ?case
  proof (cases "test \<and> num_running (ioc w) = 0")
    case False
    then obtain w1 t2 w2 where 1: "poll env w = Ok w1" "submit_chain m env t w1 = Ok (t2, w2)"
        "aio_handle k m env (t2 = None) t2 w2 = Ok w'"
      using 2(2) by auto
    have "fixed w2 w'" by (rule 2(1) [OF False 1(3)])
    then show ?thesis using poll_fixed [OF 1(1)] submit_chain_fixed [OF 1(2)] by (simp add: fixed_def)
  qed (use 2(2) in auto)
qed (simp split: if_splits)

subsection \<open>A submission, over any kind\<close>

definition submitted :: "nat \<Rightarrow> io_context \<Rightarrow> io_context" where
  "submitted n c = c\<lparr>num_running := int n, num_pending := 0, nvme_task_first := None, nvme_task_last := None\<rparr>"

lemma upd_ioc: "(upd h k c w)\<lparr>ioc := c'\<rparr> = upd h k c' w"
  by (simp add: upd_def)

context io_mode begin

lemma submit_Ok:
  assumes tq: "thread_queue e w = Ok w1" and idle: "queue_idle bs w1"
    and env: "spdk_contract env reg bs (unat (max_queue_depth w1)) disk inflight idleness" "inflight (qp w) = []"
    and i: "num_pending i = int (length ts)" "ts \<noteq> []" "nvme_task_first i = head ts" "num_running i = 0"
    and w5: "w5 = upd h k (submitted (length ts) i) w1" and c: "c = run_of w5 ts (disk (qp w)) reg bs p sy"
    and ok: "cfg_ok c" "mode_ok c" "M c (set ts) w5 (disk (qp w))" "\<And>t. t \<in> set ts \<Longrightarrow> h t \<noteq> None"
  shows "\<exists>n0 w' B. (\<forall>n \<ge> n0. aio_submit n e env (upd h k i w) = Ok w') \<and> q_inv c B [] [] w' \<and> M c {} w' (disk (qp w'))
    \<and> inflight (qp w') = [] \<and> max_queue_depth w' = max_queue_depth w1 \<and> q_init w' \<and> next_task w' = k"
proof -
  have qp1: "qp w5 = qp w" and init: "q_init w1" using thread_queue_keeps [OF tq] by (simp_all add: w5)
  have inv: "q_inv c B [] ts w5" for B
    unfolding c by (rule run_of_inv) (use ok(1,4) idle in \<open>simp_all add: c w5 submitted_def queue_idle_def\<close>)
  have pos: "0 < unat (max_queue_depth w5)" using idle by (simp add: w5 queue_idle_def)
  have ctr: "spdk_contract env (c_reg c) (c_bs c) (unat (max_queue_depth w5)) disk inflight idleness" using env(1) by (simp add: c w5)
  have M5: "M c (set ([] @ ts)) w5 (disk (qp w5))" using ok(3) by (simp add: qp1)
  have fl: "inflight (qp w5) = flying c B []" for B using env(2) by (simp add: qp1 flying_def)
  have len: "length (c_ts c) \<le> length ts" by (simp add: c)
  from aio_handle_Ok [OF ok(1,2) len inv M5 ctr fl pos, of True] obtain k0 w' B where
    R: "\<forall>j \<ge> k0. aio_handle j (length ts) env True (head ts) w5 = Ok w'" "q_inv c B [] [] w'" "M c {} w' (disk (qp w'))"
      "inflight (qp w') = []" "max_queue_depth w' = max_queue_depth w5"
    by blast
  have fx: "q_init w' = q_init w5" "next_task w' = next_task w5"
    using aio_handle_fixed [OF R(1) [rule_format, OF order_refl]] by (simp_all add: fixed_def)
  have "aio_submit n e env (upd h k i w) = Ok w'" if n: "max k0 (length ts) \<le> n" for n
  proof -
    have "aio_handle n n env True (head ts) w5 = Ok w'"
      using R(1) n aio_handle_mono [of n "length ts" env True "head ts" w5 w' n] by simp
    moreover have "head ts \<noteq> None" using i(2) by (cases ts) simp_all
    ultimately show ?thesis
      using i thread_queue_upd [OF tq, of h k "submitted (length ts) i"]
      by (simp add: aio_submit_def Let_def w5 submitted_def upd_ioc)
  qed
  then show ?thesis
    using R(2-5) fx init by (intro exI [of _ "max k0 (length ts)"] exI [of _ w'] exI [of _ B]) (simp add: w5)
qed

end

text \<open>What the invariant says at the end.\<close>

lemma run_end:
  assumes "q_inv (run_of w ts m reg bs p sy) B [] [] w'" "queue_idle bs w" "max_queue_depth w' = max_queue_depth w" "q_init w'"
  shows "queue_idle bs w'" "mset (data_buf_list w') = mset (data_buf_list w)" "num_running (ioc w') = 0"
    "total_nseg (ioc w') = total_nseg (ioc w)"
proof -
  note I = q_invD [OF assms(1)]
  show m: "mset (data_buf_list w') = mset (data_buf_list w)" using I(6) by simp
  show "num_running (ioc w') = 0" "total_nseg (ioc w') = total_nseg (ioc w)" using I(7,11) by simp_all
  have "distinct (data_buf_list w')" "length (data_buf_list w') = length (data_buf_list w)"
    using m assms(2) mset_eq_imp_distinct_iff [OF m] mset_eq_length [OF m] by (simp_all add: queue_idle_def)
  then show "queue_idle bs w'" using assms(2-4) I(8,10) by (simp add: queue_idle_def unat_eq_0)
qed

subsection \<open>The chain that a request becomes\<close>

definition nchunks :: "nat \<Rightarrow> nat" where
  "nchunks len = (len + 131071) div 131072"

lemma unat_split [simp]: "unat split_size = 131072"
  by (simp add: split_size_def)

lemma nchunks_less: "j < nchunks len \<longleftrightarrow> j * 131072 < len"
proof -
  have "j < nchunks len \<longleftrightarrow> Suc j * 131072 \<le> len + 131071"
    unfolding nchunks_def by (simp add: less_eq_div_iff_mult_less_eq Suc_le_eq [symmetric])
  then show ?thesis by simp linarith
qed

lemma nchunks_bound: "len \<le> nchunks len * 131072"
  using nchunks_less [of "nchunks len" len] by simp

lemma nchunks_pos: "0 < len \<Longrightarrow> 0 < nchunks len"
  using nchunks_less [of 0 len] by simp

text \<open>The length of chunk \<open>j\<close>.\<close>

definition chunk_len :: "nat \<Rightarrow> nat \<Rightarrow> nat" where
  "chunk_len len j = min (len - j * 131072) 131072"

lemma chunk_len_bounds: "j < nchunks len \<Longrightarrow> 0 < chunk_len len j \<and> chunk_len len j \<le> 131072 \<and> j * 131072 + chunk_len len j \<le> len"
  by (simp add: chunk_len_def nchunks_less)

text \<open>Tasks \<open>base, base + 1, ...\<close> built from \<open>g\<close>, linked, in a context that had none.\<close>

definition built :: "(nat \<Rightarrow> task) \<Rightarrow> task_id \<Rightarrow> nat \<Rightarrow> 'a world_scheme \<Rightarrow> 'a world_scheme" where
  "built g base j w = w\<lparr>
     tasks := (\<lambda>u. if base \<le> u \<and> u < base + j
        then Some ((g (u - base))\<lparr>t_next := if Suc (u - base) < j then Some (Suc u) else None\<rparr>) else tasks w u),
     next_task := base + j,
     ioc := (ioc w)\<lparr>nvme_task_first := (if j = 0 then None else Some base),
       nvme_task_last := (if j = 0 then None else Some (base + j - 1)), num_pending := int j\<rparr>\<rparr>"

lemma built_0:
  "next_task w = base \<Longrightarrow> nvme_task_first (ioc w) = None \<Longrightarrow> nvme_task_last (ioc w) = None \<Longrightarrow> num_pending (ioc w) = 0 \<Longrightarrow>
    built g base 0 w = w"
  by (cases w; cases "ioc w") (auto simp: built_def fun_eq_iff)

lemma built_Suc:
  assumes "t_next x = None" "x = g j\<lparr>t_next := None\<rparr>"
  shows "ioc_append_task (base + j) (put_task (base + j) x ((built g base j w)\<lparr>next_task := Suc (base + j)\<rparr>)) = Ok (built g base (Suc j) w)"
proof (cases j)
  case 0
  then show ?thesis using assms by (cases w; cases "ioc w") (auto simp: ioc_append_task_def built_def put_task_def fun_eq_iff)
next
  case (Suc i)
  then show ?thesis using assms by (cases w; cases "ioc w") (auto simp: ioc_append_task_def built_def put_task_def deref_def fun_eq_iff)
qed

lemma built_tasks:
  "base \<le> u \<Longrightarrow> u < base + j \<Longrightarrow> tasks (built g base j w) u = Some ((g (u - base))\<lparr>t_next := if Suc (u - base) < j then Some (Suc u) else None\<rparr>)"
  "u < base \<Longrightarrow> tasks (built g base j w) u = tasks w u"
  "next_task (built g base j w) = base + j"
  by (simp_all add: built_def)

lemma chain_upt:
  assumes "\<And>u. a \<le> u \<Longrightarrow> u < b \<Longrightarrow> t_next (X u) = (if Suc u < b then Some (Suc u) else None)"
  shows "chain X [a..<b]"
  using assms
proof (induction "b - a" arbitrary: a)
  case (Suc n)
  then have ab: "a < b" by simp
  have IH: "chain X [Suc a..<b]" by (rule Suc.hyps(1)) (use Suc.hyps(2) Suc.prems in auto)
  show ?case
  proof (cases "Suc a < b")
    case True
    then have "[a..<b] = a # Suc a # [Suc (Suc a)..<b]" "[Suc a..<b] = Suc a # [Suc (Suc a)..<b]"
      using ab by (simp_all add: upt_rec)
    then show ?thesis using IH Suc.prems [of a] ab True by simp
  next
    case False
    then have "[a..<b] = [a]" using ab by (simp add: upt_rec)
    then show ?thesis using Suc.prems [of a] ab False by simp
  qed
qed simp

subsection \<open>Writes\<close>

definition wtask :: "u64 \<Rightarrow> nat \<Rightarrow> nat \<Rightarrow> nat \<Rightarrow> task" where
  "wtask off buf len i = \<lparr>command = WRITE_COMMAND, t_offset = off + of_nat (i * 131072), t_len = of_nat (chunk_len len i),
     t_buf = buf + i * 131072, fill_cb = None, t_next = None, return_code = 0, primary = None,
     io_request = new_io_request, t_queue = False, t_ref = 0\<rparr>"

lemma wtask_simps [simp]:
  "command (wtask off buf len i) = WRITE_COMMAND" "t_offset (wtask off buf len i) = off + of_nat (i * 131072)"
  "t_len (wtask off buf len i) = of_nat (chunk_len len i)" "t_buf (wtask off buf len i) = buf + i * 131072"
  "primary (wtask off buf len i) = None" "io_request (wtask off buf len i) = new_io_request"
  by (simp_all add: wtask_def)

text \<open>An \<open>IOContext\<close> with nothing pending and nothing running.\<close>

definition ioc_clear :: "io_context \<Rightarrow> bool" where
  "ioc_clear c \<longleftrightarrow> nvme_task_first c = None \<and> nvme_task_last c = None \<and> num_pending c = 0 \<and> num_running c = 0"

lemma unat_of_nat64: "n < 2 ^ 64 \<Longrightarrow> unat (of_nat n :: u64) = n"
  by (simp add: unat_of_nat)

lemma chunk_word:
  assumes "len < 2 ^ 64"
  shows "min (of_nat (len - j * 131072)) split_size = (of_nat (chunk_len len j) :: u64)"
proof -
  have a: "unat (of_nat (len - j * 131072) :: u64) = len - j * 131072" using assms by (simp add: unat_of_nat64)
  show ?thesis
  proof (rule word_unat_eq_iff [THEN iffD2])
    have "unat (min (of_nat (len - j * 131072)) split_size :: u64) = min (len - j * 131072) 131072"
      using a by (simp add: min_def word_le_nat_alt)
    moreover have "unat (of_nat (chunk_len len j) :: u64) = chunk_len len j"
      using assms by (simp add: chunk_len_def unat_of_nat64)
    ultimately show "unat (min (of_nat (len - j * 131072)) split_size :: u64) = unat (of_nat (chunk_len len j) :: u64)"
      by (simp add: chunk_len_def)
  qed
qed

lemma write_split_loop_Ok:
  assumes len: "len < 2 ^ 64" and base: "next_task w = base"
  shows "j \<le> nchunks len \<Longrightarrow> (j < nchunks len \<longrightarrow> start = of_nat (j * 131072)) \<Longrightarrow>
    write_split_loop off (of_nat (len - j * 131072)) start buf (built (wtask off buf len) base j w)
      = Ok (built (wtask off buf len) base (nchunks len) w)"
proof (induction "nchunks len - j" arbitrary: j start)
  case 0
  then have j: "j = nchunks len" by simp
  then have "len - j * 131072 = 0" using nchunks_bound [of len] by simp
  then show ?case using j by (simp add: write_split_loop.simps)
next
  case (Suc n)
  then have j: "j < nchunks len" by simp
  note jl = nchunks_less [of j len, THEN iffD1, OF j]
  let ?W = "built (wtask off buf len) base j w"
  have st: "start = of_nat (j * 131072)" "unat start = j * 131072"
    using Suc.prems(2) j jl len by (simp_all add: unat_of_nat64 del: of_nat_mult)
  have rem: "of_nat (len - j * 131072) \<noteq> (0 :: u64)"
  proof
    assume "of_nat (len - j * 131072) = (0 :: u64)"
    then have "unat (of_nat (len - j * 131072) :: u64) = 0" by (simp only: unat_0)
    moreover have "unat (of_nat (len - j * 131072) :: u64) = len - j * 131072" by (rule unat_of_nat64) (use len in simp)
    ultimately show False using jl by simp
  qed
  have cl: "chunk_len len j \<le> len - j * 131072" by (simp add: chunk_len_def)
  have sub: "of_nat (len - j * 131072) - of_nat (chunk_len len j) = (of_nat (len - Suc j * 131072) :: u64)"
  proof -
    have "len - j * 131072 - chunk_len len j = len - Suc j * 131072" by (simp add: chunk_len_def)
    then show ?thesis using cl by (metis of_nat_diff)
  qed
  have x: "wtask off buf len j = \<lparr>command = WRITE_COMMAND, t_offset = off + start, t_len = of_nat (chunk_len len j), t_buf = 0,
      fill_cb = None, t_next = None, return_code = 0, primary = None, io_request = new_io_request, t_queue = False,
      t_ref = 0\<rparr>\<lparr>t_buf := buf + unat start\<rparr>"
    unfolding st(2) by (simp add: wtask_def st(1))
  have nt: "next_task ?W = base + j" by (simp add: built_tasks)
  have ap: "ioc_append_task (base + j) (put_task (base + j) (wtask off buf len j) (?W\<lparr>next_task := Suc (base + j)\<rparr>))
      = Ok (built (wtask off buf len) base (Suc j) w)"
    by (rule built_Suc) (simp_all add: wtask_def)
  have put: "put_task t a (put_task t b u) = put_task t a u" for t a b and u :: "'a world_scheme"
    by (simp add: put_task_def)
  have "write_split_loop off (of_nat (len - j * 131072)) start buf ?W
      = write_split_loop off (of_nat (len - Suc j * 131072)) (start + of_nat (chunk_len len j)) buf
          (built (wtask off buf len) base (Suc j) w)"
    using ap rem unfolding x
    by (subst write_split_loop.simps) (simp add: new_task_def Let_def chunk_word [OF len] sub deref_def nt put put_task_def)
  also have "\<dots> = Ok (built (wtask off buf len) base (nchunks len) w)"
  proof (rule Suc.hyps(1))
    show "n = nchunks len - Suc j" "Suc j \<le> nchunks len" using Suc.hyps(2) by simp_all
    show "Suc j < nchunks len \<longrightarrow> start + of_nat (chunk_len len j) = of_nat (Suc j * 131072)"
    proof
      assume "Suc j < nchunks len"
      then have "Suc j * 131072 < len" by (simp only: nchunks_less)
      then have "chunk_len len j = 131072" by (simp add: chunk_len_def)
      then show "start + of_nat (chunk_len len j) = of_nat (Suc j * 131072)" by (simp add: st(1))
    qed
  qed
  finally show ?case .
qed

lemma len64: "LENGTH(64) = 64"
  by simp

lemma write_split_Ok:
  assumes "next_task w = base" "ioc_clear (ioc w)"
  shows "write_split off len buf w = Ok (built (wtask off buf (unat len)) base (nchunks (unat len)) w)"
  using write_split_loop_Ok [OF unsigned_less [of len, where ?'a = nat, unfolded len64] assms(1), of 0 0 off buf] assms
  by (simp add: write_split_def built_0 ioc_clear_def)

lemma built_upd:
  "built g base j w = upd (tasks (built g base j w)) (base + j) (ioc (built g base j w)) (w :: 'q queue)"
  by (simp add: built_def upd_def)

lemma built_ioc:
  "ioc (built g base j w) = (ioc w)\<lparr>nvme_task_first := (if j = 0 then None else Some base),
     nvme_task_last := (if j = 0 then None else Some (base + j - 1)), num_pending := int j\<rparr>"
  by (simp add: built_def)

lemma head_upt: "0 < j \<Longrightarrow> head [base..<base + j] = Some base"
  by (simp add: upt_rec head_def)

lemma unloaded_new_task: "io_request x = new_io_request \<Longrightarrow> unloaded x"
  by (simp add: unloaded_def new_io_request_def)

text \<open>The tasks of a write meet what the queue asks of a submission.\<close>

lemma chunk_dvd: "bs dvd 131072 \<Longrightarrow> bs dvd len \<Longrightarrow> bs dvd chunk_len len i"
proof -
  assume "bs dvd 131072" "bs dvd len"
  then have "bs dvd len - i * 131072" by (simp add: dvd_diff_nat)
  then show ?thesis using \<open>bs dvd 131072\<close> by (simp add: chunk_len_def min_def)
qed

lemma chunk_off:
  assumes "off + len < 2 ^ 64" "i < nchunks len"
  shows "unat (of_nat off + of_nat (i * 131072) :: u64) = off + i * 131072"
proof -
  have "off + i * 131072 < 2 ^ 64" using assms chunk_len_bounds [of i len] by linarith
  then show ?thesis using unat_of_nat64 [of "off + i * 131072"] by simp
qed

lemma chunk_inside:
  assumes "{a..<a + len} \<subseteq> reg" "j < nchunks len"
  shows "{a + j * 131072..<a + j * 131072 + chunk_len len j} \<subseteq> reg"
proof -
  have "j * 131072 + chunk_len len j \<le> len" using chunk_len_bounds [OF assms(2)] by simp
  then have "{a + j * 131072..<a + j * 131072 + chunk_len len j} \<subseteq> {a..<a + len}" by auto
  then show ?thesis using assms(1) by blast
qed

lemma write_cfg_ok:
  fixes w :: "'q queue"
  assumes bs: "0 < bs" "bs dvd 131072" "bs dvd unat off" "bs dvd len" "unat off + len < 2 ^ 64"
    and rg: "{unat off..<unat off + len} \<subseteq> reg" and idle: "queue_idle bs w" and h: "\<And>i. i < nchunks len \<Longrightarrow>
      tasks w (base + i) = Some ((wtask off buf len i)\<lparr>t_next := if Suc i < nchunks len then Some (base + Suc i) else None\<rparr>)"
  shows "cfg_ok (run_of w [base..<base + nchunks len] m reg bs p sy) \<and> write_ok (run_of w [base..<base + nchunks len] m reg bs p sy)"
proof -
  let ?n = "nchunks len" and ?c = "run_of w [base..<base + nchunks len] m reg bs p sy"
  have ct: "c_task ?c u = (wtask off buf len (u - base))\<lparr>t_next := if Suc u < base + ?n then Some (Suc u) else None\<rparr>"
    if "u \<in> set [base..<base + ?n]" for u
    using h [of "u - base"] that by auto
  have len64: "chunk_len len i < 2 ^ 64" for i by (simp add: chunk_len_def)
  have geo: "c_off ?c u = unat off + (u - base) * 131072" "c_len ?c u = chunk_len len (u - base)"
    if "u \<in> set [base..<base + ?n]" for u
    unfolding ct [OF that] using chunk_off [OF bs(5), of "u - base"] that len64 by (auto simp: unat_of_nat64)
  have "cfg_task_ok ?c u" if u: "u \<in> set [base..<base + ?n]" for u
  proof -
    have "command (c_task ?c u) = WRITE_COMMAND" "unloaded (c_task ?c u)" unfolding ct [OF u] by (simp_all add: unloaded_new_task)
    moreover have "u - base < ?n" using u by auto
    ultimately show ?thesis
      unfolding cfg_task_ok_def geo [OF u]
      using chunk_len_bounds [of "u - base" len] chunk_dvd [OF bs(2,4), of "u - base"] bs(2,3) chunk_inside [OF rg, of "u - base"]
      by simp
  qed
  moreover have "chain (c_task ?c) [base..<base + ?n]"
    by (rule chain_upt) (use ct in simp)
  moreover have "write_range ?c t \<inter> write_range ?c u = {}"
    if tu: "t \<in> set [base..<base + ?n]" "u \<in> set [base..<base + ?n]" "t < u" for t u
  proof -
    have "c_off ?c t + c_len ?c t \<le> c_off ?c u"
    proof -
      have "Suc (t - base) \<le> u - base" using tu by auto
      then have "Suc (t - base) * 131072 \<le> (u - base) * 131072" by (rule mult_right_mono) simp
      moreover have "chunk_len len (t - base) \<le> 131072" by (simp add: chunk_len_def)
      ultimately show ?thesis using geo [OF tu(1)] geo [OF tu(2)] by simp
    qed
    then show ?thesis by (auto simp: write_range_def)
  qed
  then have "write_range ?c t \<inter> write_range ?c u = {}"
    if "t \<in> set [base..<base + ?n]" "u \<in> set [base..<base + ?n]" "t \<noteq> u" for t u
    using that by (cases t u rule: linorder_cases) (blast, simp, blast)
  moreover have "bs < 2 ^ 32" using dvd_imp_le [OF bs(2)] by simp
  moreover have "write_ok ?c" using ct by (simp add: write_ok_def)
  ultimately show ?thesis
    using bs(1) idle by (simp add: cfg_ok_def queue_idle_def)
qed

text \<open>A finished submission leaves the context as it was, one wake-up or callback later.\<close>

lemma ioc_after:
  assumes "ioc_clear i" "c_ioc c = (submitted n (ioc (built g base n w)))\<lparr>num_running := 0, total_nseg := 0, notified := 0\<rparr>"
    "ioc w = i" "ioc_kept c w'" "num_running (ioc w') = 0" "total_nseg (ioc w') = total_nseg i"
  shows "ioc w' = i\<lparr>notified := notified (ioc w')\<rparr>"
  using assms by (cases "ioc w'"; cases i) (simp add: ioc_kept_def submitted_def built_ioc ioc_clear_def)

lemma told_eq:
  assumes "told c b w'" "c_ioc c = (submitted n (ioc (built g base n w)))\<lparr>num_running := 0, total_nseg := 0, notified := 0\<rparr>"
    "c_callbacks c = callbacks w" "c_notified c = notified (ioc w)"
  shows "callbacks w' = callbacks w @ (case ioc_priv (ioc w) of None \<Rightarrow> [] | Some p \<Rightarrow> if b then [p] else [])"
    "notified (ioc w') = notified (ioc w) + (if b \<and> ioc_priv (ioc w) = None then 1 else 0)"
  using assms by (simp_all add: told_def submitted_def built_ioc)

lemma chunk_of:
  assumes "p < len"
  shows "p div 131072 < nchunks len" "p - (p div 131072) * 131072 < chunk_len len (p div 131072)"
proof -
  have q: "(p div 131072) * 131072 \<le> p" "p < (p div 131072) * 131072 + 131072"
    using div_mult_mod_eq [of p 131072] mod_less_divisor [of 131072 p] by linarith+
  show "p div 131072 < nchunks len" unfolding nchunks_less using q assms by linarith
  show "p - (p div 131072) * 131072 < chunk_len len (p div 131072)" unfolding chunk_len_def min_less_iff_conj using q assms by (intro conjI) linarith+
qed

definition start_state :: "(nat \<Rightarrow> task) \<Rightarrow> task_id \<Rightarrow> nat \<Rightarrow> 'q queue \<Rightarrow> 'q queue \<Rightarrow> 'q queue" where
  "start_state g base n w w1 = upd (tasks (built g base n w)) (base + n) (submitted n (ioc (built g base n w))) w1"

lemma start_state_task:
  "i < n \<Longrightarrow> tasks (start_state g base n w w1) (base + i)
     = Some ((g i)\<lparr>t_next := if Suc i < n then Some (base + Suc i) else None\<rparr>)"
  using built_tasks(1) [of base "base + i" n g w] by (simp add: start_state_def)

lemma start_state_other: "u \<notin> {base..<base + n} \<Longrightarrow> tasks (start_state g base n w w1) u = tasks w u"
  by (auto simp: start_state_def built_def)

context io_mode begin

text \<open>A chain that was just built, submitted: from the start to the end of the run.\<close>

lemma built_submit:
  assumes tq: "thread_queue e w = Ok w1" and idle: "queue_idle bs w1"
    and env: "spdk_contract env reg bs (unat (max_queue_depth w1)) disk inflight idleness" "inflight (qp w) = []"
    and n: "0 < n" "ioc_clear (ioc w)" and c: "c = run_of (start_state g base n w w1) [base..<base + n] (disk (qp w)) reg bs p sy"
    and ok: "cfg_ok c" "mode_ok c" "M c {base..<base + n} (start_state g base n w w1) (disk (qp w))"
  shows "\<exists>n0 w'. (\<forall>k \<ge> n0. aio_submit k e env (built g base n w) = Ok w') \<and> M c {} w' (disk (qp w'))
    \<and> inflight (qp w') = [] \<and> queue_idle bs w' \<and> mset (data_buf_list w') = mset (data_buf_list w1) \<and> next_task w' = base + n
    \<and> max_queue_depth w' = max_queue_depth w1
    \<and> (ioc_kept c w' \<longrightarrow> ioc w' = (ioc w)\<lparr>notified := notified (ioc w')\<rparr>)
    \<and> (\<forall>b. told c b w' \<longrightarrow> callbacks w' = callbacks w @ (case ioc_priv (ioc w) of None \<Rightarrow> [] | Some p \<Rightarrow> if b then [p] else [])
           \<and> notified (ioc w') = notified (ioc w) + (if b \<and> ioc_priv (ioc w) = None then 1 else 0))"
proof -
  define b where "b = built g base n w"
  define ts where "ts = [base..<base + n]"
  define w5 where "w5 = start_state g base n w w1"
  have w5': "w5 = upd (tasks b) (base + n) (submitted (length ts) (ioc b)) w1" by (simp add: w5_def start_state_def b_def ts_def)
  have c': "c = run_of w5 ts (disk (qp w)) reg bs p sy" by (simp add: c w5_def ts_def)
  have idle5: "queue_idle bs w5" using idle by (simp add: w5' queue_idle_def)
  have i: "num_pending (ioc b) = int (length ts)" "ts \<noteq> []" "nvme_task_first (ioc b) = head ts" "num_running (ioc b) = 0"
    using n head_upt [OF n(1), of base] by (simp_all add: b_def built_ioc ioc_clear_def ts_def)
  have ne: "tasks b t \<noteq> None" if "t \<in> set ts" for t
    using that by (simp add: b_def ts_def built_def)
  have M: "M c (set ts) w5 (disk (qp w))" using ok(3) by (simp add: ts_def w5_def)
  from submit_Ok [OF tq idle env i w5' c' ok(1,2) M ne] obtain n0 w' B where
    R: "\<forall>k \<ge> n0. aio_submit k e env (upd (tasks b) (base + n) (ioc b) w) = Ok w'" "q_inv c B [] [] w'"
      "M c {} w' (disk (qp w'))" "inflight (qp w') = []" "max_queue_depth w' = max_queue_depth w1" "q_init w'" "next_task w' = base + n"
    by blast
  have E: "queue_idle bs w'" "mset (data_buf_list w') = mset (data_buf_list w5)" "num_running (ioc w') = 0"
      "total_nseg (ioc w') = total_nseg (ioc w5)"
    using run_end [OF R(2) [unfolded c'] idle5 _ R(6)] R(5) by (simp_all add: w5')
  have ci: "c_ioc c = (submitted n (ioc (built g base n w)))\<lparr>num_running := 0, total_nseg := 0, notified := 0\<rparr>"
    by (simp add: c' w5' ts_def b_def)
  have cc: "c_callbacks c = callbacks w" "c_notified c = notified (ioc w)"
    using thread_queue_keeps(5) [OF tq] by (simp_all add: c' w5' submitted_def b_def built_ioc)
  have io: "ioc w' = (ioc w)\<lparr>notified := notified (ioc w')\<rparr>" if "ioc_kept c w'"
    by (rule ioc_after [OF n(2) ci refl that E(3)]) (simp add: E(4) w5' submitted_def b_def built_ioc)
  have "upd (tasks b) (base + n) (ioc b) w = built g base n w"
    using built_upd [of g base n w] by (simp add: b_def)
  then have A: "\<forall>k \<ge> n0. aio_submit k e env (built g base n w) = Ok w'" using R(1) by simp
  have ml: "mset (data_buf_list w') = mset (data_buf_list w1)" using E(2) by (simp add: w5')
  show ?thesis
    using A R(3,4,5,7) E(1) ml io told_eq [OF _ ci cc] by blast
qed

end

lemma submit_writes:
  assumes tq: "thread_queue e w = Ok w1" and idle: "queue_idle bs w1"
    and env: "spdk_contract env reg bs (unat (max_queue_depth w1)) disk inflight idleness" "inflight (qp w) = []"
    and bs: "0 < bs" "bs dvd 131072" "bs dvd unat off" "bs dvd unat len" "unat off + unat len < 2 ^ 64" "0 < unat len"
    and rg: "{unat off..<unat off + unat len} \<subseteq> reg"
    and w: "ioc_clear (ioc w)" "\<And>t. next_task w \<le> t \<Longrightarrow> tasks w t = None"
  shows "\<exists>n0 w'. (\<forall>n \<ge> n0. rbind (write_split off len buf w) (aio_submit n e env) = Ok w')
    \<and> disk (qp w') = memcpy (unat off) (unat len) (umem w) buf (disk (qp w)) \<and> umem w' = umem w \<and> tasks w' = tasks w
    \<and> callbacks w' = callbacks w @ (case ioc_priv (ioc w) of None \<Rightarrow> [] | Some p \<Rightarrow> [p])
    \<and> ioc w' = (ioc w)\<lparr>notified := notified (ioc w) + (if ioc_priv (ioc w) = None then 1 else 0)\<rparr>
    \<and> queue_idle bs w' \<and> mset (data_buf_list w') = mset (data_buf_list w1) \<and> inflight (qp w') = []
    \<and> max_queue_depth w' = max_queue_depth w1 \<and> next_task w \<le> next_task w'"
proof -
  define base n g where "base = next_task w" and "n = nchunks (unat len)" and "g = wtask off buf (unat len)"
  define w5 where "w5 = start_state g base n w w1"
  define c where "c = run_of w5 [base..<base + n] (disk (qp w)) reg bs None False"
  have sp: "write_split off len buf w = Ok (built g base n w)"
    using write_split_Ok [OF _ w(1), of base] by (simp add: g_def n_def base_def)
  have n: "0 < n" using nchunks_pos [OF bs(6)] by (simp add: n_def)
  have bt: "tasks w5 (base + i) = Some ((g i)\<lparr>t_next := if Suc i < n then Some (base + Suc i) else None\<rparr>)" if "i < n" for i
    unfolding w5_def by (rule start_state_task [OF that])
  have u5: "umem w5 = umem w" using thread_queue_keeps(4) [OF tq] by (simp add: w5_def start_state_def)
  have idle5: "queue_idle bs w5" using idle by (simp add: w5_def start_state_def queue_idle_def)
  have ok: "cfg_ok c" "write_ok c"
    using write_cfg_ok [OF bs(1-5) rg idle5 bt [unfolded g_def n_def], of "disk (qp w)"] by (simp_all add: c_def n_def)
  have M: "write_state c {base..<base + n} w5 (disk (qp w))"
    using run_of_write [of "[base..<base + n]" w5 "disk (qp w)" reg bs None False] n by (simp add: c_def)
  from wr.built_submit [OF tq idle env n w(1) c_def [unfolded w5_def] ok M [unfolded w5_def]] obtain n0 w' where
    R: "\<forall>k \<ge> n0. aio_submit k e env (built g base n w) = Ok w'" "write_state c {} w' (disk (qp w'))" "inflight (qp w') = []"
      "queue_idle bs w'" "mset (data_buf_list w') = mset (data_buf_list w1)"
      "ioc_kept c w' \<longrightarrow> ioc w' = (ioc w)\<lparr>notified := notified (ioc w')\<rparr>"
      "\<forall>b. told c b w' \<longrightarrow> callbacks w' = callbacks w @ (case ioc_priv (ioc w) of None \<Rightarrow> [] | Some p \<Rightarrow> if b then [p] else [])
           \<and> notified (ioc w') = notified (ioc w) + (if b \<and> ioc_priv (ioc w) = None then 1 else 0)"
      "max_queue_depth w' = max_queue_depth w1" "next_task w' = base + n"
    by blast
  have nx: "next_task w \<le> next_task w'" using R(9) by (simp add: base_def)
  note W = write_stateD [OF R(2)]
  have io: "ioc w' = (ioc w)\<lparr>notified := notified (ioc w')\<rparr>" using R(6) W(3) by blast
  have "told c True w'" using W(4) by simp
  note tl = R(7) [rule_format, OF this, unfolded if_True simp_thms]
  have tk: "tasks w' u = tasks w u" for u
  proof (cases "u \<in> {base..<base + n}")
    case True
    then show ?thesis using W(6) [of u] w(2) [of u] by (simp add: c_def base_def)
  next
    case False
    then show ?thesis using W(5) [of u] start_state_other [OF False, of g w w1] by (simp add: c_def w5_def)
  qed
  have geo: "c_off c (base + i) = unat off + i * 131072" "c_len c (base + i) = chunk_len (unat len) i"
      "t_buf (c_task c (base + i)) = buf + i * 131072" if "i < n" for i
    using chunk_off [of "unat off" "unat len" i] bs(5) that bt [OF that]
    by (simp_all add: c_def g_def n_def chunk_len_def unat_of_nat64)
  have "disk (qp w') a = memcpy (unat off) (unat len) (umem w) buf (disk (qp w)) a" for a
  proof (cases "unat off \<le> a \<and> a < unat off + unat len")
    case True
    define p where "p = a - unat off"
    then have p: "p < unat len" "a = unat off + p" using True by auto
    note q = chunk_of [OF p(1), folded n_def]
    have t: "base + p div 131072 \<in> set (c_ts c)" using q(1) by (simp add: c_def)
    have dm: "(p div 131072) * 131072 + (p - (p div 131072) * 131072) = p"
      using div_mult_mod_eq [of p 131072] by linarith
    have "disk (qp w') (unat off + (p div 131072) * 131072 + (p - (p div 131072) * 131072))
        = c_umem c (buf + (p div 131072) * 131072 + (p - (p div 131072) * 131072))"
      by (rule W(7) [OF t, unfolded written_def geo [OF q(1)], rule_format, OF _ q(2)]) simp
    then have "disk (qp w') a = umem w (buf + p)" using dm p(2) by (simp add: add.assoc c_def u5)
    then show ?thesis using p by (simp add: memcpy_def)
  next
    case False
    have "a \<notin> write_range c t" if t: "t \<in> set (c_ts c)" for t
    proof -
      have ti: "t - base < n" "t = base + (t - base)" using t by (auto simp: c_def)
      have "(t - base) * 131072 + chunk_len (unat len) (t - base) \<le> unat len"
        using chunk_len_bounds ti(1) by (simp add: n_def)
      then show ?thesis using geo [OF ti(1)] ti(2) False by (auto simp: write_range_def)
    qed
    then have "disk (qp w') a = disk (qp w) a" using W(8) [of a] by (simp add: c_def)
    then show ?thesis using False by (auto simp: memcpy_def)
  qed
  then have dk: "disk (qp w') = memcpy (unat off) (unat len) (umem w) buf (disk (qp w))" by blast
  have "rbind (write_split off len buf w) (aio_submit k e env) = Ok w'" if "n0 \<le> k" for k
    using R(1) that by (simp add: sp)
  then show ?thesis
    using dk W(2) ext [of "tasks w'" "tasks w", OF tk] tl io R(3,4,5,8) nx
    by (intro exI [of _ n0] exI [of _ w']) (simp add: c_def u5)
qed

subsection \<open>Reads\<close>

text \<open>
  The stream of bytes that the tasks read starts at the aligned offset; the caller wants its bytes
  \<open>toff\<close> up to \<open>tot\<close>. Chunk \<open>i\<close> skips \<open>skip toff i\<close> bytes and delivers the rest of its part.
\<close>

definition skip :: "nat \<Rightarrow> nat \<Rightarrow> nat" where
  "skip toff i = (if i = 0 then toff else 0)"

definition rtask :: "u64 \<Rightarrow> nat \<Rightarrow> nat \<Rightarrow> nat \<Rightarrow> nat \<Rightarrow> int \<Rightarrow> task_id option \<Rightarrow> nat \<Rightarrow> task" where
  "rtask aoff alen toff tot buf rc p i = \<lparr>command = READ_COMMAND, t_offset = aoff + of_nat (i * 131072),
     t_len = of_nat (chunk_len alen i), t_buf = 0,
     fill_cb = Some \<lparr>fill_buf = buf + (i * 131072 - toff), fill_off = of_nat (skip toff i),
                     fill_len = of_nat (chunk_len tot i - skip toff i)\<rparr>,
     t_next = None, return_code = rc, primary = p, io_request = new_io_request, t_queue = False, t_ref = 0\<rparr>"

lemma rtask_simps [simp]:
  "command (rtask aoff alen toff tot buf rc p i) = READ_COMMAND"
  "t_offset (rtask aoff alen toff tot buf rc p i) = aoff + of_nat (i * 131072)"
  "t_len (rtask aoff alen toff tot buf rc p i) = of_nat (chunk_len alen i)"
  "fill_cb (rtask aoff alen toff tot buf rc p i) = Some \<lparr>fill_buf = buf + (i * 131072 - toff),
     fill_off = of_nat (skip toff i), fill_len = of_nat (chunk_len tot i - skip toff i)\<rparr>"
  "return_code (rtask aoff alen toff tot buf rc p i) = rc" "primary (rtask aoff alen toff tot buf rc p i) = p"
  "io_request (rtask aoff alen toff tot buf rc p i) = new_io_request" "t_next (rtask aoff alen toff tot buf rc p i) = None"
  by (simp_all add: rtask_def)

text \<open>The geometry of a read: an aligned window around the wanted bytes.\<close>

definition read_window :: "nat set \<Rightarrow> nat \<Rightarrow> nat \<Rightarrow> nat \<Rightarrow> nat \<Rightarrow> nat \<Rightarrow> bool" where
  "read_window reg bs aoff alen toff tot \<longleftrightarrow> 0 < bs \<and> bs dvd 131072 \<and> bs \<le> 8192 \<and> bs dvd aoff \<and> bs dvd alen
     \<and> toff < bs \<and> toff < tot \<and> tot \<le> alen \<and> alen < tot + bs \<and> aoff + alen + 131072 \<le> 2 ^ 64
     \<and> {aoff..<aoff + alen} \<subseteq> reg"

lemma read_windowD:
  assumes "read_window reg bs aoff alen toff tot"
  shows "0 < bs" "bs dvd 131072" "bs \<le> 8192" "bs dvd aoff" "bs dvd alen" "toff < bs" "toff < tot" "tot \<le> alen"
    "alen < tot + bs" "aoff + alen + 131072 \<le> 2 ^ 64" "toff < 8192"
    "{aoff..<aoff + alen} \<subseteq> reg"
  using assms unfolding read_window_def by auto

lemma read_window_chunks:
  assumes "read_window reg bs aoff alen toff tot"
  shows "j < nchunks alen \<longleftrightarrow> j * 131072 < tot"
proof -
  note W = read_windowD [OF assms]
  have "j * 131072 < tot" if "j * 131072 < alen"
  proof -
    have "bs dvd j * 131072" using W(2) by simp
    then obtain a b where ab: "alen = bs * a" "j * 131072 = bs * b" using W(5) by (auto elim!: dvdE)
    then have "b < a" using that by simp
    then have "bs * Suc b \<le> bs * a" by (intro mult_le_mono2) simp
    then show ?thesis using ab W(9) by simp
  qed
  then show ?thesis using W(8) by (auto simp: nchunks_less)
qed

lemma skip_bounds:
  assumes "read_window reg bs aoff alen toff tot" "j < nchunks alen"
  shows "skip toff j < chunk_len tot j" "chunk_len tot j \<le> chunk_len alen j" "skip toff j \<le> toff"
    "j * 131072 + skip toff j = toff + (j * 131072 - toff)"
proof -
  note W = read_windowD [OF assms(1)]
  have j: "j * 131072 < tot" using read_window_chunks [OF assms(1)] assms(2) by simp
  show "skip toff j < chunk_len tot j" using j W(7,11) by (cases j) (simp_all add: skip_def chunk_len_def)
  show "chunk_len tot j \<le> chunk_len alen j" using W(8) by (simp add: chunk_len_def)
  show "skip toff j \<le> toff" by (simp add: skip_def)
  show "j * 131072 + skip toff j = toff + (j * 131072 - toff)" using W(11) by (cases j) (simp_all add: skip_def)
qed

text \<open>The primary of a split synchronous read, \<open>j\<close> of whose tasks exist.\<close>

definition bump :: "task_id option \<Rightarrow> task \<Rightarrow> nat \<Rightarrow> 'a world_scheme \<Rightarrow> 'a world_scheme" where
  "bump p y j w = (case p of None \<Rightarrow> w | Some q \<Rightarrow> put_task q (y\<lparr>t_ref := int j\<rparr>) w)"

lemma bump_simps [simp]:
  "next_task (bump p y j w) = next_task w" "ioc (bump p y j w) = ioc w" "umem (bump p y j w) = umem w"
  "callbacks (bump p y j w) = callbacks w" "data_buf_list (bump p y j w) = data_buf_list w" "dma (bump p y j w) = dma w"
  by (simp_all add: bump_def put_task_def split: option.splits)

lemma bump_tasks: "tasks (bump p y j w) u = (if p = Some u then Some (y\<lparr>t_ref := int j\<rparr>) else tasks w u)"
  by (simp add: bump_def put_task_def split: option.splits)

lemma new_read_task:
  assumes "next_task w = base" "\<And>q. p = Some q \<Longrightarrow> q < base"
  shows "new_task READ_COMMAND off l 0 p (built g base j (bump p y j w))
    = Ok (base + j, put_task (base + j) \<lparr>command = READ_COMMAND, t_offset = off, t_len = l, t_buf = 0, fill_cb = None,
         t_next = None, return_code = (case p of None \<Rightarrow> 0 | Some q \<Rightarrow> return_code y), primary = p,
         io_request = new_io_request, t_queue = False, t_ref = 0\<rparr>
       ((built g base j (bump p y (Suc j) w))\<lparr>next_task := Suc (base + j)\<rparr>))"
proof (cases p)
  case None
  then show ?thesis by (simp add: new_task_def Let_def built_tasks bump_def)
next
  case (Some q)
  then have q: "q < base" using assms(2) by simp
  have "tasks (built g base j (bump p y j w)) q = Some (y\<lparr>t_ref := int j\<rparr>)"
    using q Some by (simp add: built_tasks bump_tasks)
  moreover have "put_task q (y\<lparr>t_ref := int j + 1\<rparr>) ((built g base j (bump p y j w))\<lparr>next_task := k\<rparr>)
      = (built g base j (bump p y (Suc j) w))\<lparr>next_task := k\<rparr>" for k
    using q Some by (cases w) (auto simp: built_def bump_def put_task_def fun_eq_iff)
  ultimately show ?thesis using Some by (simp add: new_task_def Let_def built_tasks deref_def)
qed

lemma min_of_nat: "a < 2 ^ 64 \<Longrightarrow> b < 2 ^ 64 \<Longrightarrow> min (of_nat a) (of_nat b) = (of_nat (min a b) :: u64)"
  by (simp add: min_def word_le_nat_alt unat_of_nat64)

lemma of_nat_minus: "b \<le> a \<Longrightarrow> of_nat a - of_nat b = (of_nat (a - b) :: u64)"
  by simp

lemma split_of_nat: "split_size = of_nat 131072"
  by (simp add: split_size_def)

text \<open>One turn of the loop, in natural numbers.\<close>

definition wanted :: "nat \<Rightarrow> nat \<Rightarrow> nat \<Rightarrow> nat" where
  "wanted toff tot j = tot - toff - (j * 131072 - toff)"

lemma turn_geometry:
  assumes "read_window reg bs aoff alen toff tot" "j < nchunks alen"
  shows "min (wanted toff tot j) (chunk_len alen j - skip toff j) = chunk_len tot j - skip toff j"
    "Suc j < nchunks alen \<Longrightarrow> (j * 131072 - toff) + (chunk_len tot j - skip toff j) = Suc j * 131072 - toff"
    "Suc j < nchunks alen \<Longrightarrow> wanted toff tot j - (chunk_len tot j - skip toff j) = wanted toff tot (Suc j)"
    "chunk_len tot j - skip toff j \<le> wanted toff tot j"
proof -
  note W = read_windowD [OF assms(1)] and C = read_window_chunks [OF assms(1)]
  have j: "j * 131072 < tot" using C assms(2) by simp
  have wn: "wanted toff tot j = tot - j * 131072 - skip toff j"
    using W(11) by (cases j) (simp_all add: wanted_def skip_def)
  show *: "min (wanted toff tot j) (chunk_len alen j - skip toff j) = chunk_len tot j - skip toff j"
    unfolding wn using W(8) by (auto simp: chunk_len_def min_def)
  then show "chunk_len tot j - skip toff j \<le> wanted toff tot j" by (metis min.cobounded1)
  assume "Suc j < nchunks alen"
  then have s: "Suc j * 131072 < tot" using C by simp
  then have cl: "chunk_len tot j = 131072" by (simp add: chunk_len_def)
  show "(j * 131072 - toff) + (chunk_len tot j - skip toff j) = Suc j * 131072 - toff"
    unfolding cl using W(11) by (cases j) (simp_all add: skip_def)
  show "wanted toff tot j - (chunk_len tot j - skip toff j) = wanted toff tot (Suc j)"
    unfolding cl wn using W(11) s by (cases j) (simp_all add: skip_def wanted_def)
qed

lemma read_start:
  assumes "read_window reg bs (unat aoff) (unat alen) toff tot" "j \<le> nchunks (unat alen)"
  shows "(aoff + of_nat (j * 131072) < aoff + alen) = (j < nchunks (unat alen))"
    "j < nchunks (unat alen) \<Longrightarrow> min (aoff + alen - (aoff + of_nat (j * 131072))) split_size = of_nat (chunk_len (unat alen) j)"
proof -
  note W = read_windowD [OF assms(1)]
  have "j * 131072 < unat alen + 131072"
  proof (cases j)
    case (Suc i)
    then show ?thesis using assms(2) nchunks_less [of i "unat alen"] by simp
  qed simp
  then have u: "unat (aoff + of_nat (j * 131072)) = unat aoff + j * 131072"
    using W(10) unat_of_nat64 [of "j * 131072"] unat_add_lem [of aoff "of_nat (j * 131072)"] by simp
  have a: "unat (aoff + alen) = unat aoff + unat alen"
    using W(10) unat_add_lem [of aoff alen] by simp
  show "(aoff + of_nat (j * 131072) < aoff + alen) = (j < nchunks (unat alen))"
    unfolding word_less_nat_alt u a nchunks_less by simp
  assume "j < nchunks (unat alen)"
  then have j: "j * 131072 < unat alen" by (simp only: nchunks_less)
  have "aoff + alen - (aoff + of_nat (j * 131072)) = alen - of_nat (j * 131072)" by simp
  also have "\<dots> = of_nat (unat alen - j * 131072)" using j of_nat_minus [of "j * 131072" "unat alen"] by simp
  finally show "min (aoff + alen - (aoff + of_nat (j * 131072))) split_size = of_nat (chunk_len (unat alen) j)"
    using chunk_word [of "unat alen" j] W(10) by simp
qed

lemma make_read_loop_Ok:
  fixes w :: "'a world_scheme"
  assumes W: "read_window reg bs (unat aoff) (unat alen) toff tot" and base: "next_task w = base"
    and p: "\<And>q. p = Some q \<Longrightarrow> q < base" "p \<noteq> None \<Longrightarrow> 131072 < unat alen"
    and g: "g = rtask aoff (unat alen) toff tot buf (case p of None \<Rightarrow> 0 | Some q \<Rightarrow> return_code y) p"
  shows "j \<le> nchunks (unat alen) \<Longrightarrow> nchunks (unat alen) - j \<le> n \<Longrightarrow>
    (j < nchunks (unat alen) \<longrightarrow> tmp = of_nat (skip toff j) \<and> remain = of_nat (wanted toff tot j) \<and> bf = buf + (j * 131072 - toff)) \<Longrightarrow>
    make_read_loop n (aoff + of_nat (j * 131072)) (aoff + alen) alen p tmp remain bf (built g base j (bump p y j w))
      = Ok (built g base (nchunks (unat alen)) (bump p y (nchunks (unat alen)) w))"
proof (induction n arbitrary: j tmp remain bf)
  case 0
  then have "j = nchunks (unat alen)" by simp
  moreover have "\<not> aoff + of_nat (j * 131072) < aoff + alen" using read_start(1) [OF W 0(1)] calculation by simp
  ultimately show ?case by simp
next
  case (Suc n)
  let ?N = "nchunks (unat alen)"
  show ?case
  proof (cases "j < ?N")
    case False
    then have "j = ?N" "\<not> aoff + of_nat (j * 131072) < aoff + alen" using Suc.prems(1) read_start(1) [OF W Suc.prems(1)] by simp_all
    then show ?thesis by simp
  next
    case True
    note G = turn_geometry [OF W True] and B = skip_bounds [OF W True] and D = read_windowD [OF W]
    have pm: "tmp = of_nat (skip toff j)" "remain = of_nat (wanted toff tot j)" "bf = buf + (j * 131072 - toff)"
      using Suc.prems(3) True by simp_all
    define len where "len = chunk_len tot j - skip toff j"
    have small: "chunk_len (unat alen) j < 2 ^ 64" "wanted toff tot j < 2 ^ 64" "len < 2 ^ 64"
      using D(8,10) by (simp_all add: chunk_len_def wanted_def len_def)
    have tl: "min remain (of_nat (chunk_len (unat alen) j) - tmp) = of_nat len"
    proof -
      have "skip toff j \<le> chunk_len (unat alen) j" using B(1,2) by linarith
      then have "of_nat (chunk_len (unat alen) j) - tmp = (of_nat (chunk_len (unat alen) j - skip toff j) :: u64)"
        unfolding pm by (rule of_nat_minus)
      then show ?thesis
        using min_of_nat [OF small(2), of "chunk_len (unat alen) j - skip toff j"] small(1) G(1) pm(2) by (simp add: len_def)
    qed
    have notp: "(p \<noteq> None \<and> alen \<le> split_size) = False" using p(2) by (auto simp: word_le_nat_alt)
    define x where "x = \<lparr>command = READ_COMMAND, t_offset = aoff + of_nat (j * 131072), t_len = of_nat (chunk_len (unat alen) j),
         t_buf = 0, fill_cb = None,
         t_next = None, return_code = (case p of None \<Rightarrow> 0 | Some q \<Rightarrow> return_code y), primary = p,
         io_request = new_io_request, t_queue = False, t_ref = 0\<rparr>"
    have nw: "new_task READ_COMMAND (aoff + of_nat (j * 131072)) (of_nat (chunk_len (unat alen) j)) 0 p (built g base j (bump p y j w))
        = Ok (base + j, put_task (base + j) x ((built g base j (bump p y (Suc j) w))\<lparr>next_task := Suc (base + j)\<rparr>))"
      unfolding x_def by (rule new_read_task [OF base p(1)])
    have gx: "g j = x\<lparr>fill_cb := Some \<lparr>fill_buf = bf, fill_off = tmp, fill_len = of_nat len\<rparr>\<rparr>"
      unfolding g pm by (simp add: rtask_def x_def len_def)
    have put: "put_task t a (put_task t b u) = put_task t a u" for t a b and u :: "'a world_scheme"
      by (simp add: put_task_def)
    have ap: "ioc_append_task (base + j) (put_task (base + j) (g j) ((built g base j (bump p y (Suc j) w))\<lparr>next_task := Suc (base + j)\<rparr>))
        = Ok (built g base (Suc j) (bump p y (Suc j) w))"
      by (rule built_Suc) (simp_all add: g)
    have "make_read_loop (Suc n) (aoff + of_nat (j * 131072)) (aoff + alen) alen p tmp remain bf (built g base j (bump p y j w))
        = make_read_loop n (aoff + of_nat (j * 131072) + split_size) (aoff + alen) alen p 0 (remain - of_nat len) (bf + unat (of_nat len :: u64))
            (built g base (Suc j) (bump p y (Suc j) w))"
      unfolding make_read_loop.simps notp if_False using read_start [OF W Suc.prems(1)] True nw ap
      by (simp add: Let_def tl deref_def put gx [symmetric] del: of_nat_mult)
        (simp add: put_task_def gx [symmetric])
    also have "aoff + of_nat (j * 131072) + split_size = aoff + of_nat (Suc j * 131072)"
      by (simp add: split_of_nat)
    also have "make_read_loop n (aoff + of_nat (Suc j * 131072)) (aoff + alen) alen p 0 (remain - of_nat len) (bf + unat (of_nat len :: u64))
            (built g base (Suc j) (bump p y (Suc j) w)) = Ok (built g base ?N (bump p y ?N w))"
    proof (rule Suc.IH)
      show "Suc j \<le> ?N" "?N - Suc j \<le> n" using True Suc.prems(2) by simp_all
      show "Suc j < ?N \<longrightarrow> 0 = of_nat (skip toff (Suc j)) \<and> remain - of_nat len = of_nat (wanted toff tot (Suc j))
          \<and> bf + unat (of_nat len :: u64) = buf + (Suc j * 131072 - toff)"
      proof (intro impI conjI)
        assume s: "Suc j < ?N"
        show "0 = of_nat (skip toff (Suc j))" by (simp add: skip_def)
        show "remain - of_nat len = of_nat (wanted toff tot (Suc j))"
          unfolding pm using of_nat_minus [OF G(4)] G(3) [OF s] by (simp add: len_def)
        show "bf + unat (of_nat len :: u64) = buf + (Suc j * 131072 - toff)"
          unfolding pm unat_of_nat64 [OF small(3)] using G(2) [OF s] by (simp add: len_def)
      qed
    qed
    finally show ?thesis .
  qed
qed

lemma read_cfg_ok:
  fixes w :: "'q queue"
  assumes W: "read_window reg bs (unat aoff) alen toff tot" and idle: "queue_idle bs w"
    and h: "\<And>i. i < nchunks alen \<Longrightarrow> tasks w (base + i)
      = Some ((rtask aoff alen toff tot buf rc p i)\<lparr>t_next := if Suc i < nchunks alen then Some (base + Suc i) else None\<rparr>)"
    and kind: "rc = 0 \<longleftrightarrow> \<not> sy" "p \<noteq> None \<Longrightarrow> sy" "\<And>q. p = Some q \<Longrightarrow> q < base"
  shows "cfg_ok (run_of w [base..<base + nchunks alen] m reg bs p sy) \<and> read_ok (run_of w [base..<base + nchunks alen] m reg bs p sy)"
proof -
  note D = read_windowD [OF W]
  let ?n = "nchunks alen" and ?c = "run_of w [base..<base + nchunks alen] m reg bs p sy"
  have ct: "c_task ?c u = (rtask aoff alen toff tot buf rc p (u - base))\<lparr>t_next := if Suc u < base + ?n then Some (Suc u) else None\<rparr>"
    if "u \<in> set [base..<base + ?n]" for u
    using h [of "u - base"] that by auto
  have i: "u - base < ?n" if "u \<in> set [base..<base + ?n]" for u using that by auto
  have geo: "c_off ?c u = unat aoff + (u - base) * 131072" "c_len ?c u = chunk_len alen (u - base)"
    if u: "u \<in> set [base..<base + ?n]" for u
    unfolding ct [OF u] using chunk_off [of "unat aoff" alen "u - base"] D(10) i [OF u]
    by (simp_all add: unat_of_nat64 chunk_len_def)
  have fl: "c_fill ?c u = \<lparr>fill_buf = buf + ((u - base) * 131072 - toff), fill_off = of_nat (skip toff (u - base)),
       fill_len = of_nat (chunk_len tot (u - base) - skip toff (u - base))\<rparr>" if u: "u \<in> set [base..<base + ?n]" for u
    unfolding c_fill_def ct [OF u] by simp
  have fu: "unat (fill_off (c_fill ?c u)) = skip toff (u - base)"
      "unat (fill_len (c_fill ?c u)) = chunk_len tot (u - base) - skip toff (u - base)"
      "fill_buf (c_fill ?c u) = buf + ((u - base) * 131072 - toff)" if u: "u \<in> set [base..<base + ?n]" for u
    unfolding fl [OF u] using skip_bounds(3) [OF W i [OF u]] D(11) by (simp_all add: unat_of_nat64 chunk_len_def)
  have "cfg_task_ok ?c u" if u: "u \<in> set [base..<base + ?n]" for u
  proof -
    have "command (c_task ?c u) = READ_COMMAND" "unloaded (c_task ?c u)" unfolding ct [OF u] by (simp_all add: unloaded_new_task)
    then show ?thesis
      unfolding cfg_task_ok_def geo [OF u] using chunk_len_bounds [OF i [OF u]] chunk_dvd [OF D(2,5), of "u - base"] D(2,4)
        chunk_inside [OF D(12) i [OF u]]
      by simp
  qed
  moreover have "chain (c_task ?c) [base..<base + ?n]"
    by (rule chain_upt) (use ct in simp)
  moreover have "write_range ?c t \<inter> write_range ?c u = {}"
    if "t \<in> set [base..<base + ?n]" "u \<in> set [base..<base + ?n]" for t u
    using ct [OF that(1)] by (simp add: write_range_def)
  moreover have "bs < 2 ^ 32" using D(3) by simp
  moreover have "read_task_ok ?c u" if u: "u \<in> set [base..<base + ?n]" for u
  proof -
    note B = skip_bounds [OF W i [OF u]]
    have "command (c_task ?c u) = READ_COMMAND" "fill_cb (c_task ?c u) \<noteq> None" "primary (c_task ?c u) = p"
        "return_code (c_task ?c u) = rc" unfolding ct [OF u] by simp_all
    then show ?thesis unfolding read_task_ok_def fu [OF u] geo [OF u] using B D(11) kind(1) by simp
  qed
  moreover have ff: "fill_range ?c t \<inter> fill_range ?c u = {}"
    if tu: "t \<in> set [base..<base + ?n]" "u \<in> set [base..<base + ?n]" "t < u" for t u
  proof -
    have s: "Suc (t - base) \<le> u - base" using tu by auto
    then have "Suc (t - base) < ?n" using i [OF tu(2)] by linarith
    then have "(t - base) * 131072 - toff + (chunk_len tot (t - base) - skip toff (t - base)) = Suc (t - base) * 131072 - toff"
      by (rule turn_geometry(2) [OF W i [OF tu(1)]])
    moreover have "Suc (t - base) * 131072 - toff \<le> (u - base) * 131072 - toff"
      using s by (intro diff_le_mono mult_le_mono1)
    ultimately show ?thesis unfolding fill_range_def fu [OF tu(1)] fu [OF tu(2)] by auto
  qed
  then have "fill_range ?c t \<inter> fill_range ?c u = {}"
    if "t \<in> set [base..<base + ?n]" "u \<in> set [base..<base + ?n]" "t \<noteq> u" for t u
    using that by (cases t u rule: linorder_cases) (blast, simp, blast)
  moreover have "p \<noteq> Some u" if "u \<in> set [base..<base + ?n]" for u using kind(3) [of u] that by auto
  ultimately show ?thesis
    using D(1) idle kind(2) by (simp add: cfg_ok_def read_ok_def queue_idle_def)
qed

text \<open>Where the stream of chunk \<open>i\<close> goes.\<close>

lemma read_delivers:
  fixes w :: "'q queue"
  assumes W: "read_window reg bs (unat aoff) alen toff tot" and h: "\<And>i. i < nchunks alen \<Longrightarrow> tasks w (base + i)
      = Some ((rtask aoff alen toff tot buf rc p i)\<lparr>t_next := if Suc i < nchunks alen then Some (base + Suc i) else None\<rparr>)"
    and c: "c = run_of w [base..<base + nchunks alen] m reg bs p sy" and M: "read_state c {} w' m"
  shows "umem w' = memcpy buf (tot - toff) m (unat aoff + toff) (umem w)"
proof (rule ext)
  fix a
  note D = read_windowD [OF W] and R = read_stateD [OF M]
  let ?n = "nchunks alen"
  have fu: "unat (fill_off (c_fill c (base + i))) = skip toff i"
      "unat (fill_len (c_fill c (base + i))) = chunk_len tot i - skip toff i"
      "fill_buf (c_fill c (base + i)) = buf + (i * 131072 - toff)" "c_off c (base + i) = unat aoff + i * 131072" if i: "i < ?n" for i
    using h [OF i] chunk_off [of "unat aoff" alen i] D(10,11) i skip_bounds(3) [OF W i]
    by (simp_all add: c c_fill_def unat_of_nat64 chunk_len_def)
  show "umem w' a = memcpy buf (tot - toff) m (unat aoff + toff) (umem w) a"
  proof (cases "buf \<le> a \<and> a < buf + (tot - toff)")
    case True
    define s where "s = toff + (a - buf)"
    then have s: "s < tot" "a = buf + (s - toff)" "toff \<le> s" using True by auto
    define i where "i = s div 131072"
    have q: "i * 131072 \<le> s" "s < i * 131072 + 131072"
      using div_mult_mod_eq [of s 131072] mod_less_divisor [of 131072 s] unfolding i_def by linarith+
    have i: "i < ?n" using read_window_chunks [OF W] q s(1) by simp
    note B = skip_bounds [OF W i]
    define pp where "pp = s - (i * 131072 + skip toff i)"
    have ge: "i * 131072 + skip toff i \<le> s" using q s(3) D(11) by (cases i) (simp_all add: skip_def)
    have pp: "pp < chunk_len tot i - skip toff i"
      unfolding pp_def chunk_len_def using q s(1) ge by (simp add: min_def) linarith
    have t: "base + i \<in> set (c_ts c)" using i by (simp add: c)
    have dv: "umem w' (buf + (i * 131072 - toff) + pp) = c_disk c (unat aoff + i * 131072 + skip toff i + pp)"
      by (rule R(7) [OF t, unfolded delivered_def fu [OF i], rule_format, OF _ pp]) simp
    have "s = i * 131072 + skip toff i + pp" using ge by (simp add: pp_def)
    then have st: "unat aoff + s = unat aoff + i * 131072 + skip toff i + pp" "a = buf + (i * 131072 - toff) + pp"
      using B(4) s(2) by linarith+
    have "umem w' a = m (unat aoff + s)" unfolding st using dv by (simp add: c)
    then show ?thesis using True s_def by (simp add: memcpy_def add.assoc)
  next
    case False
    have "a \<notin> fill_range c t" if t: "t \<in> set (c_ts c)" for t
    proof -
      have ti: "t - base < ?n" "t = base + (t - base)" using t by (auto simp: c)
      note B = skip_bounds [OF W ti(1)]
      have "(t - base) * 131072 + chunk_len tot (t - base) \<le> tot"
        using read_window_chunks [OF W] ti(1) by (simp add: chunk_len_def)
      then have "(t - base) * 131072 - toff + (chunk_len tot (t - base) - skip toff (t - base)) \<le> tot - toff"
        using B D(7) by linarith
      then have "fill_range c (base + (t - base)) \<subseteq> {buf..<buf + (tot - toff)}"
        unfolding fill_range_def fu [OF ti(1)] by auto
      then show ?thesis using False ti(2) by auto
    qed
    then have "umem w' a = umem w a" using R(10) [of a] by (simp add: c)
    then show ?thesis using False by (auto simp: memcpy_def)
  qed
qed

end
