(* ===== verification/Device_Run.thy ===== *)
theory Device_Run
  imports Nvme_Device
begin

section \<open>What the operations of NVMEDevice achieve\<close>

text \<open>
  The public operations from the call to the return: the request is split, every task gets
  buffers from the pool, goes through SPDK and the device and is completed by the callback. Each
  theorem holds for any library and device that keep \<open>spdk_contract\<close>, and each says that the
  operation returns: with enough fuel the result is \<open>Ok\<close>, and more fuel gives the same.
\<close>

lemma submit_reads:
  assumes tq: "thread_queue e w = Ok w1" and idle: "queue_idle bs w1"
    and env: "spdk_contract env reg bs (unat (max_queue_depth w1)) disk inflight idleness" "inflight (qp w) = []"
    and W: "read_window reg bs (unat aoff) alen toff tot" and n: "n = nchunks alen" and g: "g = rtask aoff alen toff tot buf rc p"
    and w: "ioc_clear (ioc w)" and kind: "rc = 0 \<longleftrightarrow> \<not> sy" "p \<noteq> None \<Longrightarrow> sy" "\<And>q. p = Some q \<Longrightarrow> q < base"
    and pr: "\<And>q. p = Some q \<Longrightarrow> primary_at n (tasks w q)"
  shows "\<exists>n0 w'. (\<forall>k \<ge> n0. aio_submit k e env (built g base n w) = Ok w')
    \<and> umem w' = memcpy buf (tot - toff) (disk (qp w)) (unat aoff + toff) (umem w) \<and> disk (qp w') = disk (qp w)
    \<and> (\<forall>u. u \<notin> {base..<base + n} \<longrightarrow> p \<noteq> Some u \<longrightarrow> tasks w' u = tasks w u)
    \<and> (\<forall>u \<in> {base..<base + n}. if sy \<and> p = None
         then (\<exists>x. tasks w' u = Some x \<and> return_code x = 0 \<and> nseg (io_request x) = 0 \<and> primary x = None) else tasks w' u = None)
    \<and> (\<forall>q. p = Some q \<longrightarrow> primary_at 0 (tasks w' q))
    \<and> callbacks w' = callbacks w @ (case ioc_priv (ioc w) of None \<Rightarrow> [] | Some v \<Rightarrow> if sy then [] else [v])
    \<and> ioc w' = (ioc w)\<lparr>notified := notified (ioc w) + (if \<not> sy \<and> ioc_priv (ioc w) = None then 1 else 0)\<rparr>
    \<and> queue_idle bs w' \<and> mset (data_buf_list w') = mset (data_buf_list w1) \<and> inflight (qp w') = [] \<and> next_task w' = base + n
    \<and> max_queue_depth w' = max_queue_depth w1"
proof -
  define w5 where "w5 = start_state g base n w w1"
  define ts where "ts = [base..<base + n]"
  define c where "c = run_of w5 ts (disk (qp w)) reg bs p sy"
  have pos: "0 < n" using nchunks_pos [of alen] read_windowD(7,8) [OF W] by (simp add: n)
  have bt: "tasks w5 (base + i) = Some ((g i)\<lparr>t_next := if Suc i < n then Some (base + Suc i) else None\<rparr>)" if "i < n" for i
    unfolding w5_def by (rule start_state_task [OF that])
  have u5: "umem w5 = umem w" "qp w5 = qp w" using thread_queue_keeps(4,6) [OF tq] by (simp_all add: w5_def start_state_def)
  have idle5: "queue_idle bs w5" using idle by (simp add: w5_def start_state_def queue_idle_def)
  have ok: "cfg_ok c" "read_ok c"
    using read_cfg_ok [OF W idle5 bt [unfolded g n] kind, of "disk (qp w)"] by (simp_all add: c_def ts_def n)
  have out: "p \<noteq> Some u" if "u \<in> set ts" for u using kind(3) [of u] that by (auto simp: ts_def)
  have p5: "primary_at (length ts) (tasks w5 q)" if q: "p = Some q" for q
    using pr [OF q] kind(3) [OF q] start_state_other [of q base n g w w1] by (simp add: w5_def ts_def)
  have "read_state c (set ts) w5 (disk (qp w))"
    unfolding c_def by (rule run_of_read [OF _ _ out p5]) (use pos in \<open>simp_all add: ts_def\<close>)
  then have M: "read_state c {base..<base + n} w5 (disk (qp w))" by (simp add: ts_def)
  from rd.built_submit [OF tq idle env pos w c_def [unfolded w5_def ts_def] ok M [unfolded w5_def]] obtain n0 w' where
    R: "\<forall>k \<ge> n0. aio_submit k e env (built g base n w) = Ok w'" "read_state c {} w' (disk (qp w'))" "inflight (qp w') = []"
      "queue_idle bs w'" "mset (data_buf_list w') = mset (data_buf_list w1)" "next_task w' = base + n"
      "ioc_kept c w' \<longrightarrow> ioc w' = (ioc w)\<lparr>notified := notified (ioc w')\<rparr>"
      "\<forall>b. told c b w' \<longrightarrow> callbacks w' = callbacks w @ (case ioc_priv (ioc w) of None \<Rightarrow> [] | Some p \<Rightarrow> if b then [p] else [])
           \<and> notified (ioc w') = notified (ioc w) + (if b \<and> ioc_priv (ioc w) = None then 1 else 0)"
      "max_queue_depth w' = max_queue_depth w1"
    by blast
  note S = read_stateD [OF R(2)]
  have dk: "disk (qp w') = disk (qp w)" using S(3) by (simp add: c_def)
  have um: "umem w' = memcpy buf (tot - toff) (disk (qp w)) (unat aoff + toff) (umem w)"
    using read_delivers [OF W bt [unfolded g n] c_def [unfolded ts_def n] R(2) [unfolded dk]] by (simp add: u5)
  have io: "ioc w' = (ioc w)\<lparr>notified := notified (ioc w')\<rparr>" using R(7) S(4) by blast
  have "told c (\<not> sy) w'" using S(5) by (simp add: c_def)
  note tl = R(8) [rule_format, OF this]
  have tk: "tasks w' u = tasks w u" if "u \<notin> {base..<base + n}" "p \<noteq> Some u" for u
    using S(6) [of u] that start_state_other [OF that(1), of g w w1] by (simp add: c_def ts_def w5_def)
  have left: "if sy \<and> p = None then (\<exists>x. tasks w' u = Some x \<and> return_code x = 0 \<and> nseg (io_request x) = 0 \<and> primary x = None)
      else tasks w' u = None" if "u \<in> {base..<base + n}" for u
    using S(8) [of u] that by (simp add: c_def ts_def task_left_def split: if_splits)
  have prm: "primary_at 0 (tasks w' q)" if "p = Some q" for q using S(9) [of q] that by (simp add: c_def)
  have cb: "callbacks w' = callbacks w @ (case ioc_priv (ioc w) of None \<Rightarrow> [] | Some v \<Rightarrow> if sy then [] else [v])"
    using tl by (simp split: option.splits)
  show ?thesis
    using R(1,3,4,5,6,9) dk um io tk left prm cb tl by (intro exI [of _ n0] exI [of _ w']) simp
qed

subsection \<open>The hypotheses\<close>

text \<open>
  The thread's queue \<open>w1\<close>, constructed at this call or before, is idle and the library keeps its
  contract in the region \<open>reg\<close> of the disk, in which the requests stay; task addresses from \<open>next_task\<close> on are unused.
\<close>

definition queue_ready ::
    "queue_env \<Rightarrow> 'q queue \<Rightarrow> 'q queue \<Rightarrow> nat set \<Rightarrow> nat \<Rightarrow> 'q spdk \<Rightarrow> ('q \<Rightarrow> nat \<Rightarrow> u8) \<Rightarrow> ('q \<Rightarrow> (task_id \<times> nvme_cmd) list) \<Rightarrow> ('q \<Rightarrow> nat) \<Rightarrow> bool" where
  "queue_ready e w w1 reg bs env disk inflight idleness \<longleftrightarrow> thread_queue e w = Ok w1 \<and> queue_idle bs w1
     \<and> spdk_contract env reg bs (unat (max_queue_depth w1)) disk inflight idleness \<and> inflight (qp w) = []
     \<and> (\<forall>t. next_task w \<le> t \<longrightarrow> tasks w t = None)"

definition request_ok :: "nat set \<Rightarrow> nat \<Rightarrow> 'd block_device_scheme \<Rightarrow> u64 \<Rightarrow> u64 \<Rightarrow> bool" where
  "request_ok reg bs d off len \<longleftrightarrow> unat (dev_block_size d) = bs \<and> bs dvd 131072 \<and> io_in_range off len (block_device.truncate d)
     \<and> {unat off..<unat off + unat len} \<subseteq> reg"

text \<open>What every operation leaves alone.\<close>

definition quiet :: "nat \<Rightarrow> ('q \<Rightarrow> (task_id \<times> nvme_cmd) list) \<Rightarrow> 'q queue \<Rightarrow> 'q queue \<Rightarrow> 'q queue \<Rightarrow> bool" where
  "quiet bs inflight w w1 w' \<longleftrightarrow> tasks w' = tasks w \<and> queue_idle bs w' \<and> mset (data_buf_list w') = mset (data_buf_list w1)
     \<and> inflight (qp w') = [] \<and> max_queue_depth w' = max_queue_depth w1 \<and> next_task w \<le> next_task w'"

lemma truncate_simps [simp]:
  "dev_size (block_device.truncate d) = dev_size d" "dev_block_size (block_device.truncate d) = dev_block_size d"
  by (simp_all add: block_device.defs)

lemma request_okD:
  assumes "request_ok reg bs d off len"
  shows "0 < bs" "bs dvd 131072" "bs dvd unat off" "bs dvd unat len" "unat off + unat len < 2 ^ 64" "0 < unat len"
    "is_valid_io off len (block_device.truncate d) = Ok True" "unat off + unat len \<le> unat (dev_size d)"
    "{unat off..<unat off + unat len} \<subseteq> reg"
proof -
  show "{unat off..<unat off + unat len} \<subseteq> reg" using assms by (simp add: request_ok_def)
  have r: "unat (dev_block_size d) = bs" "bs dvd 131072" "io_in_range off len (block_device.truncate d)" using assms by (simp_all add: request_ok_def)
  then show "bs dvd 131072" "bs dvd unat off" "bs dvd unat len" "0 < unat len" "unat off + unat len \<le> unat (dev_size d)"
    by (simp_all add: io_in_range_def)
  show b: "0 < bs" using r(2) by (cases bs) simp_all
  show s: "unat off + unat len < 2 ^ 64"
    using r(3) unsigned_less [of "dev_size d", where ?'a = nat] by (simp add: io_in_range_def)
  have "dev_block_size d \<noteq> 0" using b r(1) by auto
  moreover have "unat (off + len) = unat off + unat len" by (rule in_range_no_wrap [OF r(3)])
  ultimately show "is_valid_io off len (block_device.truncate d) = Ok True"
    using r(3) by (auto simp: is_valid_io_def dvd_word io_in_range_def word_less_nat_alt word_le_nat_alt)
qed

lemma queue_readyD:
  assumes "queue_ready e w w1 reg bs env disk inflight idleness"
  shows "thread_queue e w = Ok w1" "queue_idle bs w1" "spdk_contract env reg bs (unat (max_queue_depth w1)) disk inflight idleness"
    "inflight (qp w) = []" "next_task w \<le> t \<Longrightarrow> tasks w t = None"
  using assms unfolding queue_ready_def by blast+

lemma new_ioc_clear [simp]: "ioc_clear (new_ioc p b)" "ioc_priv (new_ioc p b) = p"
  by (simp_all add: ioc_clear_def new_ioc_def)

lemma queue_ready_upd:
  assumes "queue_ready e w w1 reg bs env disk inflight idleness"
  shows "thread_queue e (upd h k c w) = Ok (upd h k c w1)" "queue_idle bs (upd h k c w1)"
    "spdk_contract env reg bs (unat (max_queue_depth (upd h k c w1))) disk inflight idleness" "inflight (qp (upd h k c w)) = []"
  using queue_readyD [OF assms] thread_queue_upd by (simp_all add: queue_idle_def)

subsection \<open>Writing\<close>

lemma with_ioc_upd: "with_ioc c f w = rbind (f (upd (tasks w) (next_task w) c w)) (\<lambda>(r, w'). Ok (r, w'\<lparr>ioc := ioc w\<rparr>))"
proof -
  have "w\<lparr>ioc := c\<rparr> = upd (tasks w) (next_task w) c w" by (cases w) (simp add: upd_def)
  then show ?thesis unfolding with_ioc_def by (simp only:)
qed

lemma write_run:
  fixes w :: "'q queue"
  assumes q: "queue_ready e w w1 reg bs env disk inflight idleness" and r: "request_ok reg bs d off len"
  shows "\<exists>n0 w'. (\<forall>n \<ge> n0. nvme_write n e env d off len buf w = Ok (0, w'))
    \<and> disk (qp w') = memcpy (unat off) (unat len) (umem w) buf (disk (qp w)) \<and> umem w' = umem w
    \<and> callbacks w' = callbacks w \<and> ioc w' = ioc w \<and> quiet bs inflight w w1 w'"
proof -
  let ?w = "upd (tasks w) (next_task w) (new_ioc None False) w"
  note U = queue_ready_upd [OF q, of "tasks w" "next_task w" "new_ioc None False"] and R = request_okD [OF r]
  have c: "ioc_clear (ioc ?w)" "\<And>t. next_task ?w \<le> t \<Longrightarrow> tasks ?w t = None" using queue_readyD(5) [OF q] by simp_all
  from submit_writes [OF U(1-4) R(1-6,9) c, of buf] obtain n0 w' where
    W: "\<forall>n \<ge> n0. rbind (write_split off len buf ?w) (aio_submit n e env) = Ok w'"
      "disk (qp w') = memcpy (unat off) (unat len) (umem ?w) buf (disk (qp ?w))" "umem w' = umem ?w" "tasks w' = tasks ?w"
      "callbacks w' = callbacks ?w @ (case ioc_priv (ioc ?w) of None \<Rightarrow> [] | Some p \<Rightarrow> [p])"
      "queue_idle bs w'" "mset (data_buf_list w') = mset (data_buf_list w1)" "inflight (qp w') = []"
      "max_queue_depth w' = max_queue_depth w1" "next_task w \<le> next_task w'"
    by auto
  have "nvme_write n e env d off len buf w = Ok (0, w'\<lparr>ioc := ioc w\<rparr>)" if n: "n0 \<le> n" for n
  proof -
    obtain b :: "'q queue" where "write_split off len buf ?w = Ok b" "aio_submit n e env b = Ok w'"
      using W(1) [rule_format, OF n] by auto
    then show ?thesis by (simp add: nvme_write_def with_ioc_upd R(7))
  qed
  then show ?thesis
    using W(2-10) by (intro exI [of _ n0] exI [of _ "w'\<lparr>ioc := ioc w\<rparr>"]) (simp add: quiet_def queue_idle_def)
qed

subsection \<open>Reading\<close>

text \<open>
  The chain that \<open>make_read_tasks\<close> leaves for a synchronous read whose task is \<open>t\<close>: the task itself
  when the read fits one transfer, and otherwise secondary tasks that \<open>t\<close> counts.
\<close>

definition stack_task :: "u64 \<Rightarrow> u64 \<Rightarrow> task" where
  "stack_task aoff alen = \<lparr>command = READ_COMMAND, t_offset = aoff, t_len = alen, t_buf = 0, fill_cb = None, t_next = None,
     return_code = 1, primary = None, io_request = new_io_request, t_queue = False, t_ref = 0\<rparr>"

definition stack_upd :: "task_id \<Rightarrow> task \<Rightarrow> 'q queue \<Rightarrow> 'q queue" where
  "stack_upd t y w = upd ((tasks w)(t \<mapsto> y)) (Suc t) (new_ioc None False) w"

lemma make_read_split:
  fixes w :: "'q queue"
  assumes W: "read_window reg bs (unat aoff) (unat alen) toff tot" and t: "next_task w = t" and big: "131072 < unat alen"
    and a: "off - aoff = of_nat toff" "unat len = tot - toff" and n: "nchunks (unat alen) \<le> n"
  shows "make_read_tasks n aoff buf alen (Some t) off len (stack_upd t (stack_task aoff alen) w)
    = Ok (built (rtask aoff (unat alen) toff tot buf 1 (Some t)) (Suc t) (nchunks (unat alen))
        (stack_upd t ((stack_task aoff alen)\<lparr>t_ref := int (nchunks (unat alen))\<rparr>) w))"
proof -
  let ?y = "stack_task aoff alen" and ?g = "rtask aoff (unat alen) toff tot buf 1 (Some t)"
  let ?W = "stack_upd t ?y w"
  have b: "bump (Some t) ?y j ?W = stack_upd t (?y\<lparr>t_ref := int j\<rparr>) w" for j
    by (cases w) (simp add: bump_def put_task_def stack_upd_def upd_def)
  have y0: "?y\<lparr>t_ref := int 0\<rparr> = ?y" by (simp add: stack_task_def)
  have W0: "built ?g (Suc t) 0 (bump (Some t) ?y 0 ?W) = ?W"
    unfolding b y0 by (rule built_0) (simp_all add: stack_upd_def new_ioc_def)
  have "make_read_loop n (aoff + of_nat (0 * 131072)) (aoff + alen) alen (Some t) (off - aoff) len buf
      (built ?g (Suc t) 0 (bump (Some t) ?y 0 ?W))
      = Ok (built ?g (Suc t) (nchunks (unat alen)) (bump (Some t) ?y (nchunks (unat alen)) ?W))"
  proof (rule make_read_loop_Ok [OF W])
    show "next_task ?W = Suc t" by (simp add: stack_upd_def)
    show "?g = rtask aoff (unat alen) toff tot buf (case Some t of None \<Rightarrow> 0 | Some q \<Rightarrow> return_code ?y) (Some t)"
      by (simp add: stack_task_def)
    have "len = of_nat (tot - toff)" unfolding a(2) [symmetric] by simp
    then show "0 < nchunks (unat alen) \<longrightarrow> off - aoff = of_nat (skip toff 0) \<and> len = of_nat (wanted toff tot 0)
        \<and> buf = buf + (0 * 131072 - toff)"
      using a(1) by (simp add: skip_def wanted_def)
  qed (use n big in simp_all)
  from this [unfolded W0, unfolded b] show ?thesis by (simp add: make_read_tasks_def)
qed

lemma make_read_single:
  fixes w :: "'q queue"
  assumes W: "read_window reg bs (unat aoff) (unat alen) toff tot" and t: "next_task w = t" and small: "unat alen \<le> 131072"
    and a: "off - aoff = of_nat toff" "unat len = tot - toff" and n: "0 < n"
  shows "make_read_tasks n aoff buf alen (Some t) off len (stack_upd t (stack_task aoff alen) w)
    = Ok (built (rtask aoff (unat alen) toff tot buf 1 None) t 1 (upd (tasks w) t (new_ioc None False) w))"
proof -
  let ?g = "rtask aoff (unat alen) toff tot buf 1 None" and ?w = "upd (tasks w) t (new_ioc None False) w"
  note D = read_windowD [OF W]
  have pos: "0 < unat alen" using D(7,8) by simp
  have one: "nchunks (unat alen) = 1"
    using nchunks_less [of 1 "unat alen"] nchunks_pos [OF pos] small by linarith
  have len: "len = of_nat (tot - toff)" unfolding a(2) [symmetric] by simp
  have cl: "chunk_len (unat alen) 0 = unat alen" "chunk_len tot 0 = tot" using small D(8) by (simp_all add: chunk_len_def)
  have st: "aoff < aoff + alen" "min (aoff + alen - aoff) split_size = alen"
    using read_start [OF W, of 0] one cl by (simp_all del: add_diff_cancel_left')
  have en: "\<not> aoff + split_size < aoff + alen"
  proof -
    have "unat (aoff + split_size) = unat aoff + 131072" "unat (aoff + alen) = unat aoff + unat alen"
      using D(10) unat_add_lem [of aoff split_size] unat_add_lem [of aoff alen] pos by simp_all
    then show ?thesis using small by (simp add: word_less_nat_alt)
  qed
  have tl: "min len (alen - (off - aoff)) = of_nat (tot - toff)"
  proof -
    have "alen - of_nat toff = (of_nat (unat alen - toff) :: u64)" using D(7,8) of_nat_minus [of toff "unat alen"] by simp
    then show ?thesis
      unfolding a(1) len using min_of_nat [of "tot - toff" "unat alen - toff"] D(8,10) by (simp add: min_def)
  qed
  have gx: "?g 0 = (stack_task aoff alen)\<lparr>fill_cb := Some \<lparr>fill_buf = buf, fill_off = off - aoff, fill_len = of_nat (tot - toff)\<rparr>\<rparr>"
    by (simp add: rtask_def stack_task_def skip_def cl a(1))
  have b0: "built ?g t 0 ?w = ?w" by (rule built_0) (simp_all add: new_ioc_def)
  have ap: "ioc_append_task t (put_task t (?g 0) (?w\<lparr>next_task := Suc t\<rparr>)) = Ok (built ?g t 1 ?w)"
    using built_Suc [of "?g 0" ?g 0 t ?w] by (simp add: b0 rtask_def)
  have sw: "put_task t (?g 0) (stack_upd t (stack_task aoff alen) w) = put_task t (?g 0) (?w\<lparr>next_task := Suc t\<rparr>)"
    by (cases w) (simp add: put_task_def stack_upd_def upd_def)
  have dr: "deref t (stack_upd t (stack_task aoff alen) w) = Ok (stack_task aoff alen)"
    by (simp add: deref_def stack_upd_def)
  have c: "alen \<le> split_size" using small by (simp add: word_le_nat_alt)
  obtain m where m: "n = Suc m" using n by (cases n) simp_all
  have fin: "make_read_loop m (aoff + split_size) (aoff + alen) alen (Some t) 0 r b v = Ok v" for r b and v :: "'q queue"
    using en by (cases m) simp_all
  have pl: "put_task t ((stack_task aoff alen)\<lparr>fill_cb := Some \<lparr>fill_buf = buf, fill_off = off - aoff,
      fill_len = of_nat (tot - toff)\<rparr>\<rparr>) (stack_upd t (stack_task aoff alen) w) = put_task t (?g 0) (?w\<lparr>next_task := Suc t\<rparr>)"
    unfolding gx [symmetric] by (rule sw)
  show ?thesis
    unfolding make_read_tasks_def m make_read_loop.simps
    using st(1) c by (simp only: Let_def st(2) tl if_True option.simps simp_thms not_False_eq_True option.sel rbind_Inr prod.case dr pl ap fin)
qed

text \<open>The chain submitted: the bytes are in the caller's memory and the task says 0.\<close>

lemma stack_read:
  fixes w :: "'q queue"
  assumes q: "queue_ready e w w1 reg bs env disk inflight idleness" and W: "read_window reg bs (unat aoff) (unat alen) toff tot"
    and t: "next_task w = t" and a: "off - aoff = of_nat toff" "unat len = tot - toff"
  shows "\<exists>n0 w' x. (\<forall>n \<ge> n0. rbind (make_read_tasks n aoff buf alen (Some t) off len (stack_upd t (stack_task aoff alen) w))
        (aio_submit n e env) = Ok w')
    \<and> tasks w' t = Some x \<and> return_code x = 0 \<and> nseg (io_request x) = 0 \<and> primary x = None
    \<and> (\<forall>u. u \<noteq> t \<longrightarrow> tasks w' u = tasks w u)
    \<and> umem w' = memcpy buf (tot - toff) (disk (qp w)) (unat aoff + toff) (umem w) \<and> disk (qp w') = disk (qp w)
    \<and> callbacks w' = callbacks w \<and> queue_idle bs w' \<and> mset (data_buf_list w') = mset (data_buf_list w1)
    \<and> inflight (qp w') = [] \<and> max_queue_depth w' = max_queue_depth w1 \<and> next_task w \<le> next_task w'"
proof (cases "131072 < unat alen")
  case True
  let ?n = "nchunks (unat alen)" and ?g = "rtask aoff (unat alen) toff tot buf 1 (Some t)"
  let ?w = "stack_upd t ((stack_task aoff alen)\<lparr>t_ref := int (nchunks (unat alen))\<rparr>) w"
  note U = queue_ready_upd [OF q, of "(tasks w)(t \<mapsto> (stack_task aoff alen)\<lparr>t_ref := int (nchunks (unat alen))\<rparr>)" "Suc t" "new_ioc None False",
    folded stack_upd_def]
  have pos: "0 < ?n" by (rule nchunks_pos) (use True in simp)
  have pr: "primary_at ?n (tasks ?w t)" using pos by (simp add: primary_at_def stack_upd_def stack_task_def new_io_request_def)
  have i: "ioc_clear (ioc ?w)" by (simp add: stack_upd_def)
  have kind: "1 = (0 :: int) \<longleftrightarrow> \<not> True" "Some t \<noteq> None \<Longrightarrow> True" "\<And>q. Some t = Some q \<Longrightarrow> q < Suc t" by simp_all
  have pr': "\<And>q. Some t = Some q \<Longrightarrow> primary_at ?n (tasks ?w q)" using pr by simp
  from submit_reads [where p = "Some t" and sy = True and rc = 1, OF U W refl refl i kind pr', where buf = buf] obtain n0 w' where
    R: "\<forall>k \<ge> n0. aio_submit k e env (built ?g (Suc t) ?n ?w) = Ok w'"
      "umem w' = memcpy buf (tot - toff) (disk (qp ?w)) (unat aoff + toff) (umem ?w)" "disk (qp w') = disk (qp ?w)"
      "\<forall>u. u \<notin> {Suc t..<Suc t + ?n} \<longrightarrow> Some t \<noteq> Some u \<longrightarrow> tasks w' u = tasks ?w u"
      "\<forall>u \<in> {Suc t..<Suc t + ?n}. tasks w' u = None" "primary_at 0 (tasks w' t)" "callbacks w' = callbacks ?w"
      "queue_idle bs w'" "mset (data_buf_list w') = mset (data_buf_list (stack_upd t ((stack_task aoff alen)\<lparr>t_ref := int ?n\<rparr>) w1))"
      "inflight (qp w') = []" "max_queue_depth w' = max_queue_depth w1" "next_task w' = Suc t + ?n"
    by (auto simp: stack_upd_def)
  obtain x where x: "tasks w' t = Some x" "return_code x = 0" "nseg (io_request x) = 0" "primary x = None"
    using R(6) by (auto simp: primary_at_def)
  have tk: "tasks w' u = tasks w u" if u: "u \<noteq> t" for u
  proof (cases "u \<in> {Suc t..<Suc t + ?n}")
    case True
    then show ?thesis using R(5) queue_readyD(5) [OF q, of u] t by simp
  next
    case False
    then show ?thesis using R(4) u by (simp add: stack_upd_def)
  qed
  have "rbind (make_read_tasks n aoff buf alen (Some t) off len (stack_upd t (stack_task aoff alen) w)) (aio_submit n e env) = Ok w'"
    if "max n0 ?n \<le> n" for n
    using R(1) that by (simp add: make_read_split [OF W t True a])
  then show ?thesis
    using R(2,3,7-12) x tk t by (intro exI [of _ "max n0 ?n"] exI [of _ w'] exI [of _ x]) (simp add: stack_upd_def)
next
  case False
  let ?g = "rtask aoff (unat alen) toff tot buf 1 None" and ?w = "upd (tasks w) t (new_ioc None False) w"
  note U = queue_ready_upd [OF q, of "tasks w" t "new_ioc None False"]
  have pos: "0 < unat alen" using read_windowD(7,8) [OF W] by simp
  have one: "1 = nchunks (unat alen)"
    using nchunks_less [of 1 "unat alen"] nchunks_pos [OF pos] False by linarith
  have kind: "1 = (0 :: int) \<longleftrightarrow> \<not> True" "(None :: nat option) \<noteq> None \<Longrightarrow> True" "\<And>q. None = Some q \<Longrightarrow> q < t"
      "\<And>q. None = Some q \<Longrightarrow> primary_at 1 (tasks ?w q)"
    by simp_all
  have i: "ioc_clear (ioc ?w)" by simp
  from submit_reads [where p = None and sy = True and rc = 1, OF U W one refl i kind(1-4), where buf = buf] obtain n0 w' where
    R: "\<forall>k \<ge> n0. aio_submit k e env (built ?g t 1 ?w) = Ok w'"
      "umem w' = memcpy buf (tot - toff) (disk (qp ?w)) (unat aoff + toff) (umem ?w)" "disk (qp w') = disk (qp ?w)"
      "\<forall>u. u \<notin> {t..<t + 1} \<longrightarrow> tasks w' u = tasks ?w u"
      "\<forall>u \<in> {t..<t + 1}. \<exists>x. tasks w' u = Some x \<and> return_code x = 0 \<and> nseg (io_request x) = 0 \<and> primary x = None"
      "callbacks w' = callbacks ?w" "queue_idle bs w'" "mset (data_buf_list w') = mset (data_buf_list w1)" "inflight (qp w') = []"
      "max_queue_depth w' = max_queue_depth w1" "next_task w' = t + 1"
    by (auto simp del: One_nat_def)
  obtain x where x: "tasks w' t = Some x" "return_code x = 0" "nseg (io_request x) = 0" "primary x = None"
    using R(5) by auto
  have tk: "tasks w' u = tasks w u" if u: "u \<noteq> t" for u using R(4) u by simp
  have "rbind (make_read_tasks n aoff buf alen (Some t) off len (stack_upd t (stack_task aoff alen) w)) (aio_submit n e env) = Ok w'"
    if "max n0 1 \<le> n" for n
    using R(1) that make_read_single [OF W t _ a, of n buf] False by (simp del: One_nat_def)
  then show ?thesis
    using R(2,3,6-11) x tk t by (intro exI [of _ "max n0 1"] exI [of _ w'] exI [of _ x]) simp
qed

lemma sync_read_Ok:
  fixes w :: "'q queue"
  assumes q: "queue_ready e w w1 reg bs env disk inflight idleness" and W: "read_window reg bs (unat aoff) (unat alen) toff tot"
    and a: "off - aoff = of_nat toff" "unat len = tot - toff"
  shows "\<exists>n0 w'. (\<forall>n \<ge> n0. sync_read n e env aoff buf alen off len w = Ok (0, w'))
    \<and> umem w' = memcpy buf (unat len) (disk (qp w)) (unat aoff + toff) (umem w) \<and> disk (qp w') = disk (qp w)
    \<and> callbacks w' = callbacks w \<and> ioc w' = ioc w \<and> quiet bs inflight w w1 w'"
proof -
  define t where "t = next_task w"
  let ?W = "stack_upd t (stack_task aoff alen) w"
  from stack_read [OF q W t_def [symmetric] a, of buf] obtain n0 w' x where
    R: "\<forall>n \<ge> n0. rbind (make_read_tasks n aoff buf alen (Some t) off len ?W) (aio_submit n e env) = Ok w'"
      "tasks w' t = Some x" "return_code x = 0" "nseg (io_request x) = 0" "primary x = None"
      "\<forall>u. u \<noteq> t \<longrightarrow> tasks w' u = tasks w u"
      "umem w' = memcpy buf (tot - toff) (disk (qp w)) (unat aoff + toff) (umem w)" "disk (qp w') = disk (qp w)"
      "callbacks w' = callbacks w" "queue_idle bs w'" "mset (data_buf_list w') = mset (data_buf_list w1)" "inflight (qp w') = []"
      "max_queue_depth w' = max_queue_depth w1" "next_task w \<le> next_task w'"
    by blast
  define w2 where "w2 = w'\<lparr>ioc := ioc w, tasks := (tasks w')(t := None)\<rparr>"
  have tk: "(tasks w')(t := None) = tasks w"
    using R(6) queue_readyD(5) [OF q, of t] by (auto simp: fun_eq_iff t_def)
  have nw: "new_task READ_COMMAND aoff alen 1 None w = Ok (t, upd ((tasks w)(t \<mapsto> stack_task aoff alen)) (Suc t) (ioc w) w)"
    by (cases w) (simp add: new_task_def Let_def put_task_def upd_def stack_task_def t_def)
  have st: "upd h k c (upd h' k' c' w) = upd h k c w" for h k c h' k' c' by (cases w) (simp add: upd_def)
  have dl: "delete_task t (w'\<lparr>ioc := ioc w\<rparr>) = Ok w2"
    using R(2,4,5) by (simp add: delete_task_def deref_def w2_def)
  have dr: "deref t w' = Ok x" using R(2) by (simp add: deref_def)
  have "sync_read n e env aoff buf alen off len w = Ok (0, w2)" if n: "n0 \<le> n" for n
  proof -
    obtain b :: "'q queue" where b: "make_read_tasks n aoff buf alen (Some t) off len ?W = Ok b" "aio_submit n e env b = Ok w'"
      using R(1) n by auto
    show ?thesis
      using b R(3) dl dr by (simp add: sync_read_def nw with_ioc_upd st stack_upd_def)
  qed
  then show ?thesis
    using R(7-14) tk a(2) by (intro exI [of _ n0] exI [of _ w2]) (simp add: w2_def quiet_def queue_idle_def)
qed

text \<open>The blocks that every read asks of the device, beyond \<open>request_ok\<close>.\<close>

definition read_room :: "nat \<Rightarrow> 'd block_device_scheme \<Rightarrow> bool" where
  "read_room bs d \<longleftrightarrow> bs \<le> 8192 \<and> unat (dev_size d) + 131072 \<le> 2 ^ 64"

lemma read_run:
  fixes w :: "'q queue"
  assumes q: "queue_ready e w w1 reg bs env disk inflight idleness" and r: "request_ok reg bs d off len" and room: "read_room bs d"
  shows "\<exists>n0 w'. (\<forall>n \<ge> n0. nvme_read n e env d off len buf w = Ok (0, w'))
    \<and> umem w' = memcpy buf (unat len) (disk (qp w)) (unat off) (umem w) \<and> disk (qp w') = disk (qp w)
    \<and> callbacks w' = callbacks w \<and> ioc w' = ioc w \<and> quiet bs inflight w w1 w'"
proof -
  note R = request_okD [OF r]
  have W: "read_window reg bs (unat off) (unat len) 0 (unat len)"
    using R room by (simp add: read_window_def read_room_def)
  have "off - off = of_nat 0" "unat len = unat len - 0" by simp_all
  from sync_read_Ok [OF q W this, of buf] show ?thesis
    using R(7) by (simp add: nvme_read_def)
qed

definition random_ok :: "nat set \<Rightarrow> nat \<Rightarrow> 'd block_device_scheme \<Rightarrow> u64 \<Rightarrow> u64 \<Rightarrow> bool" where
  "random_ok reg bs d off len \<longleftrightarrow> unat (dev_block_size d) = bs \<and> pow2_align (dev_block_size d) \<and> bs dvd unat (dev_size d)
     \<and> 0 < unat len \<and> unat off + unat len \<le> unat (dev_size d)
     \<and> {unat off div bs * bs..<(unat off + unat len + bs - 1) div bs * bs} \<subseteq> reg"

lemma pow2_dvd_split:
  assumes "pow2_align a" "unat a \<le> 8192"
  shows "unat a dvd 131072"
proof -
  obtain k where k: "k < 64" "a = 2 ^ k" using assms(1) by (auto simp: pow2_align_def)
  then have u: "unat a = 2 ^ k" by (simp add: unat_pow2)
  then have "(2 :: nat) ^ k \<le> 2 ^ 13" using assms(2) by simp
  then have "k \<le> 13" by (rule power_le_imp_le_exp [rotated]) simp
  then have "k \<le> 17" by simp
  then have "(2 :: nat) ^ k dvd 2 ^ 17" by (rule le_imp_power_dvd)
  then show ?thesis by (simp add: u)
qed

lemma roundup_less: "pow2_align a \<Longrightarrow> unat (p2roundup x a) < unat x + unat a"
proof -
  assume "pow2_align a"
  then obtain k where k: "k < 64" "a = 2 ^ k" by (auto simp: pow2_align_def)
  then have u: "unat a = 2 ^ k" by (simp add: unat_pow2)
  have "unat (p2roundup x a) \<le> (unat x + 2 ^ k - 1) div 2 ^ k * 2 ^ k"
    using unat_p2roundup [of k x] k by simp
  also have "\<dots> \<le> unat x + 2 ^ k - 1" by simp
  also have "\<dots> < unat x + 2 ^ k" by simp
  finally show ?thesis by (simp add: u)
qed

lemma random_blocks:
  assumes "random_ok reg bs d off len" "unat off + unat len < 2 ^ 64"
  shows "{unat (p2align off (dev_block_size d))..<unat (p2roundup (off + len) (dev_block_size d))} \<subseteq> reg"
proof -
  have r: "unat (dev_block_size d) = bs" "{unat off div bs * bs..<(unat off + unat len + bs - 1) div bs * bs} \<subseteq> reg"
    using assms(1) by (simp_all add: random_ok_def)
  obtain k where k: "k < 64" "dev_block_size d = 2 ^ k" using assms(1) by (auto simp: random_ok_def pow2_align_def)
  then have b: "bs = 2 ^ k" using r(1) by (simp add: unat_pow2)
  have "unat (off + len) = unat off + unat len" using assms(2) unat_add_lem [of off len] by simp
  then have "unat (p2roundup (off + len) (dev_block_size d)) \<le> (unat off + unat len + bs - 1) div bs * bs"
    using unat_p2roundup [of k "off + len"] k by (simp add: b)
  moreover have "unat (p2align off (dev_block_size d)) = unat off div bs * bs" using unat_p2align [of off k] by (simp add: k(2) b)
  ultimately show ?thesis using r(2) by auto
qed

lemma random_window:
  assumes r: "random_ok reg bs d off len" and room: "read_room bs d"
    and al: "aoff = p2align off (dev_block_size d)" "alen = p2roundup (off + len) (dev_block_size d) - aoff"
  shows "read_window reg bs (unat aoff) (unat alen) (unat off - unat aoff) (unat off - unat aoff + unat len)"
    "off - aoff = of_nat (unat off - unat aoff)" "unat aoff + (unat off - unat aoff) = unat off"
proof -
  let ?b = "dev_block_size d" and ?s = "unat (dev_size d)"
  have b: "unat ?b = bs" "pow2_align ?b" "bs dvd ?s" "0 < unat len" "unat off + unat len \<le> ?s" "bs \<le> 8192" "?s + 131072 \<le> 2 ^ 64"
    using r room by (simp_all add: random_ok_def read_room_def)
  have s: "unat ?b dvd ?s" "?s < 2 ^ 64" using b(1,3,7) by simp_all
  note P = p2.window [OF b(2) s b(5,4)]
  have a: "unat aoff \<le> unat off" "unat off - unat aoff < bs" using P(1,2) by (simp_all add: al(1) b(1))
  let ?u = "unat (p2roundup (off + len) ?b)"
  have len: "unat alen = ?u - unat aoff"
    using P(5) unfolding al by (simp add: unat_sub word_le_nat_alt)
  have u: "unat off + unat len \<le> ?u" "?u \<le> ?s" "unat aoff < ?u" using P(3,4,5) by (simp_all add: al(1))
  have sum: "unat (off + len) = unat off + unat len" using b(5) s(2) unat_add_lem [of off len] by simp
  have lt: "?u < unat off + unat len + bs" using roundup_less [OF b(2), of "off + len"] by (simp add: sum b(1))
  have dv: "bs dvd unat aoff" "bs dvd unat alen"
    using p2.down_dvd [OF b(2), of off] P(6) by (simp_all add: al(1) len b(1))
  have pos: "0 < bs" using p2.ok_pos [OF b(2)] b(1) by simp
  have d: "bs dvd 131072" using pow2_dvd_split [OF b(2)] b(1,6) by simp
  have w: "unat off - unat aoff < unat off - unat aoff + unat len" "unat off - unat aoff + unat len \<le> unat alen"
      "unat alen < unat off - unat aoff + unat len + bs" "unat aoff + unat alen + 131072 \<le> 2 ^ 64"
    unfolding len using a u lt b(4,7) by linarith+
  have "unat aoff + unat alen = ?u" unfolding len using u(3) by simp
  then have rg: "{unat aoff..<unat aoff + unat alen} \<subseteq> reg"
    using random_blocks [OF r] b(5) s(2) by (simp add: al(1))
  show "read_window reg bs (unat aoff) (unat alen) (unat off - unat aoff) (unat off - unat aoff + unat len)"
    unfolding read_window_def using pos d b(6) dv a(2) w rg by simp
  show "off - aoff = of_nat (unat off - unat aoff)" using of_nat_minus [OF a(1)] by simp
  show "unat aoff + (unat off - unat aoff) = unat off" using a(1) by simp
qed

lemma read_random_run:
  fixes w :: "'q queue"
  assumes q: "queue_ready e w w1 reg bs env disk inflight idleness" and r: "random_ok reg bs d off len" and room: "read_room bs d"
  shows "\<exists>n0 w'. (\<forall>n \<ge> n0. nvme_read_random n e env d off len buf w = Ok (0, w'))
    \<and> umem w' = memcpy buf (unat len) (disk (qp w)) (unat off) (umem w) \<and> disk (qp w') = disk (qp w)
    \<and> callbacks w' = callbacks w \<and> ioc w' = ioc w \<and> quiet bs inflight w w1 w'"
proof -
  define aoff alen where "aoff = p2align off (dev_block_size d)" and "alen = p2roundup (off + len) (dev_block_size d) - aoff"
  note G = random_window [OF r room aoff_def alen_def]
  have g: "unat len = unat off - unat aoff + unat len - (unat off - unat aoff)" by simp
  have lim: "0 < unat len" "unat off + unat len \<le> unat (dev_size d)" using r by (simp_all add: random_ok_def)
  then have "unat off + unat len < 2 ^ 64" using unsigned_less [of "dev_size d", where ?'a = nat] by simp
  then have "unat (off + len) = unat off + unat len" using unat_add_lem [of off len] by simp
  then have c: "0 < len" "off < dev_size d" "off + len \<le> dev_size d"
    using lim by (auto simp: word_less_nat_alt word_le_nat_alt)
  from sync_read_Ok [OF q G(1,2) g, of buf] show ?thesis
    using c by (simp add: nvme_read_random_def Let_def aoff_def [symmetric] alen_def [symmetric] G(3))
qed

end
