(* ===== verification/Device_Spec.thy ===== *)
theory Device_Spec
  imports Device_Run
begin

section \<open>NVMEDevice against a plain array of bytes\<close>

text \<open>
  The abstract device is an array of bytes beside the caller's memory: a write copies from the one
  to the other, a read back. Any sequence of operations of \<open>NVMEDevice\<close> refines it, and leaves a
  queue that is ready for more; an asynchronous operation is done when \<open>aio_submit\<close> returns, and
  has then told its context once, by one wake-up or one callback.
\<close>

lemma quiet_ready:
  assumes "queue_ready e w w1 reg bs env disk inflight idleness" "quiet bs inflight w w1 w'"
  shows "queue_ready e w' w' reg bs env disk inflight idleness"
proof -
  have q: "tasks w' = tasks w" "queue_idle bs w'" "inflight (qp w') = []" "max_queue_depth w' = max_queue_depth w1"
      "next_task w \<le> next_task w'"
    using assms(2) by (simp_all add: quiet_def)
  have i: "q_init w'" using q(2) by (simp add: queue_idle_def)
  have "tasks w' t = None" if "next_task w' \<le> t" for t using queue_readyD(5) [OF assms(1), of t] q(1,5) that by simp
  then show ?thesis
    using q i queue_readyD(3) [OF assms(1)] by (simp add: queue_ready_def thread_queue_def)
qed

subsection \<open>The first use of a thread\<close>

lemma alloc_pool_Ok: "(\<And>j. i \<le> j \<Longrightarrow> j < i + n \<Longrightarrow> z j \<noteq> None) \<Longrightarrow> \<exists>w'. alloc_pool z n i w = Ok w'"
proof (induction n arbitrary: i w)
  case (Suc n)
  obtain b where "z i = Some b" using Suc.prems [of i] by auto
  then show ?case using Suc.IH [of "Suc i"] Suc.prems by auto
qed simp

text \<open>What SPDK and the driver give the constructor of a queue: memory, a queue pair, two places.\<close>

definition env_ok :: "nat \<Rightarrow> queue_env \<Rightarrow> bool" where
  "env_ok bs e \<longleftrightarrow> env_qpair e \<and> (\<forall>i < 1024. env_zmalloc e i \<noteq> None) \<and> inj_on (env_zmalloc e) {..<1024}
     \<and> 1 < unat (env_queue_size e) \<and> env_bs e = of_nat bs"

definition first_use :: "'q queue \<Rightarrow> ('q \<Rightarrow> (task_id \<times> nvme_cmd) list) \<Rightarrow> bool" where
  "first_use w inflight \<longleftrightarrow> \<not> q_init w \<and> inflight (qp w) = [] \<and> (\<forall>t. next_task w \<le> t \<longrightarrow> tasks w t = None)"

lemma first_use_queue:
  fixes w :: "'q queue"
  assumes e: "env_ok bs e" and w: "first_use w inflight"
  shows "\<exists>w1. thread_queue e w = Ok w1 \<and> queue_idle bs w1 \<and> length (data_buf_list w1) = 1024
    \<and> max_queue_depth w1 = env_queue_size e - 1 \<and> data_buf_list w1 = rev (map (\<lambda>j. the (env_zmalloc e j)) [0..<1024])"
proof -
  have E: "env_qpair e" "\<And>i. i < 1024 \<Longrightarrow> env_zmalloc e i \<noteq> None" "inj_on (env_zmalloc e) {..<1024}"
      "1 < unat (env_queue_size e)" "env_bs e = of_nat bs" "\<not> q_init w"
    using e w by (simp_all add: env_ok_def first_use_def)
  let ?w = "w\<lparr>q_init := True, q_block_size := env_bs e, max_queue_depth := env_queue_size e - 1, current_queue_depth := 0,
         data_buf_list := []\<rparr>"
  have n: "unat data_buffer_default_num = 1024" by (simp add: data_buffer_default_num_def)
  obtain w1 where a: "alloc_pool (env_zmalloc e) 1024 0 ?w = Ok w1"
    using alloc_pool_Ok [of 0 1024 "env_zmalloc e" ?w] E(2) by auto
  then have tq: "thread_queue e w = Ok w1"
    using E(1,6) by (simp add: thread_queue_def queue_construct_def n)
  moreover have "max_queue_depth w1 = env_queue_size e - 1" using alloc_pool_keeps [OF a] by simp
  moreover note fresh_queue_idle [OF E(6) tq E(3-5)]
  ultimately show ?thesis by auto
qed

lemma first_use_ready:
  fixes w :: "'q queue"
  assumes "env_ok bs e" "first_use w inflight" "\<And>depth. spdk_contract env reg bs depth disk inflight idleness"
  shows "\<exists>w1. queue_ready e w w1 reg bs env disk inflight idleness \<and> length (data_buf_list w1) = 1024
    \<and> max_queue_depth w1 = env_queue_size e - 1 \<and> data_buf_list w1 = rev (map (\<lambda>j. the (env_zmalloc e j)) [0..<1024])"
  using first_use_queue [OF assms(1,2)] assms(2,3) by (auto simp: queue_ready_def first_use_def)

subsection \<open>The asynchronous operations\<close>

text \<open>\<open>aio_submit\<close> after \<open>aio_write\<close> or \<open>aio_read\<close> on the same context, as the tests call them.\<close>

definition aio_write_run :: "nat \<Rightarrow> queue_env \<Rightarrow> 'q spdk \<Rightarrow> 'd block_device_scheme \<Rightarrow> u64 \<Rightarrow> u64 \<Rightarrow> nat \<Rightarrow> 'q queue \<Rightarrow> (int \<times> 'q queue) res" where
  "aio_write_run n e env d off len buf w =
     rbind (nvme_aio_write d off len buf w) (\<lambda>(r, w). rbind (aio_submit n e env w) (\<lambda>w. Ok (r, w)))"

definition aio_read_run :: "nat \<Rightarrow> queue_env \<Rightarrow> 'q spdk \<Rightarrow> 'd block_device_scheme \<Rightarrow> u64 \<Rightarrow> u64 \<Rightarrow> nat \<Rightarrow> 'q queue \<Rightarrow> (int \<times> 'q queue) res" where
  "aio_read_run n e env d off len buf w =
     rbind (nvme_aio_read n d off len buf w) (\<lambda>(r, w). rbind (aio_submit n e env w) (\<lambda>w. Ok (r, w)))"

text \<open>What the ends of \<open>k\<close> asynchronous requests tell their context: as many callbacks, or wake-ups.\<close>

definition told :: "nat \<Rightarrow> 'q queue \<Rightarrow> 'q queue \<Rightarrow> bool" where
  "told k w w' \<longleftrightarrow> callbacks w' = callbacks w @ (case ioc_priv (ioc w) of None \<Rightarrow> [] | Some p \<Rightarrow> replicate k p)
     \<and> ioc w' = (ioc w)\<lparr>notified := notified (ioc w) + (if ioc_priv (ioc w) = None then k else 0)\<rparr>"

lemma aio_write_Ok:
  fixes w :: "'q queue"
  assumes q: "queue_ready e w w1 reg bs env disk inflight idleness" and r: "request_ok reg bs d off len" and c: "ioc_clear (ioc w)"
  shows "\<exists>n0 w'. (\<forall>n \<ge> n0. aio_write_run n e env d off len buf w = Ok (0, w'))
    \<and> disk (qp w') = memcpy (unat off) (unat len) (umem w) buf (disk (qp w)) \<and> umem w' = umem w
    \<and> told 1 w w' \<and> quiet bs inflight w w1 w'"
proof -
  note Q = queue_readyD [OF q] and R = request_okD [OF r]
  from submit_writes [OF Q(1-4) R(1-6,9) c Q(5), of buf] obtain n0 w' where
    W: "\<forall>n \<ge> n0. rbind (write_split off len buf w) (aio_submit n e env) = Ok w'"
      "disk (qp w') = memcpy (unat off) (unat len) (umem w) buf (disk (qp w))" "umem w' = umem w" "tasks w' = tasks w"
      "callbacks w' = callbacks w @ (case ioc_priv (ioc w) of None \<Rightarrow> [] | Some p \<Rightarrow> [p])"
      "ioc w' = (ioc w)\<lparr>notified := notified (ioc w) + (if ioc_priv (ioc w) = None then 1 else 0)\<rparr>"
      "queue_idle bs w'" "mset (data_buf_list w') = mset (data_buf_list w1)" "inflight (qp w') = []"
      "max_queue_depth w' = max_queue_depth w1" "next_task w \<le> next_task w'"
    by auto
  have "aio_write_run n e env d off len buf w = Ok (0, w')" if n: "n0 \<le> n" for n
  proof -
    obtain b :: "'q queue" where "write_split off len buf w = Ok b" "aio_submit n e env b = Ok w'"
      using W(1) n by auto
    then show ?thesis by (simp add: aio_write_run_def nvme_aio_write_def R(7))
  qed
  moreover have "told 1 w w'" using W(5,6) by (auto simp: told_def split: option.splits)
  ultimately show ?thesis using W(2-4,7-11) by (intro exI [of _ n0] exI [of _ w']) (simp add: quiet_def)
qed

lemma make_read_aio:
  fixes w :: "'q queue"
  assumes W: "read_window reg bs (unat off) (unat len) 0 (unat len)" and c: "ioc_clear (ioc w)" and n: "nchunks (unat len) \<le> n"
  shows "make_read_tasks n off buf len None off len w
    = Ok (built (rtask off (unat len) 0 (unat len) buf 0 None) (next_task w) (nchunks (unat len)) w)"
proof -
  let ?g = "rtask off (unat len) 0 (unat len) buf 0 None"
  have b0: "built ?g (next_task w) 0 w = w" using c by (intro built_0) (simp_all add: ioc_clear_def)
  have b: "bump None y j w = w" for y j by (simp add: bump_def)
  have "make_read_loop n (off + of_nat (0 * 131072)) (off + len) len None (off - off) len buf
      (built ?g (next_task w) 0 (bump None undefined 0 w))
    = Ok (built ?g (next_task w) (nchunks (unat len)) (bump None undefined (nchunks (unat len)) w))"
    by (rule make_read_loop_Ok [OF W refl, where buf = buf]) (use n in \<open>simp_all add: skip_def wanted_def\<close>)
  from this [unfolded b, unfolded b0] show ?thesis by (simp add: make_read_tasks_def)
qed

lemma aio_read_Ok:
  fixes w :: "'q queue"
  assumes q: "queue_ready e w w1 reg bs env disk inflight idleness" and r: "request_ok reg bs d off len" and room: "read_room bs d"
    and c: "ioc_clear (ioc w)"
  shows "\<exists>n0 w'. (\<forall>n \<ge> n0. aio_read_run n e env d off len buf w = Ok (0, w'))
    \<and> umem w' = memcpy buf (unat len) (disk (qp w)) (unat off) (umem w) \<and> disk (qp w') = disk (qp w)
    \<and> told 1 w w' \<and> quiet bs inflight w w1 w'"
proof -
  note Q = queue_readyD [OF q] and R = request_okD [OF r]
  let ?n = "nchunks (unat len)" and ?g = "rtask off (unat len) 0 (unat len) buf 0 None"
  have W: "read_window reg bs (unat off) (unat len) 0 (unat len)"
    using R room by (simp add: read_window_def read_room_def)
  have kind: "0 = (0 :: int) \<longleftrightarrow> \<not> False" "(None :: nat option) \<noteq> None \<Longrightarrow> False" "\<And>q. None = Some q \<Longrightarrow> q < next_task w"
      "\<And>q. None = Some q \<Longrightarrow> primary_at ?n (tasks w q)"
    by simp_all
  from submit_reads [where p = None and sy = False and rc = 0, OF Q(1-4) W refl refl c kind(1-4), where buf = buf] obtain n0 w' where
    S: "\<forall>k \<ge> n0. aio_submit k e env (built ?g (next_task w) ?n w) = Ok w'"
      "umem w' = memcpy buf (unat len) (disk (qp w)) (unat off) (umem w)" "disk (qp w') = disk (qp w)"
      "\<forall>u. u \<notin> {next_task w..<next_task w + ?n} \<longrightarrow> tasks w' u = tasks w u"
      "\<forall>u \<in> {next_task w..<next_task w + ?n}. tasks w' u = None"
      "callbacks w' = callbacks w @ (case ioc_priv (ioc w) of None \<Rightarrow> [] | Some v \<Rightarrow> [v])"
      "ioc w' = (ioc w)\<lparr>notified := notified (ioc w) + (if ioc_priv (ioc w) = None then 1 else 0)\<rparr>"
      "queue_idle bs w'" "mset (data_buf_list w') = mset (data_buf_list w1)" "inflight (qp w') = []"
      "next_task w' = next_task w + ?n" "max_queue_depth w' = max_queue_depth w1"
    by (auto cong: option.case_cong)
  have tk: "tasks w' u = tasks w u" for u
    using S(4,5) Q(5) [of u] by (cases "u \<in> {next_task w..<next_task w + ?n}") simp_all
  have "aio_read_run n e env d off len buf w = Ok (0, w')" if n: "max n0 ?n \<le> n" for n
    using n S(1) by (simp add: aio_read_run_def nvme_aio_read_def R(7) make_read_aio [OF W c])
  moreover have "told 1 w w'" using S(6,7) by (auto simp: told_def split: option.splits)
  ultimately show ?thesis using S(2,3,8-12) ext [of "tasks w'" "tasks w", OF tk]
    by (intro exI [of _ "max n0 ?n"] exI [of _ w']) (simp add: quiet_def)
qed

subsection \<open>Lemmas for the properties\<close>

lemma split_u64: "write_split off len buf w = Ok w' \<Longrightarrow> next_task w = base \<Longrightarrow> ioc_clear (ioc w) \<Longrightarrow>
    w' = built (wtask off buf (unat len)) base (nchunks (unat len)) w"
  by (simp add: write_split_Ok)

lemma remove_loop_filter: "remove_device_loop p its acc = acc @ filter (\<lambda>q. q \<noteq> p) its"
  by (induction p its acc rule: remove_device_loop.induct) simp_all

lemma ucast_pow2: "k < 32 \<Longrightarrow> ucast (2 ^ k :: u32) = (2 ^ k :: u64)"
  by (rule bit_word_eqI) (auto simp: bit_simps)

lemma invalid_value: "\<not> io_in_range off len (block_device.truncate d) \<Longrightarrow> dev_block_size d \<noteq> 0 \<Longrightarrow> unat off + unat len < 2 ^ 64 \<Longrightarrow>
    is_valid_io off len (block_device.truncate d) = Ok False"
proof -
  assume a: "\<not> io_in_range off len (block_device.truncate d)" "dev_block_size d \<noteq> 0" "unat off + unat len < 2 ^ 64"
  have "unat (off + len) = unat off + unat len" using a(3) unat_add_lem [of off len] by simp
  then show ?thesis
    using a(1,2) by (auto simp: is_valid_io_def dvd_word io_in_range_def word_less_nat_alt word_le_nat_alt)
qed

subsection \<open>The abstract device\<close>

text \<open>The operations of \<open>NVMEDevice\<close>; an asynchronous one is followed by the \<open>aio_submit\<close> of its context.\<close>

datatype dev_op =
  Op_write u64 u64 nat
| Op_read u64 u64 nat
| Op_read_random u64 u64 nat
| Op_aio_write u64 u64 nat
| Op_aio_read u64 u64 nat
| Op_flush
| Op_invalidate u64 u64

type_synonym store = "(nat \<Rightarrow> u8) \<times> (nat \<Rightarrow> u8)"

fun spec_op :: "dev_op \<Rightarrow> store \<Rightarrow> store" where
  "spec_op (Op_write off len buf) (m, u) = (memcpy (unat off) (unat len) u buf m, u)"
| "spec_op (Op_read off len buf) (m, u) = (m, memcpy buf (unat len) m (unat off) u)"
| "spec_op (Op_read_random off len buf) (m, u) = (m, memcpy buf (unat len) m (unat off) u)"
| "spec_op (Op_aio_write off len buf) (m, u) = (memcpy (unat off) (unat len) u buf m, u)"
| "spec_op (Op_aio_read off len buf) (m, u) = (m, memcpy buf (unat len) m (unat off) u)"
| "spec_op Op_flush mu = mu"
| "spec_op (Op_invalidate off len) mu = mu"

fun op_ok :: "nat set \<Rightarrow> nat \<Rightarrow> 'd block_device_scheme \<Rightarrow> dev_op \<Rightarrow> bool" where
  "op_ok reg bs d (Op_write off len buf) = request_ok reg bs d off len"
| "op_ok reg bs d (Op_read off len buf) = (request_ok reg bs d off len \<and> read_room bs d)"
| "op_ok reg bs d (Op_read_random off len buf) = (random_ok reg bs d off len \<and> read_room bs d)"
| "op_ok reg bs d (Op_aio_write off len buf) = request_ok reg bs d off len"
| "op_ok reg bs d (Op_aio_read off len buf) = (request_ok reg bs d off len \<and> read_room bs d)"
| "op_ok reg bs d _ = True"

text \<open>How often the context is told that a request is done.\<close>

fun aio_count :: "dev_op list \<Rightarrow> nat" where
  "aio_count [] = 0"
| "aio_count (Op_aio_write off len buf # ops) = Suc (aio_count ops)"
| "aio_count (Op_aio_read off len buf # ops) = Suc (aio_count ops)"
| "aio_count (_ # ops) = aio_count ops"

subsection \<open>The operations in sequence\<close>

fun run_op ::
    "nat \<Rightarrow> queue_env \<Rightarrow> 'q spdk \<Rightarrow> 'd block_device_scheme \<Rightarrow> dev_op \<Rightarrow> 'q queue \<Rightarrow> (int \<times> 'q queue) res" where
  "run_op n e env d (Op_write off len buf) w = nvme_write n e env d off len buf w"
| "run_op n e env d (Op_read off len buf) w = nvme_read n e env d off len buf w"
| "run_op n e env d (Op_read_random off len buf) w = nvme_read_random n e env d off len buf w"
| "run_op n e env d (Op_aio_write off len buf) w = aio_write_run n e env d off len buf w"
| "run_op n e env d (Op_aio_read off len buf) w = aio_read_run n e env d off len buf w"
| "run_op n e env d Op_flush w = Ok (nvme_flush w)"
| "run_op n e env d (Op_invalidate off len) w = Ok (nvme_invalidate_cache off len w)"

fun run_ops ::
    "nat \<Rightarrow> queue_env \<Rightarrow> 'q spdk \<Rightarrow> 'd block_device_scheme \<Rightarrow> dev_op list \<Rightarrow> 'q queue \<Rightarrow> (int list \<times> 'q queue) res" where
  "run_ops n e env d [] w = Ok ([], w)"
| "run_ops n e env d (op # ops) w =
     rbind (run_op n e env d op w) (\<lambda>(r, w). rbind (run_ops n e env d ops w) (\<lambda>(rs, w). Ok (r # rs, w)))"

text \<open>The state that \<open>ops\<close> leave: a queue that is ready, with the tasks and the buffers that it had.\<close>

definition left_ready ::
    "queue_env \<Rightarrow> 'q queue \<Rightarrow> 'q queue \<Rightarrow> 'q queue \<Rightarrow> nat set \<Rightarrow> nat \<Rightarrow> 'q spdk \<Rightarrow> ('q \<Rightarrow> nat \<Rightarrow> u8) \<Rightarrow> ('q \<Rightarrow> (task_id \<times> nvme_cmd) list) \<Rightarrow> ('q \<Rightarrow> nat) \<Rightarrow> bool" where
  "left_ready e w w1 w' reg bs env disk inflight idleness \<longleftrightarrow> tasks w' = tasks w
     \<and> (\<exists>w2. queue_ready e w' w2 reg bs env disk inflight idleness \<and> mset (data_buf_list w2) = mset (data_buf_list w1))"

lemma quiet_left_ready:
  assumes "queue_ready e w w1 reg bs env disk inflight idleness" "quiet bs inflight w w1 w'"
  shows "left_ready e w w1 w' reg bs env disk inflight idleness"
  using quiet_ready [OF assms] assms(2) unfolding left_ready_def quiet_def by blast

lemma told_0: "told 0 w w' \<longleftrightarrow> callbacks w' = callbacks w \<and> ioc w' = ioc w"
  by (cases "ioc_priv (ioc w)") (simp_all add: told_def)

lemma left_ready_refl: "queue_ready e w w1 reg bs env disk inflight idleness \<Longrightarrow> left_ready e w w1 w reg bs env disk inflight idleness"
  unfolding left_ready_def by blast

lemma run_op_refines:
  fixes w :: "'q queue"
  assumes q: "queue_ready e w w1 reg bs env disk inflight idleness" and ok: "op_ok reg bs d op"
    and c: "0 < aio_count [op] \<Longrightarrow> ioc_clear (ioc w)"
  shows "\<exists>n0 w'. (\<forall>n \<ge> n0. run_op n e env d op w = Ok (0, w'))
    \<and> (disk (qp w'), umem w') = spec_op op (disk (qp w), umem w)
    \<and> told (aio_count [op]) w w' \<and> left_ready e w w1 w' reg bs env disk inflight idleness"
proof (cases op)
  case (Op_write off len buf)
  then have r: "request_ok reg bs d off len" using ok by simp
  show ?thesis using write_run [OF q r, of buf] quiet_left_ready [OF q] unfolding Op_write by (auto simp: told_0)
next
  case (Op_read off len buf)
  then have r: "request_ok reg bs d off len" "read_room bs d" using ok by simp_all
  show ?thesis using read_run [OF q r, of buf] quiet_left_ready [OF q] unfolding Op_read by (auto simp: told_0)
next
  case (Op_read_random off len buf)
  then have r: "random_ok reg bs d off len" "read_room bs d" using ok by simp_all
  show ?thesis using read_random_run [OF q r, of buf] quiet_left_ready [OF q] unfolding Op_read_random by (auto simp: told_0)
next
  case (Op_aio_write off len buf)
  then have r: "request_ok reg bs d off len" "ioc_clear (ioc w)" using ok c by simp_all
  show ?thesis using aio_write_Ok [OF q r, of buf] quiet_left_ready [OF q] unfolding Op_aio_write by auto
next
  case (Op_aio_read off len buf)
  then have r: "request_ok reg bs d off len" "read_room bs d" "ioc_clear (ioc w)" using ok c by simp_all
  show ?thesis using aio_read_Ok [OF q r, of buf] quiet_left_ready [OF q] unfolding Op_aio_read by auto
next
  case Op_flush
  then show ?thesis using left_ready_refl [OF q] by (intro exI [of _ 0] exI [of _ w]) (simp add: nvme_flush_def told_0)
next
  case (Op_invalidate off len)
  then show ?thesis using left_ready_refl [OF q] by (intro exI [of _ 0] exI [of _ w]) (simp add: nvme_invalidate_cache_def told_0)
qed

lemma told_trans: "told j w u \<Longrightarrow> told k u w' \<Longrightarrow> told (j + k) w w'"
  by (auto simp: told_def replicate_add split: option.splits)

lemma told_clear: "told k w w' \<Longrightarrow> ioc_clear (ioc w') = ioc_clear (ioc w)"
  by (simp add: told_def ioc_clear_def)

lemma aio_count_Cons: "aio_count (op # ops) = aio_count [op] + aio_count ops"
  by (cases op) simp_all

lemma run_ops_refines:
  fixes w :: "'q queue"
  shows "queue_ready e w w1 reg bs env disk inflight idleness \<Longrightarrow> \<forall>op \<in> set ops. op_ok reg bs d op \<Longrightarrow>
    (0 < aio_count ops \<Longrightarrow> ioc_clear (ioc w)) \<Longrightarrow>
    \<exists>n0 w'. (\<forall>n \<ge> n0. run_ops n e env d ops w = Ok (replicate (length ops) 0, w'))
      \<and> (disk (qp w'), umem w') = fold spec_op ops (disk (qp w), umem w)
      \<and> told (aio_count ops) w w' \<and> left_ready e w w1 w' reg bs env disk inflight idleness"
proof (induction ops arbitrary: w w1)
  case Nil
  then show ?case using left_ready_refl [OF Nil.prems(1)] by (intro exI [of _ 0] exI [of _ w]) (simp add: told_0)
next
  case (Cons op ops)
  have ok: "op_ok reg bs d op" "\<forall>op \<in> set ops. op_ok reg bs d op" using Cons.prems(2) by simp_all
  have c: "0 < aio_count [op] \<Longrightarrow> ioc_clear (ioc w)" "0 < aio_count ops \<Longrightarrow> ioc_clear (ioc w)"
    using Cons.prems(3) by (simp_all add: aio_count_Cons [of op ops])
  from run_op_refines [OF Cons.prems(1) ok(1) c(1)] obtain n1 :: nat and u :: "'q queue" where
    U: "\<forall>n \<ge> n1. run_op n e env d op w = Ok (0, u)" "(disk (qp u), umem u) = spec_op op (disk (qp w), umem w)"
      "told (aio_count [op]) w u" "left_ready e w w1 u reg bs env disk inflight idleness"
    by blast
  from U(4) obtain u1 where u1: "queue_ready e u u1 reg bs env disk inflight idleness" "tasks u = tasks w"
      "mset (data_buf_list u1) = mset (data_buf_list w1)"
    unfolding left_ready_def by blast
  have cu: "0 < aio_count ops \<Longrightarrow> ioc_clear (ioc u)" using c(2) told_clear [OF U(3)] by simp
  from Cons.IH [OF u1(1) ok(2) cu] obtain n2 :: nat and w' :: "'q queue" where
    V: "\<forall>n \<ge> n2. run_ops n e env d ops u = Ok (replicate (length ops) 0, w')"
      "(disk (qp w'), umem w') = fold spec_op ops (disk (qp u), umem u)"
      "told (aio_count ops) u w'" "left_ready e u u1 w' reg bs env disk inflight idleness"
    by blast
  have "run_ops n e env d (op # ops) w = Ok (replicate (length (op # ops)) 0, w')" if "max n1 n2 \<le> n" for n
    using U(1) V(1) that by simp
  moreover have "told (aio_count (op # ops)) w w'" using told_trans [OF U(3) V(3)] by (simp only: aio_count_Cons [symmetric])
  moreover have "left_ready e w w1 w' reg bs env disk inflight idleness" using V(4) u1(2,3) by (simp add: left_ready_def)
  ultimately show ?case
    using U(2) V(2) by (intro exI [of _ "max n1 n2"] exI [of _ w']) simp
qed

subsection \<open>A device to apply the properties to\<close>

definition sample_device :: nvme_device where
  "sample_device = block_device.extend (new_block_device\<lparr>dev_size := 1048576, dev_block_size := 512\<rparr>) \<lparr>dev_name = ''n''\<rparr>"

definition sample_env :: queue_env where
  "sample_env = \<lparr>env_zmalloc = Some, env_qpair = True, env_bs = 512, env_queue_size = 3\<rparr>"

definition sample_queue :: "nat option \<Rightarrow> fifo queue" where
  "sample_queue p = \<lparr>tasks = (\<lambda>_. None), next_task = 0, ioc = new_ioc p False, data_buf_list = [], dma = (\<lambda>_ _. 0),
     umem = of_nat, callbacks = [], q_init = False, q_block_size = 0, max_queue_depth = 0, current_queue_depth = 0,
     qp = (\<lambda>_. 0, [], False)\<rparr>"

lemma sample_device_simps [simp]: "dev_size sample_device = 1048576" "dev_block_size sample_device = 512"
  by (simp_all add: sample_device_def new_block_device_def block_device.defs)

lemma sample_queue_simps [simp]:
  "umem (sample_queue p) = of_nat" "ioc (sample_queue p) = new_ioc p False" "callbacks (sample_queue p) = []"
  "tasks (sample_queue p) = (\<lambda>_. None)" "fifo_disk (qp (sample_queue p)) = (\<lambda>_. 0)" "q_init (sample_queue p) = False"
  by (simp_all add: sample_queue_def fifo_disk_def)

lemma sample_env_ok: "env_ok 512 sample_env"
  by (auto simp: env_ok_def sample_env_def inj_on_def)

lemma sample_first_use: "first_use (sample_queue p) fifo_inflight"
  by (simp add: first_use_def sample_queue_def fifo_inflight_def)

lemma sample_ready: "\<exists>w1. queue_ready sample_env (sample_queue p) w1 UNIV 512 (fifo_spdk 512) fifo_disk fifo_inflight fifo_idle"
  using first_use_ready [OF sample_env_ok sample_first_use fifo_contract] by blast

lemma sample_request: "request_ok UNIV 512 sample_device 1024 1024" "read_room 512 sample_device" "random_ok UNIV 512 sample_device 1030 10"
    "request_ok UNIV 512 sample_device 2048 512"
proof -
  have "pow2_align 512" unfolding pow2_align_def by (rule exI [of _ 9]) simp
  then show "request_ok UNIV 512 sample_device 1024 1024" "read_room 512 sample_device" "random_ok UNIV 512 sample_device 1030 10"
    "request_ok UNIV 512 sample_device 2048 512"
    by (simp_all add: request_ok_def read_room_def random_ok_def io_in_range_def)
qed

subsection \<open>Properties\<close>

text \<open>C1: any sequence of operations in range (writes, reads, random reads, asynchronous writes and reads with
  their \<open>aio_submit\<close>, flushes and cache invalidations) refines the same sequence on a plain array of bytes.
  With enough fuel every operation returns 0, and at the end the disk and the caller's memory are those of
  the array; the context was told once for every asynchronous request and is else as it was, no task is left,
  and the pool of the queue has the buffers it had. It holds for every library and device that keep
  \<open>spdk_contract\<close>, in whatever order they complete.\<close>

theorem device_refines_array:
  fixes w :: "'q queue"
  assumes "queue_ready e w w1 reg bs env disk inflight idleness" "\<forall>op \<in> set ops. op_ok reg bs d op"
    "0 < aio_count ops \<Longrightarrow> ioc_clear (ioc w)"
  shows "\<exists>n0 w'. (\<forall>n \<ge> n0. run_ops n e env d ops w = Ok (replicate (length ops) 0, w'))
    \<and> (disk (qp w'), umem w') = fold spec_op ops (disk (qp w), umem w)
    \<and> callbacks w' = callbacks w @ (case ioc_priv (ioc w) of None \<Rightarrow> [] | Some p \<Rightarrow> replicate (aio_count ops) p)
    \<and> ioc w' = (ioc w)\<lparr>notified := notified (ioc w) + (if ioc_priv (ioc w) = None then aio_count ops else 0)\<rparr>
    \<and> tasks w' = tasks w
    \<and> (\<exists>w2. thread_queue e w' = Ok w2 \<and> mset (data_buf_list w2) = mset (data_buf_list w1))"
  using run_ops_refines [OF assms] unfolding queue_ready_def left_ready_def told_def by blast

lemma device_refines_array_witness:
  "\<exists>n w'. run_ops n sample_env (fifo_spdk 512) sample_device
       [Op_write 1024 1024 7, Op_aio_write 2048 512 9, Op_flush, Op_read_random 1030 10 2000] (sample_queue (Some 42)) = Ok ([0, 0, 0, 0], w')
    \<and> fifo_disk (qp w') 1025 = 8 \<and> fifo_disk (qp w') 2049 = 10 \<and> umem w' 2000 = 13 \<and> umem w' 2010 = of_nat 2010
    \<and> callbacks w' = [42]"
proof -
  let ?ops = "[Op_write 1024 1024 7, Op_aio_write 2048 512 9, Op_flush, Op_read_random 1030 10 2000]"
  obtain w1 where q: "queue_ready sample_env (sample_queue (Some 42)) w1 UNIV 512 (fifo_spdk 512) fifo_disk fifo_inflight fifo_idle"
    using sample_ready by blast
  have ok: "\<forall>op \<in> set ?ops. op_ok UNIV 512 sample_device op" using sample_request by simp
  have c: "ioc_clear (ioc (sample_queue (Some 42)))" by simp
  from device_refines_array [OF q ok c] obtain n0 w' where
    "\<forall>n \<ge> n0. run_ops n sample_env (fifo_spdk 512) sample_device ?ops (sample_queue (Some 42)) = Ok ([0, 0, 0, 0], w')"
    "(fifo_disk (qp w'), umem w') = fold spec_op ?ops (\<lambda>_. 0, of_nat)" "callbacks w' = [42]"
    by auto
  then show ?thesis by (intro exI [of _ n0] exI [of _ w']) (simp add: memcpy_def)
qed

text \<open>C16: a thread that uses the device and ends leaks no DMA memory and frees none twice: after its first use, any
  sequence of operations in range, synchronous or not, and the destructor of the queue it has then, the buffers
  that are freed are the 1024 that the constructor allocated, each once.\<close>

theorem thread_exit_frees_all:
  fixes w :: "'q queue"
  assumes "env_ok bs e" "first_use w inflight" "\<And>depth. spdk_contract env reg bs depth disk inflight idleness"
    "\<forall>op \<in> set ops. op_ok reg bs d op" "0 < aio_count ops \<Longrightarrow> ioc_clear (ioc w)"
  shows "\<exists>n0 w' w2. (\<forall>n \<ge> n0. run_ops n e env d ops w = Ok (replicate (length ops) 0, w'))
    \<and> thread_queue e w' = Ok w2
    \<and> distinct (fst (queue_destruct w2))
    \<and> set (fst (queue_destruct w2)) = (\<lambda>j. the (env_zmalloc e j)) ` {..<1024}
    \<and> tasks w' = tasks w \<and> \<not> q_init (snd (queue_destruct w2))"
proof -
  obtain w1 where w1: "queue_ready e w w1 reg bs env disk inflight idleness"
      "data_buf_list w1 = rev (map (\<lambda>j. the (env_zmalloc e j)) [0..<1024])"
    using first_use_ready [OF assms(1-3)] by blast
  from run_ops_refines [OF w1(1) assms(4,5)] obtain n0 w' w2 where
    r: "\<forall>n \<ge> n0. run_ops n e env d ops w = Ok (replicate (length ops) 0, w')" "tasks w' = tasks w"
      "mset (data_buf_list w2) = mset (data_buf_list w1)" "queue_ready e w' w2 reg bs env disk inflight idleness"
    unfolding left_ready_def by blast
  have "set (data_buf_list w2) = set (data_buf_list w1)" "distinct (data_buf_list w2)"
    using mset_eq_setD [OF r(3)] queue_readyD(2) [OF r(4)] by (simp_all add: queue_idle_def)
  moreover have "set (data_buf_list w1) = (\<lambda>j. the (env_zmalloc e j)) ` {..<1024}" unfolding w1(2) by auto
  ultimately show ?thesis using r(1,2) queue_readyD(1) [OF r(4)]
    by (intro exI [of _ n0] exI [of _ w'] exI [of _ w2]) (simp add: queue_destruct_def)
qed

lemma thread_exit_frees_all_witness:
  "\<exists>n w' w2. run_ops n sample_env (fifo_spdk 512) sample_device [Op_aio_write 1024 1024 7] (sample_queue None) = Ok ([0], w')
    \<and> thread_queue sample_env w' = Ok w2 \<and> set (fst (queue_destruct w2)) = {..<1024}"
proof -
  have ok: "\<forall>op \<in> set [Op_aio_write 1024 1024 7]. op_ok UNIV 512 sample_device op" using sample_request by simp
  have c: "ioc_clear (ioc (sample_queue None))" by simp
  from thread_exit_frees_all [OF sample_env_ok sample_first_use fifo_contract ok c] obtain n0 w' w2 where
    "\<forall>n \<ge> n0. run_ops n sample_env (fifo_spdk 512) sample_device [Op_aio_write 1024 1024 7] (sample_queue None) = Ok ([0], w')"
    "thread_queue sample_env w' = Ok w2" "set (fst (queue_destruct w2)) = (\<lambda>j. the (env_zmalloc sample_env j)) ` {..<1024}"
    by auto
  then show ?thesis by (intro exI [of _ n0] exI [of _ w'] exI [of _ w2]) (simp add: sample_env_def)
qed

text \<open>What is written is read back: a write from one buffer and a read of the same range into another
  return 0 and leave the second buffer equal to the first; no other byte of memory changes.\<close>

theorem write_read_roundtrip:
  fixes w :: "'q queue"
  assumes "queue_ready e w w1 reg bs env disk inflight idleness" "request_ok reg bs d off len" "read_room bs d"
  shows "\<exists>n0 w'. (\<forall>n \<ge> n0. rbind (nvme_write n e env d off len src w) (\<lambda>(r, u). nvme_read n e env d off len dst u) = Ok (0, w'))
    \<and> (\<forall>i < unat len. umem w' (dst + i) = umem w (src + i))
    \<and> (\<forall>a. a < dst \<or> dst + unat len \<le> a \<longrightarrow> umem w' a = umem w a)"
proof -
  have ok: "op_ok reg bs d (Op_write off len src)" "op_ok reg bs d (Op_read off len dst)" using assms by simp_all
  from run_op_refines [OF assms(1) ok(1)] obtain n1 :: nat and u u1 :: "'q queue" where
    U: "\<forall>n \<ge> n1. nvme_write n e env d off len src w = Ok (0, u)" "(disk (qp u), umem u) = spec_op (Op_write off len src) (disk (qp w), umem w)"
      "queue_ready e u u1 reg bs env disk inflight idleness"
    by (auto simp: left_ready_def)
  from run_op_refines [OF U(3) ok(2)] obtain n2 :: nat and w' :: "'q queue" where
    V: "\<forall>n \<ge> n2. nvme_read n e env d off len dst u = Ok (0, w')" "(disk (qp w'), umem w') = spec_op (Op_read off len dst) (disk (qp u), umem u)"
    by auto
  show ?thesis
    using U(1,2) V by (intro exI [of _ "max n1 n2"] exI [of _ w']) (auto simp: memcpy_def)
qed

lemma write_read_roundtrip_witness:
  "\<exists>n w'. rbind (nvme_write n sample_env (fifo_spdk 512) sample_device 1024 1024 7 (sample_queue None))
      (\<lambda>(r, u). nvme_read n sample_env (fifo_spdk 512) sample_device 1024 1024 5000 u) = Ok (0, w') \<and> umem w' 5003 = 10"
proof -
  obtain w1 where q: "queue_ready sample_env (sample_queue None) w1 UNIV 512 (fifo_spdk 512) fifo_disk fifo_inflight fifo_idle"
    using sample_ready by blast
  from write_read_roundtrip [OF q sample_request(1,2), of 7 5000] obtain n0 w' where
    R: "\<forall>n \<ge> n0. rbind (nvme_write n sample_env (fifo_spdk 512) sample_device 1024 1024 7 (sample_queue None))
      (\<lambda>(r, u). nvme_read n sample_env (fifo_spdk 512) sample_device 1024 1024 5000 u) = Ok (0, w')"
    "\<forall>i < unat (1024 :: u64). umem w' (5000 + i) = umem (sample_queue None) (7 + i)"
    by blast
  have "umem w' 5003 = 10" using R(2) [rule_format, of 3] by simp
  then show ?thesis using R(1) by blast
qed

text \<open>C13: a read at any byte offset and length within the device, cut to blocks and to tasks of 128 KiB and
  gathered from the segments, returns 0 and puts exactly the bytes \<open>off\<close> to \<open>off + len\<close> of the disk in the
  caller's buffer; the queue is idle again with the buffers it had, and the stack task is gone.\<close>

theorem read_random_fetches:
  fixes w :: "'q queue"
  assumes "queue_ready e w w1 reg bs env disk inflight idleness" "random_ok reg bs d off len" "read_room bs d"
  shows "\<exists>n0 w'. (\<forall>n \<ge> n0. nvme_read_random n e env d off len buf w = Ok (0, w'))
    \<and> (\<forall>i < unat len. umem w' (buf + i) = disk (qp w) (unat off + i))
    \<and> (\<forall>a. a < buf \<or> buf + unat len \<le> a \<longrightarrow> umem w' a = umem w a)
    \<and> disk (qp w') = disk (qp w) \<and> tasks w' = tasks w \<and> mset (data_buf_list w') = mset (data_buf_list w1)
    \<and> current_queue_depth w' = 0"
proof -
  from read_random_run [OF assms, of buf] obtain n0 w' where
    "\<forall>n \<ge> n0. nvme_read_random n e env d off len buf w = Ok (0, w')"
    "umem w' = memcpy buf (unat len) (disk (qp w)) (unat off) (umem w)" "disk (qp w') = disk (qp w)" "quiet bs inflight w w1 w'"
    by blast
  then show ?thesis
    by (intro exI [of _ n0] exI [of _ w']) (auto simp: memcpy_def quiet_def queue_idle_def)
qed

lemma read_random_fetches_witness:
  "\<exists>n w'. nvme_read_random n sample_env (fifo_spdk 512) sample_device 1030 10 2000 (sample_queue None) = Ok (0, w')
    \<and> umem w' 2003 = 0 \<and> umem w' 2010 = of_nat 2010"
proof -
  obtain w1 where q: "queue_ready sample_env (sample_queue None) w1 UNIV 512 (fifo_spdk 512) fifo_disk fifo_inflight fifo_idle"
    using sample_ready by blast
  from read_random_fetches [OF q sample_request(3,2), of 2000] obtain n0 w' where
    R: "\<forall>n \<ge> n0. nvme_read_random n sample_env (fifo_spdk 512) sample_device 1030 10 2000 (sample_queue None) = Ok (0, w')"
      "\<forall>i < unat (10 :: u64). umem w' (2000 + i) = fifo_disk (qp (sample_queue None)) (unat (1030 :: u64) + i)"
      "\<forall>a. a < 2000 \<or> 2000 + unat (10 :: u64) \<le> a \<longrightarrow> umem w' a = umem (sample_queue None) a"
    by blast
  have "umem w' 2003 = 0" "umem w' 2010 = of_nat 2010" using R(2) [rule_format, of 3] R(3) [rule_format, of 2010] by simp_all
  then show ?thesis using R(1) by blast
qed

text \<open>An asynchronous read on a clear context always finishes: when \<open>aio_submit\<close> returns, the
  caller's memory holds the bytes, and the context was told once that the request is done.\<close>

theorem aio_read_finishes:
  fixes w :: "'q queue"
  assumes "queue_ready e w w1 reg bs env disk inflight idleness" "request_ok reg bs d off len" "read_room bs d" "ioc_clear (ioc w)"
  shows "\<exists>n0 w'. (\<forall>n \<ge> n0. rbind (nvme_aio_read n d off len buf w) (\<lambda>(r, u). aio_submit n e env u) = Ok w')
    \<and> umem w' = memcpy buf (unat len) (disk (qp w)) (unat off) (umem w) \<and> disk (qp w') = disk (qp w)
    \<and> callbacks w' = callbacks w @ (case ioc_priv (ioc w) of None \<Rightarrow> [] | Some p \<Rightarrow> [p])
    \<and> ioc w' = (ioc w)\<lparr>notified := notified (ioc w) + (if ioc_priv (ioc w) = None then 1 else 0)\<rparr>
    \<and> tasks w' = tasks w \<and> mset (data_buf_list w') = mset (data_buf_list w1)"
proof -
  from aio_read_Ok [OF assms, of buf] obtain n0 w' where
    R: "\<forall>n \<ge> n0. aio_read_run n e env d off len buf w = Ok (0, w')"
    "umem w' = memcpy buf (unat len) (disk (qp w)) (unat off) (umem w)" "disk (qp w') = disk (qp w)" "told 1 w w'" "quiet bs inflight w w1 w'"
    by blast
  have "rbind (nvme_aio_read n d off len buf w) (\<lambda>(r, u). aio_submit n e env u) = Ok w'" if "n0 \<le> n" for n
    using R(1) that by (auto simp: aio_read_run_def)
  then show ?thesis using R(2-5)
    by (intro exI [of _ n0] exI [of _ w']) (simp add: quiet_def told_def cong: option.case_cong)
qed

lemma aio_read_finishes_witness:
  "\<exists>n w'. rbind (nvme_aio_read n sample_device 1024 1024 7 (sample_queue None))
      (\<lambda>(r, u). aio_submit n sample_env (fifo_spdk 512) u) = Ok w' \<and> umem w' 8 = 0 \<and> notified (ioc w') = 1"
proof -
  obtain w1 where q: "queue_ready sample_env (sample_queue None) w1 UNIV 512 (fifo_spdk 512) fifo_disk fifo_inflight fifo_idle"
    using sample_ready by blast
  have c: "ioc_clear (ioc (sample_queue None))" by simp
  from aio_read_finishes [OF q sample_request(1,2) c, of 7] obtain n0 w' where
    R: "\<forall>n \<ge> n0. rbind (nvme_aio_read n sample_device 1024 1024 7 (sample_queue None))
      (\<lambda>(r, u). aio_submit n sample_env (fifo_spdk 512) u) = Ok w'"
    "umem w' = memcpy 7 1024 (\<lambda>_. 0) 1024 of_nat" "ioc w' = (new_ioc None False)\<lparr>notified := notified (new_ioc None False) + 1\<rparr>"
    by auto
  then show ?thesis by (intro exI [of _ n0] exI [of _ w']) (simp add: memcpy_def new_ioc_def)
qed

text \<open>A request that the range test refuses stops at its assertion, in every operation that tests it,
  whatever the queue and the library.\<close>

theorem invalid_request_stops:
  assumes "\<not> io_in_range off len (block_device.truncate d)" "dev_block_size d \<noteq> 0" "unat off + unat len < 2 ^ 64"
  shows "nvme_read n e env d off len buf w = Fault AssertFail \<and> nvme_write n e env d off len buf w = Fault AssertFail
    \<and> nvme_aio_read n d off len buf w = Fault AssertFail \<and> nvme_aio_write d off len buf w = Fault AssertFail"
  using invalid_value [OF assms]
  by (simp add: nvme_read_def nvme_write_def nvme_aio_read_def nvme_aio_write_def c_assert_def)

lemma invalid_request_stops_witness:
  "nvme_aio_write sample_device 100 512 0 (sample_queue None) = Fault AssertFail"
proof -
  have "\<not> io_in_range 100 512 (block_device.truncate sample_device)" "dev_block_size sample_device \<noteq> 0"
      "unat (100 :: u64) + unat (512 :: u64) < 2 ^ 64"
    by (simp_all add: io_in_range_def)
  from invalid_request_stops [OF this, of 0 sample_env "fifo_spdk 512" 0 "sample_queue None"] show ?thesis by blast
qed

text \<open>The first request of a thread, with SPDK giving a queue pair, 1024 distinct buffers and at least two
  places, leaves the thread a queue that is ready for any request: idle, with all buffers in the pool and one
  place fewer than SPDK has.\<close>

theorem first_use_constructs:
  fixes w :: "'q queue"
  assumes "env_ok bs e" "first_use w inflight" "\<And>depth. spdk_contract env reg bs depth disk inflight idleness"
  shows "\<exists>w1. thread_queue e w = Ok w1 \<and> queue_ready e w w1 reg bs env disk inflight idleness
    \<and> distinct (data_buf_list w1) \<and> length (data_buf_list w1) = 1024 \<and> max_queue_depth w1 = env_queue_size e - 1"
proof -
  obtain w1 where R: "queue_ready e w w1 reg bs env disk inflight idleness" "length (data_buf_list w1) = 1024"
      "max_queue_depth w1 = env_queue_size e - 1"
    using first_use_ready [OF assms] by blast
  then show ?thesis using queue_readyD(1,2) [OF R(1)] by (intro exI [of _ w1]) (simp add: queue_idle_def)
qed

lemma first_use_constructs_witness:
  "\<exists>w1. thread_queue sample_env (sample_queue None) = Ok w1 \<and> length (data_buf_list w1) = 1024 \<and> max_queue_depth w1 = 2"
  using first_use_constructs [OF sample_env_ok sample_first_use fifo_contract, of None] by (auto simp: sample_env_def)

text \<open>Opening a device whose namespace has sectors of a power of two: the outcome is 0, the device has the
  namespace's block size and its size cut to whole blocks, it is registered with the driver, named by its
  transport address and not rotational.\<close>

theorem nvme_open_outcome:
  assumes "driver_block_size dr = 2 ^ k" "k < 32"
    and "get_line path = Some v" "parse v = (0, trid)" "try_get trid = (r, dr)" "0 \<le> r"
  shows "\<exists>d'. nvme_open get_line parse try_get traddr p path d = (0, Some (register_device p dr), d')
      \<and> unat (dev_block_size d') = 2 ^ k \<and> unat (dev_size d') = unat (driver_size dr) div 2 ^ k * 2 ^ k
      \<and> dev_name d' = traddr trid \<and> \<not> rotational d'"
    (is "?opens")
proof -
  have u: "ucast (driver_block_size dr) = (2 ^ k :: u64)" using assms by (simp add: ucast_pow2)
  have "driver_size dr AND NOT (2 ^ k - 1) = p2align (driver_size dr) (2 ^ k)"
    by (simp add: p2align_def minus_eq_not_minus_1)
  then show ?opens
    using u assms unat_pow2 [of k] unat_p2align [of "driver_size dr" k] by (simp add: nvme_open_def Let_def register_device_def)
qed

lemma nvme_open_outcome_witness:
  "\<exists>d'. nvme_open (\<lambda>f. if f = ''d'' then Some ''t'' else None) (\<lambda>v. (0, v)) (\<lambda>t. (0, new_shared_driver 512 1048777)) id 7 ''d'' sample_device
      = (0, Some (register_device 7 (new_shared_driver 512 1048777)), d')
    \<and> unat (dev_size d') = 1048576"
proof -
  have k: "driver_block_size (new_shared_driver 512 1048777) = 2 ^ 9" "(9 :: nat) < 32" by (simp_all add: new_shared_driver_def)
  from nvme_open_outcome [OF k, of "\<lambda>f. if f = ''d'' then Some ''t'' else None" "''d''" "''t''" "\<lambda>v. (0, v)" "''t''"
      "\<lambda>t. (0, new_shared_driver 512 1048777)" 0 id 7 sample_device]
  show ?thesis by (auto simp: new_shared_driver_def)
qed

text \<open>Closing undoes the registration of opening: \<open>remove_device\<close> drops every entry of the device and keeps
  the others in their order, so after \<open>register_device\<close> of a device that was not there the driver is as before.\<close>

theorem remove_device_undoes:
  assumes "p \<notin> set (registered_devices dr)"
  shows "fst (nvme_close p (register_device p dr) d) = dr
    \<and> registered_devices (remove_device p (register_device q dr)) = (if q = p then registered_devices dr else registered_devices dr @ [q])"
proof -
  have f: "filter (\<lambda>q. q \<noteq> p) (registered_devices dr) = registered_devices dr" using assms by (auto simp: filter_id_conv)
  have "dr\<lparr>registered_devices := registered_devices dr\<rparr> = dr" by simp
  then show ?thesis using f by (simp add: nvme_close_def remove_device_def register_device_def remove_loop_filter)
qed

lemma remove_device_undoes_witness:
  "fst (nvme_close 3 (register_device 3 (register_device 1 (new_shared_driver 512 4096))) sample_device)
    = register_device 1 (new_shared_driver 512 4096)"
proof -
  have "3 \<notin> set (registered_devices (register_device 1 (new_shared_driver 512 4096)))"
    by (simp add: register_device_def new_shared_driver_def)
  from remove_device_undoes [OF this] show ?thesis by blast
qed

text \<open>A library that accepts every write and records it: the first sector, the number of sectors, and the bytes.\<close>

definition recorder :: "(u64 \<times> u32 \<times> u8 list) list spdk" where
  "recorder = \<lparr>cmd_writev = (\<lambda>lba cnt t ps d q. (0, q @ [(lba, cnt, map (\<lambda>p. d (fst p) (snd p)) ps)])),
     cmd_readv = (\<lambda>lba cnt t ps q. (0, q)), cmd_flush = (\<lambda>t q. (0, q)), process_completions = (\<lambda>n d q. (0, [], d, q))\<rparr>"

text \<open>C40: sectors that do not divide 128 KiB break the split. With 520-byte sectors a write of 504 of them is valid, but
  its two tasks do not end on a sector, and the loop of the driver, which divides offset and length by the sector
  size, asks the library for the wrong sectors: the first command has the caller's first 131072 bytes for 252 sectors,
  which hold 32 bytes less, and the second gives the bytes from 131072 on to sector 252, which starts at byte 131040,
  and for 251 sectors: they land 32 bytes early, and of the 504 sectors the last is not written.\<close>

theorem odd_sectors_break_split:
  fixes w :: "(u64 \<times> u32 \<times> u8 list) list queue"
  assumes "dev_block_size d = 520" "262080 \<le> dev_size d" "ioc_clear (ioc w)" "next_task w = base"
    and "q_block_size w = 520" "current_queue_depth w = 0" "1 < max_queue_depth w"
    and "distinct (data_buf_list w)" "32 \<le> length (data_buf_list w)"
  shows "is_valid_io 0 262080 d = Ok True
    \<and> (\<exists>w1 w2. write_split 0 262080 buf w = Ok w1
        \<and> submit_chain 2 recorder (nvme_task_first (ioc w1)) w1 = Ok (None, w2)
        \<and> qp w2 = qp w @ [(0, 252, map (\<lambda>p. umem w (buf + p)) [0..<131072]),
                           (252, 251, map (\<lambda>p. umem w (buf + 131072 + p)) [0..<131008])])
    \<and> 252 * 520 = 131072 - (32 :: nat) \<and> 252 + 251 = 504 - (1 :: nat)"
proof -
  let ?g = "wtask 0 buf 262080"
  define w1 where "w1 = built ?g base 2 w"
  have n: "nchunks (unat (262080 :: u64)) = 2" by (simp add: nchunks_def)
  have sp: "write_split 0 262080 buf w = Ok w1"
    using write_split_Ok [OF assms(4,3), of 0 262080 buf] unfolding n w1_def by simp
  define x where "x = (?g 0)\<lparr>t_next := Some (Suc base)\<rparr>"
  define y where "y = (?g 1)\<lparr>t_next := None\<rparr>"
  have b: "tasks w1 base = Some x" "tasks w1 (Suc base) = Some y" "nvme_task_first (ioc w1) = Some base"
    "data_buf_list w1 = data_buf_list w" "umem w1 = umem w" "qp w1 = qp w" "q_block_size w1 = 520"
    "current_queue_depth w1 = 0" "max_queue_depth w1 = max_queue_depth w"
    using assms(5,6) by (simp_all add: w1_def built_def x_def y_def)
  have X: "t_len x = 131072" "t_offset x = 0" "t_buf x = buf" "command x = WRITE_COMMAND" "unloaded x" "t_next x = Some (Suc base)"
    by (simp_all add: x_def chunk_len_def unloaded_def new_io_request_def)
  have Y: "t_len y = 131008" "t_offset y = 131072" "t_buf y = buf + 131072" "command y = WRITE_COMMAND" "unloaded y" "t_next y = None"
    by (simp_all add: y_def chunk_len_def unloaded_def new_io_request_def)
  have nb: "nbufs 131072 = 16" "nbufs 131008 = 16" by (simp_all add: nbufs_def)
  obtain v where v: "submit_one recorder base w1 = Ok (True, v)"
      "qp v = qp w @ [(0, 252, map (\<lambda>p. umem w (buf + p)) [0..<131072])]" "data_buf_list v = drop 16 (data_buf_list w)"
      "frame w1 v" "current_queue_depth v = 0" "tasks v (Suc base) = Some y" "\<exists>z. tasks v base = Some z \<and> sim z x"
    using submit_one_write [OF b(1) X(5,4), of recorder "\<lambda>bs. qp w @ [(0, 252, bs)]"] X nb b assms(8,9)
    by (auto simp: recorder_def)
  define v' where "v' = v\<lparr>current_queue_depth := 1\<rparr>"
  have f: "umem v' = umem w" "q_block_size v' = 520" "max_queue_depth v' = max_queue_depth w" "tasks v' (Suc base) = Some y"
    "data_buf_list v' = drop 16 (data_buf_list w)" "qp v' = qp v" "current_queue_depth v' = 1"
    using v(3-6) b by (simp_all add: v'_def frame_def)
  have "16 \<le> length (data_buf_list w) - 16" using assms(9) by simp
  then obtain u where u: "submit_one recorder (Suc base) v' = Ok (True, u)"
      "qp u = qp v @ [(252, 251, map (\<lambda>p. umem w (buf + 131072 + p)) [0..<131008])]"
      "\<exists>z. tasks u (Suc base) = Some z \<and> sim z y"
    using submit_one_write [OF f(4) Y(5,4), of recorder "\<lambda>bs. qp v @ [(252, 251, bs)]"] Y nb f assms(8,9)
    by (auto simp: recorder_def)
  obtain z z' where z: "tasks v base = Some z" "t_next z = Some (Suc base)" "tasks u (Suc base) = Some z'" "t_next z' = None"
    using v(7) u(3) X(6) Y(6) simD by metis
  have m: "max_queue_depth w \<noteq> 0" "max_queue_depth w \<noteq> 1" using assms(7) by auto
  have "submit_chain 2 recorder (Some base) w1 = Ok (None, u\<lparr>current_queue_depth := current_queue_depth u + 1\<rparr>)"
    using m b(8,9) f(3,7) v(1,5) u(1) z by (simp add: numeral_2_eq_2 deref_def v'_def [symmetric])
  then have "\<exists>w2. submit_chain 2 recorder (nvme_task_first (ioc w1)) w1 = Ok (None, w2)
      \<and> qp w2 = qp w @ [(0, 252, map (\<lambda>p. umem w (buf + p)) [0..<131072]),
                         (252, 251, map (\<lambda>p. umem w (buf + 131072 + p)) [0..<131008])]"
    using u(2) v(2) b(3) by simp
  moreover have "is_valid_io 0 262080 d = Ok True"
    using assms(1,2) by (auto simp: is_valid_io_def word_less_nat_alt word_le_nat_alt)
  ultimately show ?thesis using sp by auto
qed

definition sample_recorder_queue :: "(u64 \<times> u32 \<times> u8 list) list queue" where
  "sample_recorder_queue = \<lparr>tasks = (\<lambda>_. None), next_task = 0, ioc = new_ioc None False, data_buf_list = [0..<32],
     dma = (\<lambda>_ _. 0), umem = of_nat, callbacks = [], q_init = True, q_block_size = 520, max_queue_depth = 3,
     current_queue_depth = 0, qp = []\<rparr>"

lemma odd_sectors_break_split_witness:
  "\<exists>w1 w2. write_split 0 262080 7 sample_recorder_queue = Ok w1
    \<and> submit_chain 2 recorder (nvme_task_first (ioc w1)) w1 = Ok (None, w2)
    \<and> map (\<lambda>(lba, cnt, _). (lba, cnt)) (qp w2) = [(0, 252), (252, 251)]"
proof -
  let ?d = "new_block_device\<lparr>dev_size := 1048576, dev_block_size := 520\<rparr>"
  have a: "dev_block_size ?d = 520" "262080 \<le> dev_size ?d" "ioc_clear (ioc sample_recorder_queue)"
      "next_task sample_recorder_queue = 0" "q_block_size sample_recorder_queue = 520"
      "current_queue_depth sample_recorder_queue = 0" "1 < max_queue_depth sample_recorder_queue"
      "distinct (data_buf_list sample_recorder_queue)" "32 \<le> length (data_buf_list sample_recorder_queue)"
    by (simp_all add: sample_recorder_queue_def ioc_clear_def new_ioc_def)
  have q: "qp sample_recorder_queue = []" by (simp add: sample_recorder_queue_def)
  obtain w1 w2 where w: "write_split 0 262080 7 sample_recorder_queue = Ok w1"
      "submit_chain 2 recorder (nvme_task_first (ioc w1)) w1 = Ok (None, w2)"
      "qp w2 = [(0, 252, map (\<lambda>p. umem sample_recorder_queue (7 + p)) [0..<131072]),
        (252, 251, map (\<lambda>p. umem sample_recorder_queue (7 + 131072 + p)) [0..<131008])]"
    using odd_sectors_break_split [OF a, of 7] unfolding q append_Nil by blast
  show ?thesis by (rule exI [of _ w1], rule exI [of _ w2]) (simp only: w list.map prod.case simp_thms)
qed

end
