(* ===== verification/Shared_Device.thy ===== *)
theory Shared_Device
  imports Device_Spec
begin

section \<open>Several threads on one device: the thread\_local queue of NVMEDevice::aio\_submit\<close>

text \<open>
  Every thread that uses \<open>NVMEDevice\<close> has a queue pair of its own (\<open>queue_t\<close> is \<open>thread_local\<close> in
  \<open>aio_submit\<close>), and all of them lead to one disk. Here a thread runs its operations while, before each of
  its calls of the library, the others make any number of calls of theirs. Each thread keeps to a region of
  the disk: the rely of one is the guarantee of the others. The guarantee is a monitor between a thread and
  its queue pair, which refuses what leaves the region or what the contract of the library does not
  cover; an operation that returns 0 was never refused.
\<close>

subsection \<open>The calls of the other threads\<close>

datatype lib_call =
  Call_writev u64 u32 task_id "(buf_id \<times> nat) list" dma_mem
| Call_readv u64 u32 task_id "(buf_id \<times> nat) list"
| Call_poll dma_mem

fun do_call :: "'q spdk \<Rightarrow> lib_call \<Rightarrow> 'q \<Rightarrow> 'q" where
  "do_call env (Call_writev lba n t ps d) q = snd (cmd_writev env lba n t ps d q)"
| "do_call env (Call_readv lba n t ps) q = snd (cmd_readv env lba n t ps q)"
| "do_call env (Call_poll d) q = snd (snd (snd (process_completions env 0 d q)))"

text \<open>What a thread may do with its queue pair.\<close>

definition may_command :: "nat set \<Rightarrow> nat \<Rightarrow> nat \<Rightarrow> u64 \<Rightarrow> u32 \<Rightarrow> 'a list \<Rightarrow> 'b list \<Rightarrow> bool" where
  "may_command reg bs depth lba n ps es \<longleftrightarrow> length ps = unat n * bs \<and> length es < depth
     \<and> {unat lba * bs..<unat lba * bs + length ps} \<subseteq> reg"

definition may_poll :: "nat set \<Rightarrow> (task_id \<times> nvme_cmd) list \<Rightarrow> bool" where
  "may_poll reg es \<longleftrightarrow> independent es \<and> (\<forall>e \<in> set es. cmd_span (snd e) \<subseteq> reg)"

definition monitored :: "nat set \<Rightarrow> nat \<Rightarrow> nat \<Rightarrow> ('q \<Rightarrow> (task_id \<times> nvme_cmd) list) \<Rightarrow> 'q spdk \<Rightarrow> 'q spdk" where
  "monitored reg bs depth inflight env =
     \<lparr>cmd_writev = (\<lambda>lba n t ps d q.
        if may_command reg bs depth lba n ps (inflight q) then cmd_writev env lba n t ps d q else (-1, q)),
      cmd_readv = (\<lambda>lba n t ps q.
        if may_command reg bs depth lba n ps (inflight q) then cmd_readv env lba n t ps q else (-1, q)),
      cmd_flush = (\<lambda>t q. (-1, q)),
      process_completions = (\<lambda>n d q.
        if n = 0 \<and> may_poll reg (inflight q) then process_completions env n d q else (-1, [], d, q))\<rparr>"

text \<open>
  Thread \<open>i\<close> under a schedule: before its \<open>k\<close>-th call of the library the calls \<open>sched k\<close> of other threads
  happen, each through its own queue pair. The state counts the calls.
\<close>

record 'q shared_lib =
  lib :: "nat \<Rightarrow> 'q spdk"
  region :: "nat \<Rightarrow> nat set"
  qdepth :: "nat \<Rightarrow> nat"
  on_disk :: "'q \<Rightarrow> nat \<Rightarrow> u8"
  in_queue :: "nat \<Rightarrow> 'q \<Rightarrow> (task_id \<times> nvme_cmd) list"
  idleness_of :: "nat \<Rightarrow> 'q \<Rightarrow> nat"

definition pair_of :: "'q shared_lib \<Rightarrow> nat \<Rightarrow> nat \<Rightarrow> 'q spdk" where
  "pair_of L bs j = monitored (region L j) bs (qdepth L j) (in_queue L j) (lib L j)"

fun others :: "'q shared_lib \<Rightarrow> nat \<Rightarrow> nat \<Rightarrow> (nat \<times> lib_call) list \<Rightarrow> 'q \<Rightarrow> 'q" where
  "others L bs i [] q = q"
| "others L bs i ((j, c) # cs) q = others L bs i cs (if j = i then q else do_call (pair_of L bs j) c q)"

definition thread_lib :: "'q shared_lib \<Rightarrow> nat \<Rightarrow> nat \<Rightarrow> (nat \<Rightarrow> (nat \<times> lib_call) list) \<Rightarrow> ('q \<times> nat) spdk" where
  "thread_lib L bs i sched =
     \<lparr>cmd_writev = (\<lambda>lba n t ps d (q, k).
        case cmd_writev (pair_of L bs i) lba n t ps d (others L bs i (sched k) q) of (r, q) \<Rightarrow> (r, q, Suc k)),
      cmd_readv = (\<lambda>lba n t ps (q, k).
        case cmd_readv (pair_of L bs i) lba n t ps (others L bs i (sched k) q) of (r, q) \<Rightarrow> (r, q, Suc k)),
      cmd_flush = (\<lambda>t (q, k).
        case cmd_flush (pair_of L bs i) t (others L bs i (sched k) q) of (r, q) \<Rightarrow> (r, q, Suc k)),
      process_completions = (\<lambda>n d (q, k).
        case process_completions (pair_of L bs i) n d (others L bs i (sched k) q) of (r, cs, d, q) \<Rightarrow> (r, cs, d, q, Suc k))\<rparr>"

subsection \<open>What is relied on of the library\<close>

text \<open>
  Each queue pair alone keeps \<open>spdk_contract\<close>; a call on one leaves what is in flight on another, and brings
  the other's next completion no farther away. The regions of two threads have no byte in common.
\<close>

definition pairs_apart :: "'q shared_lib \<Rightarrow> bool" where
  "pairs_apart L \<longleftrightarrow> (\<forall>i j c q. i \<noteq> j \<longrightarrow>
     in_queue L i (do_call (lib L j) c q) = in_queue L i q \<and> idleness_of L i (do_call (lib L j) c q) \<le> idleness_of L i q)"

definition regions_apart :: "'q shared_lib \<Rightarrow> bool" where
  "regions_apart L \<longleftrightarrow> (\<forall>i j. i \<noteq> j \<longrightarrow> region L i \<inter> region L j = {})"

definition shared_ok :: "'q shared_lib \<Rightarrow> nat \<Rightarrow> bool" where
  "shared_ok L bs \<longleftrightarrow> pairs_apart L \<and> regions_apart L
     \<and> (\<forall>i. spdk_contract (lib L i) UNIV bs (qdepth L i) (on_disk L) (in_queue L i) (idleness_of L i))"

definition own :: "nat set \<Rightarrow> (nat \<Rightarrow> u8) \<Rightarrow> nat \<Rightarrow> u8" where
  "own reg m = (\<lambda>a. if a \<in> reg then m a else 0)"

lemma shared_okD:
  assumes "shared_ok L bs"
  shows "i \<noteq> j \<Longrightarrow> in_queue L i (do_call (lib L j) c q) = in_queue L i q"
    "i \<noteq> j \<Longrightarrow> idleness_of L i (do_call (lib L j) c q) \<le> idleness_of L i q"
    "i \<noteq> j \<Longrightarrow> region L i \<inter> region L j = {}"
    "accepts (lib L i) UNIV bs (qdepth L i) (on_disk L) (in_queue L i)"
    "completes (lib L i) UNIV (on_disk L) (in_queue L i) (idleness_of L i)"
  using assms unfolding shared_ok_def pairs_apart_def regions_apart_def spdk_contract_def by blast+

subsection \<open>The guarantee\<close>

text \<open>A monitored call does nothing, or is the call of the library where its contract covers it.\<close>

lemma monitored_call:
  "do_call (monitored reg bs depth inflight env) c q = q
   \<or> do_call (monitored reg bs depth inflight env) c q = do_call env c q
     \<and> (case c of Call_writev lba n t ps d \<Rightarrow> may_command reg bs depth lba n ps (inflight q)
        | Call_readv lba n t ps \<Rightarrow> may_command reg bs depth lba n ps (inflight q)
        | Call_poll d \<Rightarrow> may_poll reg (inflight q))"
  by (cases c) (simp_all add: monitored_def)

lemma range_in_span: "cmd_range c \<subseteq> cmd_span c"
  by (cases c) simp_all

lemma acceptsD:
  assumes "accepts env UNIV bs depth disk inflight" "length ps = unat n * bs" "length (inflight q) < depth"
  shows "\<exists>q'. cmd_writev env lba n t ps d q = (0, q') \<and> disk q' = disk q
       \<and> inflight q' = inflight q @ [(t, Wr (unat lba * bs) (map (\<lambda>p. d (fst p) (snd p)) ps))]"
    "\<exists>q'. cmd_readv env lba n t ps q = (0, q') \<and> disk q' = disk q \<and> inflight q' = inflight q @ [(t, Rd (unat lba * bs) ps)]"
  using assms unfolding accepts_def by (meson subset_UNIV)+

lemma call_in_region:
  assumes "accepts env UNIV bs depth disk inflight" "completes env UNIV disk inflight idle" "a \<notin> reg"
  shows "disk (do_call (monitored reg bs depth inflight env) c q) a = disk q a"
proof -
  have "disk (do_call env c q) a = disk q a"
    if "case c of Call_writev lba n t ps d \<Rightarrow> may_command reg bs depth lba n ps (inflight q)
        | Call_readv lba n t ps \<Rightarrow> may_command reg bs depth lba n ps (inflight q)
        | Call_poll d \<Rightarrow> may_poll reg (inflight q)"
  proof (cases c)
    case (Call_writev lba n t ps d)
    then have "length ps = unat n * bs" "length (inflight q) < depth" using that by (simp_all add: may_command_def)
    from acceptsD(1) [OF assms(1) this, of lba t d] show ?thesis unfolding Call_writev by auto
  next
    case (Call_readv lba n t ps)
    then have "length ps = unat n * bs" "length (inflight q) < depth" using that by (simp_all add: may_command_def)
    from acceptsD(2) [OF assms(1) this, of lba t] show ?thesis unfolding Call_readv by auto
  next
    case (Call_poll d)
    then have ind: "independent (inflight q)" and sp: "\<forall>e \<in> set (inflight q). cmd_span (snd e) \<subseteq> reg"
      using that by (simp_all add: may_poll_def)
    have "\<forall>e \<in> set (inflight q). a \<notin> cmd_range (snd e)" using sp assms(3) range_in_span by blast
    then show ?thesis
      using assms(2) [unfolded completes_def, rule_format, OF ind, of d] unfolding Call_poll by auto
  qed
  then show ?thesis using monitored_call [of reg bs depth inflight env c q] by metis
qed

text \<open>So the others leave to a thread its region, its queue pair and its progress.\<close>

lemma others_keep:
  assumes "shared_ok L bs"
  shows "in_queue L i (others L bs i cs q) = in_queue L i q \<and> idleness_of L i (others L bs i cs q) \<le> idleness_of L i q
    \<and> (\<forall>a \<in> region L i. on_disk L (others L bs i cs q) a = on_disk L q a)"
proof (induction cs arbitrary: q)
  case (Cons jc cs)
  obtain j c where jc: "jc = (j, c)" by (cases jc)
  show ?case
  proof (cases "j = i")
    case True
    then show ?thesis using Cons [of q] by (simp add: jc)
  next
    case False
    note S = shared_okD [OF assms]
    let ?q = "do_call (pair_of L bs j) c q"
    have "in_queue L i ?q = in_queue L i q" "idleness_of L i ?q \<le> idleness_of L i q"
      using monitored_call [of "region L j" bs "qdepth L j" "in_queue L j" "lib L j" c q] S(1,2) [of i j c q] False
      unfolding pair_of_def by auto
    moreover have "on_disk L ?q a = on_disk L q a" if "a \<in> region L i" for a
    proof -
      have "a \<notin> region L j" using S(3) [of i j] False that by blast
      then show ?thesis unfolding pair_of_def by (rule call_in_region [OF S(4,5)])
    qed
    ultimately show ?thesis using Cons [of ?q] False by (auto simp: jc)
  qed
qed simp

subsection \<open>The rely: a thread's view keeps the contract in its region\<close>

lemma own_in [simp]: "a \<in> reg \<Longrightarrow> own reg m a = m a"
  by (simp add: own_def)

lemma own_cong: "(\<And>a. a \<in> reg \<Longrightarrow> m a = m' a) \<Longrightarrow> own reg m = own reg m'"
  by (auto simp: own_def)

lemma own_done: "cmd_span c \<subseteq> reg \<Longrightarrow> cmd_done c d m \<Longrightarrow> cmd_done c d (own reg m)"
  by (cases c) (auto simp: subset_iff)

abbreviation my_disk :: "'q shared_lib \<Rightarrow> nat \<Rightarrow> 'q \<times> nat \<Rightarrow> nat \<Rightarrow> u8" where
  "my_disk L i q \<equiv> own (region L i) (on_disk L (fst q))"

abbreviation my_queue :: "'q shared_lib \<Rightarrow> nat \<Rightarrow> 'q \<times> nat \<Rightarrow> (task_id \<times> nvme_cmd) list" where
  "my_queue L i q \<equiv> in_queue L i (fst q)"

abbreviation my_idleness :: "'q shared_lib \<Rightarrow> nat \<Rightarrow> 'q \<times> nat \<Rightarrow> nat" where
  "my_idleness L i q \<equiv> idleness_of L i (fst q)"

lemma thread_accepts:
  assumes "shared_ok L bs"
  shows "accepts (thread_lib L bs i sched) (region L i) bs (qdepth L i) (my_disk L i) (my_queue L i)"
  unfolding accepts_def
proof (intro allI impI)
  fix lba :: u64 and n :: u32 and t :: task_id and ps :: "(buf_id \<times> nat) list" and d :: dma_mem and qk :: "'a \<times> nat"
  assume ps: "length ps = unat n * bs" "{unat lba * bs..<unat lba * bs + length ps} \<subseteq> region L i"
    and room: "length (my_queue L i qk) < qdepth L i"
  obtain q k where qk: "qk = (q, k)" by (cases qk)
  let ?q = "others L bs i (sched k) q"
  note O = others_keep [OF assms, of i "sched k" q]
  have mc: "may_command (region L i) bs (qdepth L i) lba n ps (in_queue L i ?q)"
    using ps room O by (simp add: may_command_def qk)
  have room': "length (in_queue L i ?q) < qdepth L i" using O room by (simp add: qk)
  note A = acceptsD [OF shared_okD(4) [OF assms] ps(1) room']
  have m: "own (region L i) (on_disk L ?q) = own (region L i) (on_disk L q)" using O by (intro own_cong) simp
  obtain q1 where q1: "cmd_writev (lib L i) lba n t ps d ?q = (0, q1)" "on_disk L q1 = on_disk L ?q"
      "in_queue L i q1 = in_queue L i ?q @ [(t, Wr (unat lba * bs) (map (\<lambda>p. d (fst p) (snd p)) ps))]"
    using A(1) by blast
  obtain q2 where q2: "cmd_readv (lib L i) lba n t ps ?q = (0, q2)" "on_disk L q2 = on_disk L ?q"
      "in_queue L i q2 = in_queue L i ?q @ [(t, Rd (unat lba * bs) ps)]"
    using A(2) by blast
  have "cmd_writev (thread_lib L bs i sched) lba n t ps d qk = (0, q1, Suc k)"
      "cmd_readv (thread_lib L bs i sched) lba n t ps qk = (0, q2, Suc k)"
    using mc q1(1) q2(1) by (simp_all add: thread_lib_def pair_of_def monitored_def qk)
  then show "(\<exists>q'. cmd_writev (thread_lib L bs i sched) lba n t ps d qk = (0, q') \<and> my_disk L i q' = my_disk L i qk
        \<and> my_queue L i q' = my_queue L i qk @ [(t, Wr (unat lba * bs) (map (\<lambda>p. d (fst p) (snd p)) ps))])
      \<and> (\<exists>q'. cmd_readv (thread_lib L bs i sched) lba n t ps qk = (0, q') \<and> my_disk L i q' = my_disk L i qk
        \<and> my_queue L i q' = my_queue L i qk @ [(t, Rd (unat lba * bs) ps)])"
    using q1(2,3) q2(2,3) m O by (simp add: qk)
qed

lemma thread_completes:
  assumes "shared_ok L bs"
  shows "completes (thread_lib L bs i sched) (region L i) (my_disk L i) (my_queue L i) (my_idleness L i)"
  unfolding completes_def
proof (intro allI impI)
  fix d :: dma_mem and qk :: "'a \<times> nat"
  assume ind: "independent (my_queue L i qk)" and sp: "\<forall>e \<in> set (my_queue L i qk). cmd_span (snd e) \<subseteq> region L i"
  obtain q k where qk: "qk = (q, k)" by (cases qk)
  define es where "es = in_queue L i q"
  let ?q = "others L bs i (sched k) q"
  note O = others_keep [OF assms, of i "sched k" q]
  have oe: "in_queue L i ?q = es" using O by (simp add: es_def)
  have e: "independent es" "\<forall>e \<in> set es. cmd_span (snd e) \<subseteq> region L i" using ind sp by (simp_all add: es_def qk)
  from shared_okD(5) [OF assms, unfolded completes_def, rule_format, of i ?q d, unfolded oe, OF e(1)] obtain ts d' q' where
    P: "process_completions (lib L i) 0 d ?q = (int (length ts), map (\<lambda>t. (t, False)) ts, d', q')"
      "distinct ts" "set ts \<subseteq> fst ` set es" "in_queue L i q' = filter (\<lambda>e. fst e \<notin> set ts) es"
      "\<forall>e \<in> set es. fst e \<in> set ts \<longrightarrow> cmd_done (snd e) d' (on_disk L q')"
      "\<forall>a. (\<forall>e \<in> set es. a \<notin> cmd_range (snd e)) \<longrightarrow> on_disk L q' a = on_disk L ?q a"
      "\<forall>b p. (\<forall>e \<in> set es. (b, p) \<notin> cmd_addrs (snd e)) \<longrightarrow> d' b p = d b p"
      "es \<noteq> [] \<longrightarrow> ts \<noteq> [] \<or> idleness_of L i q' < idleness_of L i ?q"
    by auto
  have "may_poll (region L i) (in_queue L i ?q)" using e by (simp add: may_poll_def oe)
  then have pc: "process_completions (thread_lib L bs i sched) 0 d qk = (int (length ts), map (\<lambda>t. (t, False)) ts, d', q', Suc k)"
    using P(1) by (simp add: thread_lib_def pair_of_def monitored_def qk)
  have dn: "\<forall>e \<in> set es. fst e \<in> set ts \<longrightarrow> cmd_done (snd e) d' (own (region L i) (on_disk L q'))"
    using P(5) e(2) own_done by blast
  have fr: "own (region L i) (on_disk L q') a = own (region L i) (on_disk L q) a" if "\<forall>e \<in> set es. a \<notin> cmd_range (snd e)" for a
    using P(6) that O by (simp add: own_def)
  have id: "es \<noteq> [] \<longrightarrow> ts \<noteq> [] \<or> idleness_of L i q' < idleness_of L i q" using P(8) O by linarith
  show "\<exists>ts d' q'. process_completions (thread_lib L bs i sched) 0 d qk = (int (length ts), map (\<lambda>t. (t, False)) ts, d', q')
           \<and> distinct ts \<and> set ts \<subseteq> fst ` set (my_queue L i qk)
           \<and> my_queue L i q' = filter (\<lambda>e. fst e \<notin> set ts) (my_queue L i qk)
           \<and> (\<forall>e \<in> set (my_queue L i qk). fst e \<in> set ts \<longrightarrow> cmd_done (snd e) d' (my_disk L i q'))
           \<and> (\<forall>a. (\<forall>e \<in> set (my_queue L i qk). a \<notin> cmd_range (snd e)) \<longrightarrow> my_disk L i q' a = my_disk L i qk a)
           \<and> (\<forall>b p. (\<forall>e \<in> set (my_queue L i qk). (b, p) \<notin> cmd_addrs (snd e)) \<longrightarrow> d' b p = d b p)
           \<and> (my_queue L i qk \<noteq> [] \<longrightarrow> ts \<noteq> [] \<or> my_idleness L i q' < my_idleness L i qk)"
    by (rule exI [of _ ts], rule exI [of _ d'], rule exI [of _ "(q', Suc k)"], intro conjI)
      (use pc P(2-4,7) dn fr id in \<open>simp_all add: qk es_def [symmetric]\<close>)
qed

lemma thread_contract:
  "shared_ok L bs \<Longrightarrow>
    spdk_contract (thread_lib L bs i sched) (region L i) bs (qdepth L i) (my_disk L i) (my_queue L i) (my_idleness L i)"
  by (simp add: spdk_contract_def thread_accepts thread_completes)

text \<open>The abstract device sees no more of the disk than the region.\<close>

lemma random_range:
  assumes "random_ok reg bs d off len"
  shows "{unat off..<unat off + unat len} \<subseteq> reg"
proof -
  have r: "unat (dev_block_size d) = bs" "pow2_align (dev_block_size d)"
      "{unat off div bs * bs..<(unat off + unat len + bs - 1) div bs * bs} \<subseteq> reg"
    using assms by (simp_all add: random_ok_def)
  obtain k where "k < 64" "dev_block_size d = 2 ^ k" using r(2) by (auto simp: pow2_align_def)
  then have pos: "0 < bs" using r(1) by (auto simp: unat_pow2)
  have "x \<le> (x + bs - 1) div bs * bs" for x
    using pos mod_less_divisor [OF pos, of "x + bs - 1"] div_mult_mod_eq [of "x + bs - 1" bs] by linarith
  then have "unat off + unat len \<le> (unat off + unat len + bs - 1) div bs * bs" .
  moreover have "unat off div bs * bs \<le> unat off" by simp
  ultimately have "{unat off..<unat off + unat len} \<subseteq> {unat off div bs * bs..<(unat off + unat len + bs - 1) div bs * bs}"
    by simp
  then show ?thesis using r(3) by blast
qed

lemma own_write: "{a..<a + n} \<subseteq> reg \<Longrightarrow> memcpy a n u b (own reg m) = own reg (memcpy a n u b m)"
  by (auto simp: memcpy_def own_def fun_eq_iff subset_iff)

lemma own_read:
  assumes "{a..<a + n} \<subseteq> reg"
  shows "memcpy b n (own reg m) a u = memcpy b n m a u"
proof -
  have "a + x - b \<in> reg" if "b \<le> x" "x < b + n" for x
    using assms that by (intro subsetD [OF assms]) auto
  then show ?thesis by (auto simp: memcpy_def own_def fun_eq_iff)
qed

lemma spec_own:
  assumes "op_ok reg bs d op" "spec_op op (m, u) = (m', u')"
  shows "spec_op op (own reg m, u) = (own reg m', u')"
  using assms by (cases op) (auto simp: request_ok_def own_write own_read dest!: random_range)

lemma specs_own:
  "\<forall>op \<in> set ops. op_ok reg bs d op \<Longrightarrow> fold spec_op ops (m, u) = (m', u') \<Longrightarrow>
    fold spec_op ops (own reg m, u) = (own reg m', u')"
proof (induction ops arbitrary: m u)
  case (Cons op ops)
  obtain m1 u1 where 1: "spec_op op (m, u) = (m1, u1)" by fastforce
  have "spec_op op (own reg m, u) = (own reg m1, u1)" 
    using spec_own [of reg bs d op m u m1 u1] 1 Cons.prems(1) by simp
  then show ?case using Cons.IH [of m1 u1] Cons.prems 1 by simp
qed simp

subsection \<open>A device with a queue pair for every thread\<close>

type_synonym fifos = "(nat \<Rightarrow> u8) \<times> (nat \<Rightarrow> (task_id \<times> nvme_cmd) list \<times> bool)"

definition fifos_spdk :: "nat \<Rightarrow> nat \<Rightarrow> fifos spdk" where
  "fifos_spdk bs i =
     \<lparr>cmd_writev = (\<lambda>lba n t ps d (m, f).
        case cmd_writev (fifo_spdk bs) lba n t ps d (m, f i) of (r, m, x) \<Rightarrow> (r, m, f(i := x))),
      cmd_readv = (\<lambda>lba n t ps (m, f).
        case cmd_readv (fifo_spdk bs) lba n t ps (m, f i) of (r, m, x) \<Rightarrow> (r, m, f(i := x))),
      cmd_flush = (\<lambda>t q. (0, q)),
      process_completions = (\<lambda>n d (m, f).
        case process_completions (fifo_spdk bs) n d (m, f i) of (r, cs, d, m, x) \<Rightarrow> (r, cs, d, m, f(i := x)))\<rparr>"

definition fifos_lib :: "fifos shared_lib" where
  "fifos_lib = \<lparr>lib = fifos_spdk 512, region = (\<lambda>j. {j * 4096..<Suc j * 4096}), qdepth = (\<lambda>_. 2), on_disk = fst,
     in_queue = (\<lambda>i q. fifo_inflight (fst q, snd q i)), idleness_of = (\<lambda>i q. fifo_idle (fst q, snd q i))\<rparr>"

lemma fifos_accepts:
  "accepts (fifos_spdk bs i) UNIV bs depth fst (\<lambda>q. fifo_inflight (fst q, snd q i))"
  by (auto simp: accepts_def fifos_spdk_def fifo_spdk_def fifo_inflight_def split: prod.splits)

lemma fifos_completes:
  "completes (fifos_spdk bs i) UNIV fst (\<lambda>q. fifo_inflight (fst q, snd q i)) (\<lambda>q. fifo_idle (fst q, snd q i))"
  unfolding completes_def
proof (intro allI impI)
  fix d and q :: fifos
  assume ind: "independent (fifo_inflight (fst q, snd q i))"
  obtain m f where q: "q = (m, f)" by (cases q)
  have sp: "cmd_span (snd e) \<subseteq> UNIV" for e :: "task_id \<times> nvme_cmd" by simp
  from fifo_completes [of bs, unfolded completes_def, rule_format, OF ind sp, of d] obtain ts d' m' x where
    P: "process_completions (fifo_spdk bs) 0 d (m, f i) = (int (length ts), map (\<lambda>t. (t, False)) ts, d', m', x)"
      "distinct ts" "set ts \<subseteq> fst ` set (fifo_inflight (m, f i))"
      "fifo_inflight (m', x) = filter (\<lambda>e. fst e \<notin> set ts) (fifo_inflight (m, f i))"
      "\<forall>e \<in> set (fifo_inflight (m, f i)). fst e \<in> set ts \<longrightarrow> cmd_done (snd e) d' m'"
      "\<forall>a. (\<forall>e \<in> set (fifo_inflight (m, f i)). a \<notin> cmd_range (snd e)) \<longrightarrow> m' a = m a"
      "\<forall>b p. (\<forall>e \<in> set (fifo_inflight (m, f i)). (b, p) \<notin> cmd_addrs (snd e)) \<longrightarrow> d' b p = d b p"
      "fifo_inflight (m, f i) \<noteq> [] \<longrightarrow> ts \<noteq> [] \<or> fifo_idle (m', x) < fifo_idle (m, f i)"
    by (auto simp: q fifo_disk_def)
  have "process_completions (fifos_spdk bs i) 0 d q = (int (length ts), map (\<lambda>t. (t, False)) ts, d', m', f(i := x))"
    by (simp add: fifos_spdk_def q P(1))
  then show "\<exists>ts d' q'. process_completions (fifos_spdk bs i) 0 d q = (int (length ts), map (\<lambda>t. (t, False)) ts, d', q')
       \<and> distinct ts \<and> set ts \<subseteq> fst ` set (fifo_inflight (fst q, snd q i))
       \<and> fifo_inflight (fst q', snd q' i) = filter (\<lambda>e. fst e \<notin> set ts) (fifo_inflight (fst q, snd q i))
       \<and> (\<forall>e \<in> set (fifo_inflight (fst q, snd q i)). fst e \<in> set ts \<longrightarrow> cmd_done (snd e) d' (fst q'))
       \<and> (\<forall>a. (\<forall>e \<in> set (fifo_inflight (fst q, snd q i)). a \<notin> cmd_range (snd e)) \<longrightarrow> fst q' a = fst q a)
       \<and> (\<forall>b p. (\<forall>e \<in> set (fifo_inflight (fst q, snd q i)). (b, p) \<notin> cmd_addrs (snd e)) \<longrightarrow> d' b p = d b p)
       \<and> (fifo_inflight (fst q, snd q i) \<noteq> [] \<longrightarrow> ts \<noteq> [] \<or> fifo_idle (fst q', snd q' i) < fifo_idle (fst q, snd q i))"
    using P(2-8) by (intro exI [of _ ts] exI [of _ d'] exI [of _ "(m', f(i := x))"]) (simp add: q)
qed

lemma fifos_other:
  "i \<noteq> j \<Longrightarrow> snd (do_call (fifos_spdk bs j) c q) i = snd q i"
  by (cases c; cases q) (auto simp: fifos_spdk_def split: prod.splits)

lemma fifos_ok: "shared_ok fifos_lib 512"
proof -
  have "region fifos_lib i \<inter> region fifos_lib j = {}" if "i < j" for i j :: nat
  proof -
    have "Suc i * 4096 \<le> j * 4096" using that by (intro mult_right_mono) simp_all
    then show ?thesis by (auto simp: fifos_lib_def)
  qed
  then have "regions_apart fifos_lib" unfolding regions_apart_def by (metis Int_commute linorder_neqE_nat)
  moreover have "pairs_apart fifos_lib"
    by (simp add: pairs_apart_def fifos_lib_def fifo_inflight_def fifo_idle_def fifos_other)
  ultimately show ?thesis
    using fifos_accepts fifos_completes by (simp add: shared_ok_def spdk_contract_def fifos_lib_def)
qed

definition fresh_queue :: "nat option \<Rightarrow> 'q \<Rightarrow> 'q queue" where
  "fresh_queue p q = \<lparr>tasks = (\<lambda>_. None), next_task = 0, ioc = new_ioc p False, data_buf_list = [], dma = (\<lambda>_ _. 0),
     umem = of_nat, callbacks = [], q_init = False, q_block_size = 0, max_queue_depth = 0, current_queue_depth = 0, qp = q\<rparr>"

text \<open>Thread 1 of the samples: a write of its second sector and a poll, whenever thread 0 calls.\<close>

definition busy_neighbour :: "nat \<Rightarrow> (nat \<times> lib_call) list" where
  "busy_neighbour k = [(1, Call_writev 9 1 k (map (\<lambda>p. (5, p)) [0..<512]) (\<lambda>_ _. of_nat k)), (1, Call_poll (\<lambda>_ _. 0))]"

subsection \<open>Properties\<close>

text \<open>C2: threads that keep to their own regions do not disturb each other, however their calls of the library are
  interleaved. Before each call of thread \<open>i\<close> the others make any calls through their queue pairs; the
  operations of \<open>i\<close> still return 0, refine the plain array in its region, tell its context once per asynchronous
  request, and leave no task and its pool as it was; and no call of \<open>i\<close> left its region or what the
  library documents, since its monitor refused none.\<close>

theorem threads_share_device:
  fixes w :: "('q \<times> nat) queue"
  assumes "shared_ok L bs" "thread_queue e w = Ok w1" "queue_idle bs w1" "unat (max_queue_depth w1) = qdepth L i"
    "in_queue L i (fst (qp w)) = []" "\<forall>t. next_task w \<le> t \<longrightarrow> tasks w t = None"
    "\<forall>op \<in> set ops. op_ok (region L i) bs d op" "0 < aio_count ops \<Longrightarrow> ioc_clear (ioc w)"
    "fold spec_op ops (on_disk L (fst (qp w)), umem w) = (m, u)"
  shows "\<exists>n0 w'. (\<forall>n \<ge> n0. run_ops n e (thread_lib L bs i sched) d ops w = Ok (replicate (length ops) 0, w'))
    \<and> (\<forall>a \<in> region L i. on_disk L (fst (qp w')) a = m a) \<and> umem w' = u
    \<and> callbacks w' = callbacks w @ (case ioc_priv (ioc w) of None \<Rightarrow> [] | Some p \<Rightarrow> replicate (aio_count ops) p)
    \<and> ioc w' = (ioc w)\<lparr>notified := notified (ioc w) + (if ioc_priv (ioc w) = None then aio_count ops else 0)\<rparr>
    \<and> tasks w' = tasks w \<and> (\<exists>w2. thread_queue e w' = Ok w2 \<and> mset (data_buf_list w2) = mset (data_buf_list w1))"
proof -
  have "queue_ready e w w1 (region L i) bs (thread_lib L bs i sched) (my_disk L i) (my_queue L i) (my_idleness L i)"
    using thread_contract [OF assms(1), of i sched] assms(2-6) by (simp add: queue_ready_def)
  from run_ops_refines [OF this assms(7,8)] obtain n0 w' where
    R: "\<forall>n \<ge> n0. run_ops n e (thread_lib L bs i sched) d ops w = Ok (replicate (length ops) 0, w')"
      "(my_disk L i (qp w'), umem w') = fold spec_op ops (my_disk L i (qp w), umem w)" "told (aio_count ops) w w'"
      "left_ready e w w1 w' (region L i) bs (thread_lib L bs i sched) (my_disk L i) (my_queue L i) (my_idleness L i)"
    by blast
  have D: "my_disk L i (qp w') = own (region L i) m" "umem w' = u"
    using R(2) specs_own [OF assms(7,9)] by simp_all
  have "on_disk L (fst (qp w')) a = m a" if "a \<in> region L i" for a
    using fun_cong [OF D(1), of a] that by simp
  then show ?thesis
    using R(1,3,4) D(2) unfolding told_def left_ready_def queue_ready_def by blast
qed

lemma threads_share_device_witness:
  "\<exists>n w'. run_ops n sample_env (thread_lib fifos_lib 512 0 busy_neighbour) sample_device
       [Op_write 1024 1024 7, Op_read 1536 512 9000] (fresh_queue None ((\<lambda>_. 0, \<lambda>_. ([], False)), 0)) = Ok ([0, 0], w')
     \<and> fst (fst (qp w')) 1025 = 8 \<and> umem w' 9000 = 7"
proof -
  let ?w = "fresh_queue None ((\<lambda>_. 0, \<lambda>_. ([], False)), 0) :: (fifos \<times> nat) queue"
  let ?ops = "[Op_write 1024 1024 7, Op_read 1536 512 9000]"
  have "first_use ?w (\<lambda>_. [])" by (simp add: first_use_def fresh_queue_def)
  then obtain w1 where w1: "thread_queue sample_env ?w = Ok w1" "queue_idle 512 w1" "max_queue_depth w1 = env_queue_size sample_env - 1"
    using first_use_queue [OF sample_env_ok] by blast
  have c: "unat (max_queue_depth w1) = qdepth fifos_lib 0" "in_queue fifos_lib 0 (fst (qp ?w)) = []"
      "\<forall>t. next_task ?w \<le> t \<longrightarrow> tasks ?w t = None"
    by (simp_all add: w1(3) sample_env_def fifos_lib_def fresh_queue_def fifo_inflight_def)
  have ok: "\<forall>op \<in> set ?ops. op_ok (region fifos_lib 0) 512 sample_device op"
    by (auto simp: request_ok_def read_room_def io_in_range_def fifos_lib_def)
  have k: "ioc_clear (ioc ?w)" by (simp add: fresh_queue_def)
  obtain m u where mu: "fold spec_op ?ops (on_disk fifos_lib (fst (qp ?w)), umem ?w) = (m, u)" by fastforce
  from threads_share_device [OF fifos_ok w1(1,2) c ok k mu, of busy_neighbour] obtain n0 w' where
    R: "\<forall>n \<ge> n0. run_ops n sample_env (thread_lib fifos_lib 512 0 busy_neighbour) sample_device ?ops ?w = Ok ([0, 0], w')"
      "\<forall>a \<in> region fifos_lib 0. on_disk fifos_lib (fst (qp w')) a = m a" "umem w' = u"
    by auto
  have "m 1025 = 8" "u 9000 = 7" using mu by (auto simp: memcpy_def fresh_queue_def)
  moreover have "fst (fst (qp w')) 1025 = m 1025" using R(2) by (simp add: fifos_lib_def)
  ultimately show ?thesis using R(1,3) by (intro exI [of _ n0] exI [of _ w'] conjI) simp_all
qed

end
