(* ===== verification/Submit_Race.thy ===== *)
theory Submit_Race
  imports Nvme_Device
begin

section \<open>An IOContext shared by threads: the head of NVMEDevice::aio\_submit\<close>

text \<open>
  \<open>aio_submit\<close> takes the pending tasks of its context in several accesses, and a comment in the source asks
  what happens when threads share a context. Here each access is a step of its thread, and a schedule is the
  list of the threads in the order of their steps; \<open>nvme_task_first\<close>, a plain pointer, is read and written as if it were
  atomic. What a thread does with the chain that it took is \<open>aio_submit\<close>
  in \<open>Nvme_Device\<close>.
\<close>

subsection \<open>The accesses\<close>

datatype submit_pc =
  Sub_start
| Sub_pending int
| Sub_go int task_id
| Sub_added int task_id
| Sub_taken task_id
| Sub_checked task_id
| Sub_handle task_id
| Sub_nothing
| Sub_assert_fails

record submit_sys =
  ss_pending :: int
  ss_running :: int
  ss_first :: "task_id option"
  ss_pc :: "nat \<Rightarrow> submit_pc"

definition goto :: "nat \<Rightarrow> submit_pc \<Rightarrow> submit_sys \<Rightarrow> submit_sys" where
  "goto t p S = S\<lparr>ss_pc := (ss_pc S)(t := p)\<rparr>"

definition submit_step :: "nat \<Rightarrow> submit_sys \<Rightarrow> submit_sys" where
  "submit_step t S =
     (case ss_pc S t of
        Sub_start \<Rightarrow> goto t (Sub_pending (ss_pending S)) S
      | Sub_pending p \<Rightarrow>
          goto t (case ss_first S of None \<Rightarrow> Sub_nothing | Some f \<Rightarrow> if p \<noteq> 0 then Sub_go p f else Sub_nothing) S
      | Sub_go p f \<Rightarrow> goto t (Sub_added p f) (S\<lparr>ss_running := ss_running S + p\<rparr>)
      | Sub_added p f \<Rightarrow> goto t (Sub_taken f) (S\<lparr>ss_pending := ss_pending S - p\<rparr>)
      | Sub_taken f \<Rightarrow> goto t (if ss_pending S = 0 then Sub_checked f else Sub_assert_fails) S
      | Sub_checked f \<Rightarrow> goto t (Sub_handle f) (S\<lparr>ss_first := None\<rparr>)
      | _ \<Rightarrow> S)"

text \<open>A failed assertion ends the process: no thread takes a step after it.\<close>

definition crashed :: "submit_sys \<Rightarrow> bool" where
  "crashed S \<longleftrightarrow> (\<exists>t. ss_pc S t = Sub_assert_fails)"

definition submit_start :: "nat \<Rightarrow> task_id \<Rightarrow> submit_sys" where
  "submit_start k f = \<lparr>ss_pending = int k, ss_running = 0, ss_first = Some f, ss_pc = (\<lambda>_. Sub_start)\<rparr>"

inductive submit_run :: "nat set \<Rightarrow> submit_sys \<Rightarrow> submit_sys \<Rightarrow> bool" for T where
  run_refl: "submit_run T S S"
| run_step: "submit_run T S U \<Longrightarrow> \<not> crashed U \<Longrightarrow> t \<in> T \<Longrightarrow> submit_run T S (submit_step t U)"

text \<open>The thread has the chain, or is about to.\<close>

definition has_chain :: "submit_sys \<Rightarrow> nat \<Rightarrow> bool" where
  "has_chain S t \<longleftrightarrow> (\<exists>f. ss_pc S t = Sub_checked f \<or> ss_pc S t = Sub_handle f)"

subsection \<open>Two threads\<close>

fun taken :: "submit_pc \<Rightarrow> bool" where
  "taken (Sub_taken f) = True"
| "taken (Sub_checked f) = True"
| "taken (Sub_handle f) = True"
| "taken Sub_assert_fails = True"
| "taken _ = False"

fun loaded_ok :: "int \<Rightarrow> submit_pc \<Rightarrow> bool" where
  "loaded_ok k (Sub_pending p) \<longleftrightarrow> p = 0 \<or> p = k"
| "loaded_ok k (Sub_go p f) \<longleftrightarrow> p = k"
| "loaded_ok k (Sub_added p f) \<longleftrightarrow> p = k"
| "loaded_ok k _ \<longleftrightarrow> True"

definition two_inv :: "int \<Rightarrow> nat \<Rightarrow> nat \<Rightarrow> submit_sys \<Rightarrow> bool" where
  "two_inv k t u S \<longleftrightarrow>
     ss_pending S = k - (if taken (ss_pc S t) then k else 0) - (if taken (ss_pc S u) then k else 0)
   \<and> loaded_ok k (ss_pc S t) \<and> loaded_ok k (ss_pc S u) \<and> \<not> (has_chain S t \<and> has_chain S u)"

lemma two_inv_sym: "two_inv k t u S \<Longrightarrow> two_inv k u t S"
  by (auto simp: two_inv_def)

lemma has_chain_taken: "has_chain S t \<Longrightarrow> taken (ss_pc S t)"
  by (auto simp: has_chain_def)

lemma step_other: "u \<noteq> t \<Longrightarrow> ss_pc (submit_step t S) u = ss_pc S u"
  by (cases "ss_pc S t") (simp_all add: submit_step_def goto_def)

lemma two_inv_step:
  assumes I: "two_inv k t u S" and "0 < k" "u \<noteq> t"
  shows "two_inv k t u (submit_step t S)"
proof -
  have o: "ss_pc (submit_step t S) u = ss_pc S u" "has_chain (submit_step t S) u = has_chain S u"
    using step_other [OF assms(3)] by (simp_all add: has_chain_def)
  note D = I [unfolded two_inv_def] and c = has_chain_taken [of S u]
  show ?thesis
    unfolding two_inv_def o using D c assms(2)
    by (cases "ss_pc S t")
      (auto simp: submit_step_def goto_def has_chain_def split: if_splits option.splits)
qed

lemma two_inv_run: "submit_run T S U \<Longrightarrow> T \<subseteq> {0, 1} \<Longrightarrow> 0 < k \<Longrightarrow> two_inv k 0 1 S \<Longrightarrow> two_inv k 0 1 U"
proof (induction rule: submit_run.induct)
  case (run_step S U t)
  then have U: "two_inv k 0 1 U" "t = 0 \<or> t = 1" by auto
  show ?case
    using U two_inv_step [OF U(1) run_step(6)] two_inv_sym [OF two_inv_step [OF two_inv_sym [OF U(1)] run_step(6)]] by auto
qed

subsection \<open>Schedules\<close>

fun run_schedule :: "nat list \<Rightarrow> submit_sys \<Rightarrow> submit_sys option" where
  "run_schedule [] S = Some S"
| "run_schedule (t # ts) S =
     (let U = submit_step t S in if ss_pc U t = Sub_assert_fails then None else run_schedule ts U)"

lemma run_schedule_run:
  "run_schedule ts U = Some V \<Longrightarrow> \<not> crashed U \<Longrightarrow> set ts \<subseteq> T \<Longrightarrow> submit_run T S U \<Longrightarrow> submit_run T S V"
proof (induction ts arbitrary: U)
  case (Cons t ts)
  let ?U = "submit_step t U"
  have n: "ss_pc ?U t \<noteq> Sub_assert_fails" "run_schedule ts ?U = Some V" using Cons.prems(1) by (auto simp: Let_def split: if_splits)
  have "ss_pc ?U u = ss_pc U u" if "u \<noteq> t" for u
    using that by (cases "ss_pc U t") (auto simp: submit_step_def goto_def)
  then have "\<not> crashed ?U" using Cons.prems(2) n(1) unfolding crashed_def by metis
  moreover have "submit_run T S ?U" using Cons.prems(2-4) by (intro run_step) auto
  ultimately show ?case using Cons.IH [OF n(2)] Cons.prems(3) by simp
qed simp

text \<open>C22: threads that share an \<open>IOContext\<close>. With two, the assertion of \<open>aio_submit\<close> is a guard: in every
  interleaving at most one thread gets the pending chain. With three it is not: there is an interleaving in which
  no assertion fails and all three submit the same chain.\<close>

theorem shared_context_submits:
  assumes "0 < k"
  shows "(\<forall>S. submit_run {0, 1} (submit_start k f) S \<longrightarrow> \<not> (has_chain S 0 \<and> has_chain S 1))
    \<and> (\<exists>S. submit_run {0, 1, 2} (submit_start k f) S \<and> \<not> crashed S
         \<and> ss_pc S 0 = Sub_handle f \<and> ss_pc S 1 = Sub_handle f \<and> ss_pc S 2 = Sub_handle f \<and> ss_running S = int k)"
proof (intro conjI allI impI)
  fix S assume "submit_run {0, 1} (submit_start k f) S"
  moreover have "two_inv (int k) 0 1 (submit_start k f)" by (simp add: two_inv_def submit_start_def has_chain_def)
  ultimately have "two_inv (int k) 0 1 S" using two_inv_run assms by auto
  then show "\<not> (has_chain S 0 \<and> has_chain S 1)" by (simp add: two_inv_def)
next
  let ?ts = "[0, 0, 1, 1, 0, 0, 0, 1, 1, 2, 2, 2, 2, 2, 1, 0, 1, 2]"
  define V where "V = \<lparr>ss_pending = 0, ss_running = int k, ss_first = None,
     ss_pc = (\<lambda>t. if t \<in> {0, 1, 2} then Sub_handle f else Sub_start)\<rparr>"
  have "run_schedule ?ts (submit_start k f) = Some V"
    using assms by (simp add: submit_step_def goto_def submit_start_def V_def fun_eq_iff)
  moreover have "\<not> crashed (submit_start k f)" by (simp add: crashed_def submit_start_def)
  ultimately have "submit_run {0, 1, 2} (submit_start k f) V"
    using run_schedule_run [of ?ts "submit_start k f" V "{0, 1, 2}"] run_refl by simp
  then show "\<exists>S. submit_run {0, 1, 2} (submit_start k f) S \<and> \<not> crashed S
      \<and> ss_pc S 0 = Sub_handle f \<and> ss_pc S 1 = Sub_handle f \<and> ss_pc S 2 = Sub_handle f \<and> ss_running S = int k"
    by (intro exI [of _ V]) (simp add: V_def crashed_def)
qed

lemma shared_context_submits_witness:
  "\<exists>S. submit_run {0, 1, 2} (submit_start 4 7) S \<and> ss_pc S 1 = Sub_handle 7 \<and> ss_pc S 2 = Sub_handle 7"
  using shared_context_submits [of 4 7] by auto

end
