(* ===== verification/Device_Dispatch.thy ===== *)
theory Device_Dispatch
  imports Device_Spec
begin

section \<open>Calls through BlockDevice: block\_device.hpp, kernel\_device.hpp\<close>

text \<open>
  A caller has a \<open>BlockDevice*\<close> from \<open>BlockDevice::create\<close>; its virtual calls go to \<open>NVMEDevice\<close>, modelled
  in \<open>Nvme_Device\<close>, or to \<open>KernelDevice\<close>, whose operations are stubs. Here are the stubs, the
  virtual functions that the base class defines, the dispatch, and what a caller gets from either.
\<close>

subsection \<open>The base class\<close>

definition supported_bdev_label :: "device_class \<Rightarrow> bool" where
  "supported_bdev_label cls = (case cls of KernelDevice \<Rightarrow> True | NVMEDevice \<Rightarrow> False)"

definition is_rotational :: "'d block_device_scheme \<Rightarrow> bool" where
  "is_rotational d = rotational d"

definition reset_all_zones :: "block_device \<Rightarrow> unit res" where
  "reset_all_zones d = c_assert (is_smr d) (Ok ())"

definition reset_zone :: "u64 \<Rightarrow> block_device \<Rightarrow> unit res" where
  "reset_zone zone d = c_assert (is_smr d) (Ok ())"

definition get_zones :: "block_device \<Rightarrow> u64 list res" where
  "get_zones d = c_assert (is_smr d) (Ok [])"

definition get_size :: "'d block_device_scheme \<Rightarrow> u64" where
  "get_size d = dev_size d"

definition get_block_size :: "'d block_device_scheme \<Rightarrow> u64" where
  "get_block_size d = dev_block_size d"

definition get_optimal_io_size :: "'d block_device_scheme \<Rightarrow> u64" where
  "get_optimal_io_size d = optimal_io_size d"

text \<open>\<open>get_devname\<close> of the base class leaves its argument; \<open>NVMEDevice\<close> does not override it.\<close>

definition base_get_devname :: "string \<Rightarrow> int \<times> string" where
  "base_get_devname out = (- ENOENT, out)"

definition get_numa_node :: "int \<Rightarrow> int \<times> int" where
  "get_numa_node node = (- EOPNOTSUPP, node)"

definition virtual_get_devname :: "device_class \<Rightarrow> string \<Rightarrow> int \<times> string" where
  "virtual_get_devname cls devname =
     (case cls of KernelDevice \<Rightarrow> kernel_get_devname devname | NVMEDevice \<Rightarrow> base_get_devname [])"

subsection \<open>KernelDevice\<close>

definition kernel_aio_submit :: "'w \<Rightarrow> 'w" where "kernel_aio_submit w = w"

definition kernel_collect_metadata :: "string \<Rightarrow> (string \<rightharpoonup> string) \<Rightarrow> int \<times> (string \<rightharpoonup> string)" where
  "kernel_collect_metadata prefix pm = (0, pm)"

definition kernel_read :: "u64 \<Rightarrow> u64 \<Rightarrow> nat \<Rightarrow> 'w \<Rightarrow> int \<times> 'w" where "kernel_read off len buf w = (0, w)"

definition kernel_read_random :: "u64 \<Rightarrow> u64 \<Rightarrow> nat \<Rightarrow> 'w \<Rightarrow> int \<times> 'w" where "kernel_read_random off len buf w = (0, w)"

definition kernel_aio_read :: "u64 \<Rightarrow> u64 \<Rightarrow> nat \<Rightarrow> 'w \<Rightarrow> int \<times> 'w" where "kernel_aio_read off len buf w = (0, w)"

definition kernel_write :: "u64 \<Rightarrow> u64 \<Rightarrow> nat \<Rightarrow> 'w \<Rightarrow> int \<times> 'w" where "kernel_write off len buf w = (0, w)"

definition kernel_aio_write :: "u64 \<Rightarrow> u64 \<Rightarrow> nat \<Rightarrow> 'w \<Rightarrow> int \<times> 'w" where "kernel_aio_write off len buf w = (0, w)"

definition kernel_flush :: "'w \<Rightarrow> int \<times> 'w" where "kernel_flush w = (0, w)"

definition kernel_invalidate_cache :: "u64 \<Rightarrow> u64 \<Rightarrow> 'w \<Rightarrow> int \<times> 'w" where "kernel_invalidate_cache off len w = (0, w)"

definition kernel_open :: "string \<Rightarrow> block_device \<Rightarrow> int \<times> block_device" where "kernel_open path d = (0, d)"

definition kernel_close :: "block_device \<Rightarrow> block_device" where "kernel_close d = d"

subsection \<open>The dispatch\<close>

fun kernel_op :: "dev_op \<Rightarrow> 'w \<Rightarrow> int \<times> 'w" where
  "kernel_op (Op_write off len buf) w = kernel_write off len buf w"
| "kernel_op (Op_read off len buf) w = kernel_read off len buf w"
| "kernel_op (Op_read_random off len buf) w = kernel_read_random off len buf w"
| "kernel_op (Op_aio_write off len buf) w = (case kernel_aio_write off len buf w of (r, w) \<Rightarrow> (r, kernel_aio_submit w))"
| "kernel_op (Op_aio_read off len buf) w = (case kernel_aio_read off len buf w of (r, w) \<Rightarrow> (r, kernel_aio_submit w))"
| "kernel_op Op_flush w = kernel_flush w"
| "kernel_op (Op_invalidate off len) w = kernel_invalidate_cache off len w"

definition virtual_op ::
    "nat \<Rightarrow> queue_env \<Rightarrow> 'q spdk \<Rightarrow> 'd block_device_scheme \<Rightarrow> device_class \<Rightarrow> dev_op \<Rightarrow> 'q queue \<Rightarrow> (int \<times> 'q queue) res" where
  "virtual_op n e env d cls op w =
     (case cls of KernelDevice \<Rightarrow> Ok (kernel_op op w) | NVMEDevice \<Rightarrow> run_op n e env d op w)"

fun virtual_ops ::
    "nat \<Rightarrow> queue_env \<Rightarrow> 'q spdk \<Rightarrow> 'd block_device_scheme \<Rightarrow> device_class \<Rightarrow> dev_op list \<Rightarrow> 'q queue \<Rightarrow> (int list \<times> 'q queue) res" where
  "virtual_ops n e env d cls [] w = Ok ([], w)"
| "virtual_ops n e env d cls (op # ops) w =
     rbind (virtual_op n e env d cls op w) (\<lambda>(r, w). rbind (virtual_ops n e env d cls ops w) (\<lambda>(rs, w). Ok (r # rs, w)))"

lemma virtual_nvme: "virtual_ops n e env d NVMEDevice ops w = run_ops n e env d ops w"
  by (induction ops arbitrary: w) (simp_all add: virtual_op_def)

lemma kernel_op_nothing: "kernel_op op w = (0, w)"
  by (cases op) (simp_all add: kernel_write_def kernel_read_def kernel_read_random_def kernel_aio_write_def kernel_aio_read_def
      kernel_aio_submit_def kernel_flush_def kernel_invalidate_cache_def)

lemma virtual_kernel: "virtual_ops n e env d KernelDevice ops w = Ok (replicate (length ops) 0, w)"
  by (induction ops) (simp_all add: virtual_op_def kernel_op_nothing)

text \<open>Which class a caller gets.\<close>

lemma create_class:
  "create readlink name path = Ok cls \<Longrightarrow>
    cls = (if name = ''spdk'' \<or> name = [] \<and> nvme_support readlink path then NVMEDevice else KernelDevice)
    \<and> (name = [] \<or> name = ''aio'' \<or> name = ''spdk'')"
  by (auto simp: create_def create_with_type_def detect_device_type_def device_type_from_name_def split: if_splits)

lemma create_fails: "name \<notin> {[], ''aio'', ''spdk''} \<Longrightarrow> create readlink name path = Fault AssertFail"
  by (simp add: create_def create_with_type_def device_type_from_name_def)

subsection \<open>Properties\<close>

text \<open>C15: what a caller of \<open>BlockDevice::create\<close> gets. With type name \<open>spdk\<close>, or with none and a path that is a link to
  an \<open>spdk:\<close> target, every sequence of operations in range returns 0 and refines the array of bytes. With
  \<open>aio\<close>, or with none and any other path, every operation returns 0 too, but it does nothing at all: what was
  written is lost, and reads leave the caller's memory as it was.\<close>

theorem created_device:
  fixes w :: "'q queue"
  assumes "create readlink name path = Ok cls" "queue_ready e w w1 reg bs env disk inflight idleness"
    "\<forall>op \<in> set ops. op_ok reg bs d op" "0 < aio_count ops \<Longrightarrow> ioc_clear (ioc w)"
  shows "\<exists>n0 w'. (\<forall>n \<ge> n0. virtual_ops n e env d cls ops w = Ok (replicate (length ops) 0, w'))
    \<and> (if name = ''spdk'' \<or> name = [] \<and> nvme_support readlink path
       then (disk (qp w'), umem w') = fold spec_op ops (disk (qp w), umem w) else w' = w)"
proof (cases "name = ''spdk'' \<or> name = [] \<and> nvme_support readlink path")
  case True
  then have c: "cls = NVMEDevice" using create_class [OF assms(1)] by simp
  show ?thesis
    using run_ops_refines [OF assms(2-4)] True unfolding c virtual_nvme by auto
next
  case False
  then have c: "cls = KernelDevice" using create_class [OF assms(1)] by simp
  show ?thesis using False unfolding c virtual_kernel by auto
qed

lemma created_device_witness:
  "\<exists>n w'. virtual_ops n sample_env (fifo_spdk 512) sample_device KernelDevice [Op_write 1024 1024 7] (sample_queue None) = Ok ([0], w')
     \<and> w' = sample_queue None"
proof -
  obtain w1 where q: "queue_ready sample_env (sample_queue None) w1 UNIV 512 (fifo_spdk 512) fifo_disk fifo_inflight fifo_idle"
    using sample_ready by blast
  have c: "create (\<lambda>_. None) [] ''/dev/nvme0'' = Ok KernelDevice"
    by (simp add: create_def create_with_type_def detect_device_type_def nvme_support_def)
  have ok: "\<forall>op \<in> set [Op_write 1024 1024 7]. op_ok UNIV 512 sample_device op" using sample_request by simp
  have k: "ioc_clear (ioc (sample_queue None))" by simp
  from created_device [OF c q ok k] show ?thesis by (auto simp: nvme_support_def)
qed

text \<open>An NVMe device never lists itself: it has a name, but does not override \<open>get_devname\<close>.\<close>

theorem nvme_device_unlisted: "get_devices (virtual_get_devname NVMEDevice nm) ls = (0, ls)"
  by (simp add: get_devices_def virtual_get_devname_def base_get_devname_def)

end
