(* ===== verification/Async_Signals.thy ===== *)
theory Async_Signals
  imports Transition_Systems
begin

section \<open>The asynchronous signal handler: common/signal\_handler\_async.cpp\<close>

text \<open>
  A signal only writes a byte to a pipe of its own; a thread waits on all the pipes and calls the
  registered functions. This theory has the operations and the thread, as the code has them one after
  the other; \<open>Signal_Races\<close> interleaves their sections. The line that the hook prints is left out. Functions and threads are numbers;
  the texts of signals, of process names and of pointers come from the system (\<open>sig_env\<close>).
\<close>

subsection \<open>State\<close>

record siginfo =
  si_code :: int
  si_value_int :: int
  si_value_ptr :: nat
  si_errno :: int
  si_pid :: int
  si_uid :: nat
  si_addr :: nat
  si_status :: int

definition zero_info :: siginfo where
  "zero_info = \<lparr>si_code = 0, si_value_int = 0, si_value_ptr = 0, si_errno = 0, si_pid = 0, si_uid = 0, si_addr = 0, si_status = 0\<rparr>"

text \<open>A handler object: the bytes that wait in its pipe stand for the pipe.\<close>

record safe_handler =
  info_t :: siginfo
  sh_pipe :: nat
  sh_handler :: nat

text \<open>The object: its own pipe, the flag, the array, and the handler objects on the heap.\<close>

record async =
  as_kick :: nat
  as_stop :: bool
  as_handlers :: "nat option list"
  as_heap :: "nat \<Rightarrow> safe_handler option"
  as_next :: nat

datatype disposition = Default | Hook bool

record process =
  g_handler :: "async option"
  disp :: "nat \<Rightarrow> disposition"
  cerr :: "string list"
  calls :: "(nat \<times> nat) list"

record sig_env =
  sig_str :: "nat \<Rightarrow> string"
  proc_name :: "int \<Rightarrow> string"
  ptr_str :: "nat \<Rightarrow> string"
  pipe_cap :: nat
  pipe_ok :: bool
  sigaction_ok :: bool

definition new_async :: async where
  "new_async = \<lparr>as_kick = 0, as_stop = False, as_handlers = replicate 32 None, as_heap = (\<lambda>_. None), as_next = 0\<rparr>"

subsection \<open>Reading and writing the handler objects\<close>

definition sh_deref :: "nat \<Rightarrow> async \<Rightarrow> safe_handler res" where
  "sh_deref h a = (case as_heap a h of None \<Rightarrow> Fault Undefined | Some x \<Rightarrow> Ok x)"

definition sh_put :: "nat \<Rightarrow> safe_handler \<Rightarrow> async \<Rightarrow> async" where
  "sh_put h x a = a\<lparr>as_heap := (as_heap a)(h \<mapsto> x)\<rparr>"

text \<open>\<open>handlers[signum]\<close>; beside the array the read is undefined.\<close>

definition handler_at :: "nat \<Rightarrow> async \<Rightarrow> nat option res" where
  "handler_at signum a = (if signum < length (as_handlers a) then Ok (as_handlers a ! signum) else Fault Undefined)"

text \<open>A one-byte \<open>write\<close> to a pipe that is full blocks.\<close>

definition pipe_write :: "nat \<Rightarrow> nat \<Rightarrow> nat res" where
  "pipe_write cap n = (if n < cap then Ok (n + 1) else Fault NoReturn)"

definition signal_thread :: "sig_env \<Rightarrow> async \<Rightarrow> async res" where
  "signal_thread env a = rbind (pipe_write (pipe_cap env) (as_kick a)) (\<lambda>n. Ok (a\<lparr>as_kick := n\<rparr>))"

subsection \<open>Queueing a signal\<close>

definition queue_signal :: "sig_env \<Rightarrow> nat \<Rightarrow> async \<Rightarrow> async res" where
  "queue_signal env signum a =
     rbind (handler_at signum a) (\<lambda>h. c_assert (h \<noteq> None)
       (rbind (sh_deref (the h) a) (\<lambda>x.
          rbind (pipe_write (pipe_cap env) (sh_pipe x)) (\<lambda>n. Ok (sh_put (the h) (x\<lparr>sh_pipe := n\<rparr>) a)))))"

definition queue_signal_info :: "sig_env \<Rightarrow> nat \<Rightarrow> siginfo \<Rightarrow> async \<Rightarrow> async res" where
  "queue_signal_info env signum info a =
     rbind (handler_at signum a) (\<lambda>h. c_assert (h \<noteq> None)
       (rbind (sh_deref (the h) a) (\<lambda>x.
          rbind (pipe_write (pipe_cap env) (sh_pipe x)) (\<lambda>n.
            Ok (sh_put (the h) (x\<lparr>info_t := info, sh_pipe := n\<rparr>) a)))))"

subsection \<open>Registration\<close>

definition register_alloc :: "sig_env \<Rightarrow> int \<Rightarrow> nat \<Rightarrow> async \<Rightarrow> (nat \<times> async) res" where
  "register_alloc env signum handler a =
     c_assert (0 \<le> signum \<and> signum < 32) (c_assert (pipe_ok env)
       (Ok (as_next a, sh_put (as_next a) \<lparr>info_t = zero_info, sh_pipe = 0, sh_handler = handler\<rparr>
              (a\<lparr>as_next := as_next a + 1\<rparr>))))"

definition register_publish :: "int \<Rightarrow> nat option \<Rightarrow> async \<Rightarrow> async" where
  "register_publish signum h a = a\<lparr>as_handlers := (as_handlers a)[nat signum := h]\<rparr>"

definition register_handler :: "sig_env \<Rightarrow> int \<Rightarrow> nat \<Rightarrow> bool \<Rightarrow> async \<Rightarrow> (nat \<Rightarrow> disposition) \<Rightarrow> (async \<times> (nat \<Rightarrow> disposition)) res" where
  "register_handler env signum handler oneshot a ds =
     rbind (register_alloc env signum handler a) (\<lambda>(h, a).
       rbind (signal_thread env (register_publish signum (Some h) a)) (\<lambda>a.
         c_assert (sigaction_ok env) (Ok (a, ds(nat signum := Hook oneshot)))))"

definition free_handler :: "nat \<Rightarrow> async \<Rightarrow> async" where
  "free_handler h a = a\<lparr>as_heap := (as_heap a)(h := None)\<rparr>"

definition unregister_handler :: "int \<Rightarrow> nat \<Rightarrow> async \<Rightarrow> (nat \<Rightarrow> disposition) \<Rightarrow> (async \<times> (nat \<Rightarrow> disposition)) res" where
  "unregister_handler signum handler a ds =
     c_assert (0 \<le> signum \<and> signum < 32)
       (rbind (handler_at (nat signum) a) (\<lambda>h. c_assert (h \<noteq> None)
          (rbind (sh_deref (the h) a) (\<lambda>x. c_assert (sh_handler x = handler)
             (Ok (free_handler (the h) (register_publish signum None a), ds(nat signum := Default)))))))"

subsection \<open>The thread\<close>

datatype poll_fd = Kick_fd | Pipe_fd nat

text \<open>The array of at most 33 descriptors.\<close>

fun fds_of :: "nat option list \<Rightarrow> poll_fd list" where
  "fds_of [] = []"
| "fds_of (None # hs) = fds_of hs"
| "fds_of (Some h # hs) = Pipe_fd h # fds_of hs"

definition build_fds :: "async \<Rightarrow> poll_fd list" where
  "build_fds a = Kick_fd # fds_of (as_handlers a)"

fun fd_ready :: "async \<Rightarrow> poll_fd \<Rightarrow> bool" where
  "fd_ready a Kick_fd = (0 < as_kick a)"
| "fd_ready a (Pipe_fd h) = (case as_heap a h of None \<Rightarrow> True | Some x \<Rightarrow> 0 < sh_pipe x)"

definition signal_message :: "sig_env \<Rightarrow> nat \<Rightarrow> siginfo \<Rightarrow> string" where
  "signal_message env signum i =
     ''received signal: '' @ sig_str env signum @
     (if si_code i = 0
      then '' from '' @ proc_name env (si_pid i) @
        (if si_pid i \<noteq> 0 then '' (PID: '' @ int_string (si_pid i) @ '')''
         else '' (Could be generated by pthread_kill(), raise(), abort(), alarm())'') @
        '' UID: '' @ to_string (si_uid i)
      else '', si_code: '' @ int_string (si_code i) @ '', si_value (int): '' @ int_string (si_value_int i) @
        '', si_value (ptr): '' @ ptr_str env (si_value_ptr i) @ '', si_errno: '' @ int_string (si_errno i) @
        '', si_pid: '' @ int_string (si_pid i) @ '', si_uid: '' @ to_string (si_uid i) @
        '', si_addr: '' @ ptr_str env (si_addr i) @ '', si_status: '' @ int_string (si_status i))"

text \<open>One slot of the array: a byte, if there is one, is a message and a call.\<close>

definition scan_slot :: "sig_env \<Rightarrow> nat \<Rightarrow> async \<times> process \<Rightarrow> (async \<times> process) res" where
  "scan_slot env signum = (\<lambda>(a, p).
     rbind (handler_at signum a) (\<lambda>h. case h of
       None \<Rightarrow> Ok (a, p)
     | Some h \<Rightarrow> rbind (sh_deref h a) (\<lambda>x.
         if 0 < sh_pipe x
         then Ok (sh_put h (x\<lparr>sh_pipe := sh_pipe x - 1\<rparr>) a,
                  p\<lparr>cerr := cerr p @ [signal_message env signum (info_t x)], calls := calls p @ [(sh_handler x, signum)]\<rparr>)
         else Ok (a, p))))"

fun scan_slots :: "sig_env \<Rightarrow> nat list \<Rightarrow> async \<times> process \<Rightarrow> (async \<times> process) res" where
  "scan_slots env [] s = Ok s"
| "scan_slots env (signum # is) s = rbind (scan_slot env signum s) (scan_slots env is)"

text \<open>
  A turn of the loop, given \<open>r\<close>, the answer of \<open>poll\<close>: nothing after a failed \<open>poll\<close>, and else a byte
  of the own pipe, if there is one, and the array.
\<close>

definition entry_turn :: "sig_env \<Rightarrow> int \<Rightarrow> async \<times> process \<Rightarrow> (async \<times> process) res" where
  "entry_turn env r = (\<lambda>(a, p).
     if r \<le> 0 then Ok (a, p)
     else scan_slots env [0..<32] (a\<lparr>as_kick := as_kick a - 1\<rparr>, p))"

text \<open>
  The loop. Each element of \<open>polls\<close> is what the other threads do while this one is in \<open>poll\<close>, and its
  answer; a run that \<open>polls\<close> does not bring to the end has not returned.
\<close>

fun entry :: "sig_env \<Rightarrow> ((async \<Rightarrow> async) \<times> int) list \<Rightarrow> async \<times> process \<Rightarrow> (async \<times> process) res" where
  "entry env polls (a, p) =
     (if as_stop a then Ok (a, p)
      else case polls of
        [] \<Rightarrow> Fault NoReturn
      | (others, r) # polls \<Rightarrow>
          (let a = others a in
           if as_stop a then Ok (a, p) else rbind (entry_turn env r (a, p)) (entry env polls)))"

subsection \<open>The public functions\<close>

definition with_handler :: "(async \<Rightarrow> (nat \<Rightarrow> disposition) \<Rightarrow> (async \<times> (nat \<Rightarrow> disposition)) res) \<Rightarrow> process \<Rightarrow> process res" where
  "with_handler f p = c_assert (g_handler p \<noteq> None)
     (rbind (f (the (g_handler p)) (disp p)) (\<lambda>(a, ds). Ok (p\<lparr>g_handler := Some a, disp := ds\<rparr>)))"

definition start_async_signal_handler :: "sig_env \<Rightarrow> process \<Rightarrow> process res" where
  "start_async_signal_handler env p =
     c_assert (g_handler p = None) (c_assert (pipe_ok env) (Ok (p\<lparr>g_handler := Some new_async\<rparr>)))"

text \<open>The destructor: the flag, a byte, and the join, which needs the thread's loop to end.\<close>

definition async_shutdown :: "sig_env \<Rightarrow> async \<Rightarrow> async res" where
  "async_shutdown env a = signal_thread env (a\<lparr>as_stop := True\<rparr>)"

definition shutdown_async_signal_handler :: "sig_env \<Rightarrow> process \<Rightarrow> process res" where
  "shutdown_async_signal_handler env p = c_assert (g_handler p \<noteq> None)
     (rbind (async_shutdown env (the (g_handler p))) (\<lambda>a. Ok (p\<lparr>g_handler := None\<rparr>)))"

definition queue_async_signal :: "sig_env \<Rightarrow> nat \<Rightarrow> process \<Rightarrow> process res" where
  "queue_async_signal env signum =
     with_handler (\<lambda>a ds. rbind (queue_signal env signum a) (\<lambda>a. Ok (a, ds)))"

definition register_async_signal_handler :: "sig_env \<Rightarrow> int \<Rightarrow> nat \<Rightarrow> process \<Rightarrow> process res" where
  "register_async_signal_handler env signum handler = with_handler (register_handler env signum handler False)"

definition register_async_signal_handler_oneshot :: "sig_env \<Rightarrow> int \<Rightarrow> nat \<Rightarrow> process \<Rightarrow> process res" where
  "register_async_signal_handler_oneshot env signum handler = with_handler (register_handler env signum handler True)"

definition unregister_async_signal_handler :: "int \<Rightarrow> nat \<Rightarrow> process \<Rightarrow> process res" where
  "unregister_async_signal_handler signum handler = with_handler (unregister_handler signum handler)"

text \<open>The hook that the system runs; the global pointer is not tested here.\<close>

definition handler_signal_hook :: "sig_env \<Rightarrow> nat \<Rightarrow> siginfo \<Rightarrow> process \<Rightarrow> process res" where
  "handler_signal_hook env signum info p =
     (case g_handler p of
        None \<Rightarrow> Fault Undefined
      | Some a \<Rightarrow> rbind (queue_signal_info env signum info a) (\<lambda>a. Ok (p\<lparr>g_handler := Some a\<rparr>)))"

text \<open>A signal arrives: the hook runs if it is installed, and a one-shot hook is removed first. With the
  default disposition the signal never reaches this code.\<close>

definition deliver :: "sig_env \<Rightarrow> nat \<Rightarrow> siginfo \<Rightarrow> process \<Rightarrow> process res" where
  "deliver env signum info p =
     (case disp p signum of
        Default \<Rightarrow> Ok p
      | Hook oneshot \<Rightarrow> handler_signal_hook env signum info
          (if oneshot then p\<lparr>disp := (disp p)(signum := Default)\<rparr> else p))"

subsection \<open>Well-formed handler tables\<close>

definition async_ok :: "async \<Rightarrow> bool" where
  "async_ok a \<longleftrightarrow> length (as_handlers a) = 32
     \<and> (\<forall>i < 32. \<forall>j < 32. \<forall>h. as_handlers a ! i = Some h \<longrightarrow> as_handlers a ! j = Some h \<longrightarrow> i = j)
     \<and> (\<forall>i < 32. \<forall>h. as_handlers a ! i = Some h \<longrightarrow> as_heap a h \<noteq> None)
     \<and> (\<forall>h \<ge> as_next a. as_heap a h = None)"

lemma async_okD:
  assumes "async_ok a"
  shows "length (as_handlers a) = 32" "i < 32 \<Longrightarrow> j < 32 \<Longrightarrow> as_handlers a ! i = Some h \<Longrightarrow> as_handlers a ! j = Some h \<Longrightarrow> i = j"
    "i < 32 \<Longrightarrow> as_handlers a ! i = Some h \<Longrightarrow> as_heap a h \<noteq> None" "as_next a \<le> h \<Longrightarrow> as_heap a h = None"
  using assms unfolding async_ok_def by blast+

lemma async_ok_new: "async_ok new_async"
  by (simp add: async_ok_def new_async_def)

lemma async_ok_fields [simp]:
  "async_ok (a\<lparr>as_kick := n\<rparr>) = async_ok a" "async_ok (a\<lparr>as_stop := b\<rparr>) = async_ok a"
  by (simp_all add: async_ok_def)

lemma async_ok_put: "async_ok a \<Longrightarrow> as_heap a h \<noteq> None \<Longrightarrow> async_ok (sh_put h x a)"
proof -
  assume a: "async_ok a" "as_heap a h \<noteq> None"
  have h: "(as_heap (sh_put h x a) k = None) = (as_heap a k = None)" for k using a(2) by (simp add: sh_put_def)
  have f: "as_handlers (sh_put h x a) = as_handlers a" "as_next (sh_put h x a) = as_next a" by (simp_all add: sh_put_def)
  show ?thesis using a(1) unfolding async_ok_def h f .
qed

text \<open>The bytes that wait for a signal, and the function that it calls.\<close>

definition slot_obj :: "async \<Rightarrow> nat \<Rightarrow> safe_handler option" where
  "slot_obj a s = (case as_handlers a ! s of None \<Rightarrow> None | Some h \<Rightarrow> as_heap a h)"

definition pend :: "async \<Rightarrow> nat \<Rightarrow> nat" where
  "pend a s = (case slot_obj a s of None \<Rightarrow> 0 | Some x \<Rightarrow> sh_pipe x)"

definition hfun :: "async \<Rightarrow> nat \<Rightarrow> nat" where
  "hfun a s = (case slot_obj a s of None \<Rightarrow> 0 | Some x \<Rightarrow> sh_handler x)"

lemma slot_obj_kick [simp]: "slot_obj (a\<lparr>as_kick := n\<rparr>) s = slot_obj a s"
  by (simp add: slot_obj_def split: option.splits)

lemma pend_kick [simp]: "pend (a\<lparr>as_kick := n\<rparr>) s = pend a s" "hfun (a\<lparr>as_kick := n\<rparr>) s = hfun a s"
  by (simp_all add: pend_def hfun_def)

lemma slot_put:
  assumes "async_ok a" "s < 32" "as_handlers a ! s = Some h" "i < 32"
  shows "slot_obj (sh_put h x a) i = (if i = s then Some x else slot_obj a i)"
proof (cases "i = s")
  case True
  then show ?thesis using assms(3) by (simp add: slot_obj_def sh_put_def)
next
  case False
  then have "as_handlers a ! i \<noteq> Some h" using async_okD(2) [OF assms(1,4,2) _ assms(3)] by blast
  then show ?thesis using False by (simp add: slot_obj_def sh_put_def split: option.splits)
qed

subsection \<open>The thread's scan\<close>

lemma scan_slot_Ok:
  assumes ok: "async_ok a" and s: "s < 32"
  shows "\<exists>a' p'. scan_slot env s (a, p) = Ok (a', p') \<and> async_ok a' \<and> as_handlers a' = as_handlers a
    \<and> (\<forall>i < 32. pend a' i = (if i = s then pend a i - 1 else pend a i) \<and> hfun a' i = hfun a i)
    \<and> calls p' = calls p @ (if 0 < pend a s then [(hfun a s, s)] else [])
    \<and> as_stop a' = as_stop a \<and> as_kick a' = as_kick a \<and> g_handler p' = g_handler p \<and> disp p' = disp p"
proof (cases "as_handlers a ! s")
  case None
  then have "scan_slot env s (a, p) = Ok (a, p)" "pend a s = 0"
    using s async_okD(1) [OF ok] by (simp_all add: scan_slot_def handler_at_def pend_def slot_obj_def)
  then show ?thesis using ok by auto
next
  case (Some h)
  obtain x where x: "as_heap a h = Some x" using async_okD(3) [OF ok s Some] by blast
  have p: "pend a s = sh_pipe x" "hfun a s = sh_handler x" using Some x by (simp_all add: pend_def hfun_def slot_obj_def)
  show ?thesis
  proof (cases "0 < sh_pipe x")
    case False
    then have "scan_slot env s (a, p) = Ok (a, p)"
      using s async_okD(1) [OF ok] Some x by (simp add: scan_slot_def handler_at_def sh_deref_def)
    then show ?thesis using ok False p by auto
  next
    case True
    let ?a = "sh_put h (x\<lparr>sh_pipe := sh_pipe x - 1\<rparr>) a"
    let ?p = "p\<lparr>cerr := cerr p @ [signal_message env s (info_t x)], calls := calls p @ [(sh_handler x, s)]\<rparr>"
    have "scan_slot env s (a, p) = Ok (?a, ?p)"
      using s async_okD(1) [OF ok] Some x True by (simp add: scan_slot_def handler_at_def sh_deref_def)
    moreover have "async_ok ?a" by (rule async_ok_put [OF ok]) (simp add: x)
    moreover have "pend ?a i = (if i = s then pend a i - 1 else pend a i) \<and> hfun ?a i = hfun a i" if "i < 32" for i
      using slot_put [OF ok s Some that] p by (simp add: pend_def hfun_def)
    ultimately show ?thesis using True p by (intro exI [of _ ?a] exI [of _ ?p]) (simp add: sh_put_def)
  qed
qed

lemma scan_slots_Ok:
  "async_ok a \<Longrightarrow> distinct is \<Longrightarrow> set is \<subseteq> {..<32} \<Longrightarrow>
   \<exists>a' p'. scan_slots env is (a, p) = Ok (a', p') \<and> async_ok a' \<and> as_handlers a' = as_handlers a
    \<and> (\<forall>i < 32. pend a' i = (if i \<in> set is then pend a i - 1 else pend a i) \<and> hfun a' i = hfun a i)
    \<and> calls p' = calls p @ map (\<lambda>s. (hfun a s, s)) (filter (\<lambda>s. 0 < pend a s) is)
    \<and> as_stop a' = as_stop a \<and> as_kick a' = as_kick a \<and> g_handler p' = g_handler p \<and> disp p' = disp p"
proof (induction "is" arbitrary: a p)
  case (Cons s "is")
  have s: "s < 32" "s \<notin> set is" "distinct is" "set is \<subseteq> {..<32}" using Cons.prems by auto
  from scan_slot_Ok [OF Cons.prems(1) s(1), of env p] obtain b q where
    B: "scan_slot env s (a, p) = Ok (b, q)" "async_ok b" "as_handlers b = as_handlers a"
      "\<forall>i < 32. pend b i = (if i = s then pend a i - 1 else pend a i) \<and> hfun b i = hfun a i"
      "calls q = calls p @ (if 0 < pend a s then [(hfun a s, s)] else [])"
      "as_stop b = as_stop a" "as_kick b = as_kick a" "g_handler q = g_handler p" "disp q = disp p"
    by blast
  from Cons.IH [OF B(2) s(3,4), of q] obtain c r where
    C: "scan_slots env is (b, q) = Ok (c, r)" "async_ok c" "as_handlers c = as_handlers b"
      "\<forall>i < 32. pend c i = (if i \<in> set is then pend b i - 1 else pend b i) \<and> hfun c i = hfun b i"
      "calls r = calls q @ map (\<lambda>s. (hfun b s, s)) (filter (\<lambda>s. 0 < pend b s) is)"
      "as_stop c = as_stop b" "as_kick c = as_kick b" "g_handler r = g_handler q" "disp r = disp q"
    by blast
  have same: "pend b i = pend a i" "hfun b i = hfun a i" if "i \<in> set is" for i
    using B(4) that s by (auto split: if_splits)
  have "filter (\<lambda>s. 0 < pend b s) is = filter (\<lambda>s. 0 < pend a s) is"
    by (rule filter_cong) (simp_all add: same)
  then have "map (\<lambda>s. (hfun b s, s)) (filter (\<lambda>s. 0 < pend b s) is) = map (\<lambda>s. (hfun a s, s)) (filter (\<lambda>s. 0 < pend a s) is)"
    by (simp add: same)
  moreover have "pend c i = (if i \<in> set (s # is) then pend a i - 1 else pend a i) \<and> hfun c i = hfun a i" if "i < 32" for i
    using B(4) C(4) that s(2) by auto
  ultimately show ?case
    using B C by (intro exI [of _ c] exI [of _ r]) simp
qed auto

text \<open>Some descriptor that the thread polls is ready while a signal waits.\<close>

lemma fds_of_slot: "i < length hs \<Longrightarrow> hs ! i = Some h \<Longrightarrow> Pipe_fd h \<in> set (fds_of hs)"
proof (induction hs arbitrary: i)
  case (Cons x hs)
  then show ?case by (cases i; cases x) auto
qed simp

lemma pending_ready: "async_ok a \<Longrightarrow> s < 32 \<Longrightarrow> 0 < pend a s \<Longrightarrow> \<exists>f \<in> set (build_fds a). fd_ready a f"
  using fds_of_slot [of s "as_handlers a"] async_okD(1)
  by (fastforce simp: pend_def slot_obj_def build_fds_def split: option.splits)

lemma fds_of_length: "length (fds_of hs) \<le> length hs"
  by (induction hs rule: fds_of.induct) simp_all

lemma build_fds_fit: "async_ok a \<Longrightarrow> length (build_fds a) \<le> 33"
  using fds_of_length [of "as_handlers a"] async_okD(1) by (simp add: build_fds_def)

subsection \<open>Turns\<close>

text \<open>\<open>k\<close> turns in which \<open>poll\<close> reports a descriptor.\<close>

fun turns :: "sig_env \<Rightarrow> nat \<Rightarrow> async \<times> process \<Rightarrow> (async \<times> process) res" where
  "turns env 0 s = Ok s"
| "turns env (Suc k) s = rbind (entry_turn env 1 s) (turns env k)"

lemma count_slots:
  assumes "s < 32"
  shows "count_list (map (\<lambda>s. (f s, s)) (filter P [0..<32])) (f s, s) = (if P s then 1 else (0 :: nat))"
proof -
  have d: "count_list (map (\<lambda>s. (f s, s)) xs) (f s, s) = (if s \<in> set xs then 1 else 0)" if "distinct xs" for xs
    using that by (induction xs) auto
  have "s \<in> set (filter P [0..<32]) \<longleftrightarrow> P s" using assms by simp
  then show ?thesis using d [of "filter P [0..<32]"] by (simp only: distinct_filter distinct_upt)
qed

lemma turns_drain:
  "async_ok a \<Longrightarrow> \<exists>a' p'. turns env k (a, p) = Ok (a', p') \<and> async_ok a' \<and> as_handlers a' = as_handlers a
    \<and> (\<forall>s < 32. pend a' s = pend a s - k \<and> hfun a' s = hfun a s
        \<and> count_list (calls p') (hfun a s, s) = count_list (calls p) (hfun a s, s) + min k (pend a s))
    \<and> as_stop a' = as_stop a"
proof (induction k arbitrary: a p)
  case 0
  then show ?case by (intro exI [of _ a] exI [of _ p]) simp
next
  case (Suc k)
  let ?a = "a\<lparr>as_kick := as_kick a - 1\<rparr>"
  have ok: "async_ok ?a" using Suc.prems by simp
  have "distinct [0..<32]" "set [0..<32] \<subseteq> {..<32}" by auto
  from scan_slots_Ok [OF ok this, of env p] obtain b q where
    B: "scan_slots env [0..<32] (?a, p) = Ok (b, q)" "async_ok b" "as_handlers b = as_handlers ?a"
      "\<forall>i < 32. pend b i = (if i \<in> set [0..<32] then pend ?a i - 1 else pend ?a i) \<and> hfun b i = hfun ?a i"
      "calls q = calls p @ map (\<lambda>s. (hfun ?a s, s)) (filter (\<lambda>s. 0 < pend ?a s) [0..<32])" "as_stop b = as_stop ?a"
    by blast
  have b: "pend b s = pend a s - 1" "hfun b s = hfun a s" if "s < 32" for s
    using B(4) that by simp_all
  from Suc.IH [OF B(2), of q] obtain c r where
    C: "turns env k (b, q) = Ok (c, r)" "async_ok c" "as_handlers c = as_handlers b"
      "\<forall>s < 32. pend c s = pend b s - k \<and> hfun c s = hfun b s
        \<and> count_list (calls r) (hfun b s, s) = count_list (calls q) (hfun b s, s) + min k (pend b s)" "as_stop c = as_stop b"
    by blast
  have "entry_turn env 1 (a, p) = Ok (b, q)" using B(1) by (simp add: entry_turn_def)
  then have t: "turns env (Suc k) (a, p) = Ok (c, r)" using C(1) by simp
  have "pend c s = pend a s - Suc k \<and> hfun c s = hfun a s
        \<and> count_list (calls r) (hfun a s, s) = count_list (calls p) (hfun a s, s) + min (Suc k) (pend a s)" if s: "s < 32" for s
  proof -
    have "count_list (calls q) (hfun a s, s) = count_list (calls p) (hfun a s, s) + (if 0 < pend a s then 1 else 0)"
      unfolding B(5) count_list_append pend_kick using count_slots [OF s, of "hfun a" "\<lambda>s. 0 < pend a s"] by simp
    then show ?thesis using C(4) [rule_format, OF s] b [OF s] by (auto simp: min_def)
  qed
  then show ?case using t C(2,3,5) B(3,6) by (intro exI [of _ c] exI [of _ r]) simp
qed

subsection \<open>The operations one after the other\<close>

text \<open>The claim of the comment in \<open>queue_signal\<close>: an installed hook has an entry in the array.\<close>

definition process_ok :: "process \<Rightarrow> bool" where
  "process_ok p \<longleftrightarrow> (case g_handler p of
       None \<Rightarrow> \<forall>s. disp p s = Default
     | Some a \<Rightarrow> async_ok a \<and> (\<forall>s. disp p s \<noteq> Default \<longrightarrow> s < 32 \<and> as_handlers a ! s \<noteq> None))"

definition hooks_ok :: "async \<Rightarrow> (nat \<Rightarrow> disposition) \<Rightarrow> bool" where
  "hooks_ok a ds \<longleftrightarrow> async_ok a \<and> (\<forall>s. ds s \<noteq> Default \<longrightarrow> s < 32 \<and> as_handlers a ! s \<noteq> None)"

lemma process_ok_Some: "g_handler p = Some a \<Longrightarrow> process_ok p \<longleftrightarrow> hooks_ok a (disp p)"
  by (simp add: process_ok_def hooks_ok_def)

lemma async_ok_alloc:
  assumes ok: "async_ok a" and r: "register_alloc env signum f a = Ok (h, b)"
  shows "async_ok b" "as_heap b h \<noteq> None" "h = as_next a" "as_handlers b = as_handlers a" "0 \<le> signum" "signum < 32"
    "i < 32 \<Longrightarrow> as_handlers b ! i \<noteq> Some h"
proof -
  have b: "h = as_next a" "as_handlers b = as_handlers a" "as_next b = as_next a + 1" "as_heap b h \<noteq> None" "0 \<le> signum" "signum < 32"
      and heap: "k \<noteq> h \<Longrightarrow> as_heap b k = as_heap a k" for k
    using r by (auto simp: register_alloc_def c_assert_def sh_put_def split: if_splits)
  note D = async_okD [OF ok]
  show fresh: "as_handlers b ! i \<noteq> Some h" if "i < 32" for i
    using D(3) [OF that, of h] D(4) [of h] b(1,2) by auto
  have "as_heap b k \<noteq> None" if "i < 32" "as_handlers b ! i = Some k" for i k
    using heap [of k] fresh [OF that(1)] that(2) D(3) [OF that(1), of k] b(2) by auto
  moreover have "as_heap b k = None" if "as_next b \<le> k" for k
    using heap [of k] D(4) [of k] that b(1,3) by simp
  moreover have "i = j" if "i < 32" "j < 32" "as_handlers b ! i = Some k" "as_handlers b ! j = Some k" for i j k
    using D(2) [OF that(1,2)] that(3,4) b(2) by simp
  ultimately show "async_ok b" unfolding async_ok_def using D(1) b(2) by auto
  show "as_heap b h \<noteq> None" "h = as_next a" "as_handlers b = as_handlers a" "0 \<le> signum" "signum < 32" by (fact b)+
qed

lemma async_ok_publish:
  assumes ok: "async_ok a" and h: "\<And>k. h = Some k \<Longrightarrow> as_heap a k \<noteq> None \<and> (\<forall>i < 32. as_handlers a ! i \<noteq> Some k)"
  shows "async_ok (register_publish signum h a)"
proof -
  note D = async_okD [OF ok]
  have a: "as_handlers (register_publish signum h a) ! i = (if i = nat signum then h else as_handlers a ! i)" if "i < 32" for i
    using that D(1) by (simp add: register_publish_def nth_list_update)
  have "as_handlers a ! i \<noteq> Some k" if "h = Some k" "i < 32" for i k using h that by blast
  moreover have "as_heap a k \<noteq> None" if "h = Some k" for k using h that by blast
  ultimately show ?thesis
    unfolding async_ok_def using D a by (auto simp: register_publish_def split: if_splits)
qed

lemma async_ok_free:
  assumes ok: "async_ok a" and h: "\<forall>i < 32. as_handlers a ! i \<noteq> Some h"
  shows "async_ok (free_handler h a)"
proof -
  note D = async_okD [OF ok]
  have "as_heap (free_handler h a) k \<noteq> None" if "i < 32" "as_handlers a ! i = Some k" for i k
    using D(3) [OF that] h that by (auto simp: free_handler_def)
  moreover have f: "as_handlers (free_handler h a) = as_handlers a" "as_next (free_handler h a) = as_next a"
    by (simp_all add: free_handler_def)
  moreover have "as_heap (free_handler h a) k = None" if "as_next a \<le> k" for k
    using D(4) [OF that] by (simp add: free_handler_def)
  ultimately show ?thesis unfolding async_ok_def f using D(1,2) by blast
qed

lemma publish_nth:
  "async_ok a \<Longrightarrow> i < 32 \<Longrightarrow> as_handlers (register_publish signum h a) ! i = (if i = nat signum then h else as_handlers a ! i)"
  using async_okD(1) by (simp add: register_publish_def nth_list_update)

lemma signal_thread_ok: "signal_thread env a = Ok b \<Longrightarrow> \<exists>n. b = a\<lparr>as_kick := n\<rparr>"
  by (auto simp: signal_thread_def)

lemma register_hooks:
  assumes ok: "hooks_ok a ds" and r: "register_handler env signum f one a ds = Ok (b, ds')"
  shows "hooks_ok b ds'"
proof -
  from r obtain h c n where
    c: "register_alloc env signum f a = Ok (h, c)" "b = (register_publish signum (Some h) c)\<lparr>as_kick := n\<rparr>"
      "ds' = ds(nat signum := Hook one)"
    by (auto simp: register_handler_def c_assert_def split: if_splits dest!: signal_thread_ok)
  have a: "async_ok a" "\<And>s. ds s \<noteq> Default \<Longrightarrow> s < 32 \<and> as_handlers a ! s \<noteq> None" using ok by (simp_all add: hooks_ok_def)
  note A = async_ok_alloc [OF a(1) c(1)]
  have "async_ok (register_publish signum (Some h) c)"
    by (rule async_ok_publish [OF A(1)]) (use A(2,7) in auto)
  moreover have "s < 32 \<and> as_handlers b ! s \<noteq> None" if "ds' s \<noteq> Default" for s
  proof (cases "s = nat signum")
    case True
    then show ?thesis using A(5,6) publish_nth [OF A(1), of s signum] by (simp add: c(2))
  next
    case False
    then have "s < 32" "as_handlers a ! s \<noteq> None" using a(2) [of s] that c(3) by auto
    then show ?thesis using False A(4) publish_nth [OF A(1), of s signum] by (simp add: c(2))
  qed
  ultimately show ?thesis by (simp add: hooks_ok_def c(2))
qed

lemma unregister_hooks:
  assumes ok: "hooks_ok a ds" and r: "unregister_handler signum f a ds = Ok (b, ds')"
  shows "hooks_ok b ds'"
proof -
  have a: "async_ok a" "\<And>s. ds s \<noteq> Default \<Longrightarrow> s < 32 \<and> as_handlers a ! s \<noteq> None" using ok by (simp_all add: hooks_ok_def)
  from r obtain h where
    c: "0 \<le> signum" "signum < 32" "as_handlers a ! nat signum = Some h" "b = free_handler h (register_publish signum None a)"
      "ds' = ds(nat signum := Default)"
    by (auto simp: unregister_handler_def c_assert_def handler_at_def split: if_splits)
  let ?c = "register_publish signum None a"
  have C: "async_ok ?c" by (rule async_ok_publish [OF a(1)]) simp
  note N = publish_nth [OF a(1), of _ signum None]
  have n: "nat signum < 32" using c(1,2) by simp
  have "as_handlers ?c ! i \<noteq> Some h" if "i < 32" for i
    using N [OF that] async_okD(2) [OF a(1) that n, of h] c(3) by (auto split: if_splits)
  then have "async_ok b" unfolding c(4) by (intro async_ok_free [OF C]) simp
  moreover have "s < 32 \<and> as_handlers b ! s \<noteq> None" if "ds' s \<noteq> Default" for s
  proof -
    have s: "s \<noteq> nat signum" "ds s \<noteq> Default" using that c(5) by (auto split: if_splits)
    then show ?thesis using a(2) [OF s(2)] N [of s] by (simp add: c(4) free_handler_def)
  qed
  ultimately show ?thesis by (simp add: hooks_ok_def)
qed

lemma handler_at_ok: "async_ok a \<Longrightarrow> s < 32 \<Longrightarrow> handler_at s a = Ok (as_handlers a ! s)"
  using async_okD(1) by (simp add: handler_at_def)

lemma queue_info_cases:
  assumes "async_ok a" "s < 32" "as_handlers a ! s = Some h"
  shows "\<exists>x. as_heap a h = Some x
    \<and> (queue_signal_info env s info a = (if sh_pipe x < pipe_cap env then Ok (sh_put h (x\<lparr>info_t := info, sh_pipe := sh_pipe x + 1\<rparr>) a) else Fault NoReturn))
    \<and> (queue_signal env s a = (if sh_pipe x < pipe_cap env then Ok (sh_put h (x\<lparr>sh_pipe := sh_pipe x + 1\<rparr>) a) else Fault NoReturn))"
proof -
  obtain x where "as_heap a h = Some x" using async_okD(3) [OF assms] by blast
  then show ?thesis using handler_at_ok [OF assms(1,2)] assms(3)
    by (intro exI [of _ x]) (simp add: queue_signal_info_def queue_signal_def sh_deref_def pipe_write_def)
qed

lemma put_hooks: "hooks_ok a ds \<Longrightarrow> as_heap a h \<noteq> None \<Longrightarrow> hooks_ok (sh_put h x a) ds"
  using async_ok_put [of a h x] by (simp add: hooks_ok_def sh_put_def)

lemma queue_hooks:
  assumes "hooks_ok a ds" "queue_signal env s a = Ok b \<or> queue_signal_info env s info a = Ok b"
  shows "hooks_ok b ds"
proof -
  from assms(2) obtain h y where "as_heap a h \<noteq> None" "b = sh_put h y a"
    by (auto simp: queue_signal_def queue_signal_info_def sh_deref_def c_assert_def split: if_splits option.splits)
  then show ?thesis using put_hooks [OF assms(1)] by simp
qed

text \<open>A signal that arrives: delivered to an entry, or blocked on a full pipe; no assertion fails.\<close>

lemma deliver_safe:
  assumes "process_ok p" "deliver env s info p = Fault e"
  shows "e = NoReturn"
proof (cases "g_handler p")
  case None
  then have "disp p s = Default" using assms(1) by (simp add: process_ok_def)
  then show ?thesis using assms(2) by (simp add: deliver_def)
next
  case (Some a)
  then have h: "hooks_ok a (disp p)" using assms(1) by (simp add: process_ok_Some)
  show ?thesis
  proof (cases "disp p s")
    case Default
    then show ?thesis using assms(2) by (simp add: deliver_def)
  next
    case (Hook one)
    then obtain k where k: "async_ok a" "s < 32" "as_handlers a ! s = Some k" using h unfolding hooks_ok_def by fastforce
    show ?thesis
      using queue_info_cases [OF k, of env info] assms(2) Hook Some
      by (auto simp: deliver_def handler_signal_hook_def split: if_splits)
  qed
qed

lemma deliver_ok:
  assumes "process_ok p" "deliver env s info p = Ok q"
  shows "process_ok q"
proof (cases "disp p s")
  case Default
  then show ?thesis using assms by (simp add: deliver_def)
next
  case (Hook one)
  let ?ds = "if one then (disp p)(s := Default) else disp p"
  obtain a b where a: "g_handler p = Some a" "queue_signal_info env s info a = Ok b" "g_handler q = Some b" "disp q = ?ds"
    using assms(2) Hook by (auto simp: deliver_def handler_signal_hook_def split: option.splits if_splits)
  have "hooks_ok a ?ds" using assms(1) a(1) by (auto simp: process_ok_Some hooks_ok_def)
  then have "hooks_ok b ?ds" using queue_hooks a(2) by blast
  then show ?thesis using a(3,4) by (simp add: process_ok_Some)
qed

subsection \<open>Any sequence of operations\<close>

datatype api =
  Start
| Register int nat
| Register_oneshot int nat
| Unregister int nat
| Queue nat
| Signal nat siginfo
| Turn int

definition thread_turn :: "sig_env \<Rightarrow> int \<Rightarrow> process \<Rightarrow> process res" where
  "thread_turn env r p = (case g_handler p of
     None \<Rightarrow> Ok p
   | Some a \<Rightarrow> rbind (entry_turn env r (a, p)) (\<lambda>(a, p). Ok (p\<lparr>g_handler := Some a\<rparr>)))"

fun run_api :: "sig_env \<Rightarrow> api \<Rightarrow> process \<Rightarrow> process res" where
  "run_api env Start p = start_async_signal_handler env p"
| "run_api env (Register s f) p = register_async_signal_handler env s f p"
| "run_api env (Register_oneshot s f) p = register_async_signal_handler_oneshot env s f p"
| "run_api env (Unregister s f) p = unregister_async_signal_handler s f p"
| "run_api env (Queue s) p = queue_async_signal env s p"
| "run_api env (Signal s i) p = deliver env s i p"
| "run_api env (Turn r) p = thread_turn env r p"

fun run_apis :: "sig_env \<Rightarrow> api list \<Rightarrow> process \<Rightarrow> process res" where
  "run_apis env [] p = Ok p"
| "run_apis env (c # cs) p = rbind (run_api env c p) (run_apis env cs)"

lemma entry_turn_ok:
  assumes "async_ok a" "entry_turn env r (a, p) = Ok (b, q)"
  shows "async_ok b \<and> as_handlers b = as_handlers a \<and> g_handler q = g_handler p \<and> disp q = disp p"
proof (cases "r \<le> 0")
  case True
  then show ?thesis using assms by (simp add: entry_turn_def)
next
  case False
  let ?a = "a\<lparr>as_kick := as_kick a - 1\<rparr>"
  have ok: "async_ok ?a" using assms(1) by simp
  have "distinct [0..<32]" "set [0..<32] \<subseteq> {..<32}" by auto
  from scan_slots_Ok [OF ok this, of env p] assms(2) False show ?thesis by (auto simp: entry_turn_def)
qed

lemma with_handler_ok:
  assumes p: "process_ok p" and r: "with_handler f p = Ok q"
    and f: "\<And>a b ds. hooks_ok a (disp p) \<Longrightarrow> f a (disp p) = Ok (b, ds) \<Longrightarrow> hooks_ok b ds"
  shows "process_ok q"
proof -
  obtain a where a: "g_handler p = Some a" using r by (cases "g_handler p") (simp_all add: with_handler_def c_assert_def)
  then obtain b ds where b: "f a (disp p) = Ok (b, ds)" "q = p\<lparr>g_handler := Some b, disp := ds\<rparr>"
    using r by (auto simp: with_handler_def)
  show ?thesis using f [OF _ b(1)] p a by (simp add: process_ok_Some b(2))
qed

lemma run_api_ok:
  assumes p: "process_ok p" and r: "run_api env c p = Ok q"
  shows "process_ok q"
proof (cases c)
  case Start
  then have "g_handler p = None" "q = p\<lparr>g_handler := Some new_async\<rparr>"
    using r by (auto simp: start_async_signal_handler_def c_assert_def split: if_splits)
  then show ?thesis using p async_ok_new by (simp add: process_ok_def)
next
  case (Register s f)
  then show ?thesis using with_handler_ok [OF p _ register_hooks] r by (simp add: register_async_signal_handler_def)
next
  case (Register_oneshot s f)
  then show ?thesis using with_handler_ok [OF p _ register_hooks] r by (simp add: register_async_signal_handler_oneshot_def)
next
  case (Unregister s f)
  then show ?thesis using with_handler_ok [OF p _ unregister_hooks] r by (simp add: unregister_async_signal_handler_def)
next
  case (Queue s)
  show ?thesis
  proof (rule with_handler_ok [OF p])
    show "with_handler (\<lambda>a ds. rbind (queue_signal env s a) (\<lambda>a. Ok (a, ds))) p = Ok q"
      using r Queue by (simp add: queue_async_signal_def)
    show "hooks_ok b ds" if "hooks_ok a (disp p)" "rbind (queue_signal env s a) (\<lambda>a. Ok (a, disp p)) = Ok (b, ds)" for a b ds
      using queue_hooks [OF that(1), of env s b] that(2) by auto
  qed
next
  case (Signal s i)
  then show ?thesis using deliver_ok [OF p] r by simp
next
  case (Turn t)
  then show ?thesis using p r entry_turn_ok
    by (fastforce simp: thread_turn_def process_ok_def split: option.splits)
qed

lemma run_apis_ok: "process_ok p \<Longrightarrow> run_apis env cs p = Ok q \<Longrightarrow> process_ok q"
  by (induction cs arbitrary: p) (auto dest: run_api_ok)

definition no_handlers :: process where
  "no_handlers = \<lparr>g_handler = None, disp = (\<lambda>_. Default), cerr = [], calls = []\<rparr>"

lemma no_handlers_ok: "process_ok no_handlers"
  by (simp add: no_handlers_def process_ok_def)

definition sample_sig_env :: sig_env where
  "sample_sig_env = \<lparr>sig_str = (\<lambda>s. ''Hangup''), proc_name = (\<lambda>p. ''sh''), ptr_str = to_string, pipe_cap = 65536, pipe_ok = True,
     sigaction_ok = True\<rparr>"

subsection \<open>Properties\<close>

text \<open>C10: after any sequence of start, registrations, removals, queued signals and turns of the thread, each run
  to its end, every hook that is installed has an entry in the array, and a signal that arrives is queued or
  waits for a place in its pipe: the assertion of \<open>queue_signal_info\<close> holds and no freed handler is touched.\<close>

theorem hooks_have_handlers:
  assumes "run_apis env cs no_handlers = Ok p"
  shows "(\<forall>s. disp p s \<noteq> Default \<longrightarrow> (\<exists>a. g_handler p = Some a \<and> s < 32 \<and> as_handlers a ! s \<noteq> None))
    \<and> (\<forall>s info e. deliver env s info p = Fault e \<longrightarrow> e = NoReturn)"
proof -
  have ok: "process_ok p" by (rule run_apis_ok [OF no_handlers_ok assms])
  then show ?thesis using deliver_safe [OF ok] by (auto simp: process_ok_def split: option.splits)
qed

lemma hooks_have_handlers_witness:
  "\<exists>p. run_apis sample_sig_env [Start, Register 1 7, Register_oneshot 15 8, Signal 15 zero_info, Unregister 1 7] no_handlers = Ok p
    \<and> disp p 1 = Default \<and> (\<forall>e. deliver sample_sig_env 15 zero_info p = Fault e \<longrightarrow> e = NoReturn)"
proof -
  have "\<exists>p. run_apis sample_sig_env [Start, Register 1 7, Register_oneshot 15 8, Signal 15 zero_info, Unregister 1 7] no_handlers = Ok p
      \<and> disp p 1 = Default"
    by (simp add: register_async_signal_handler_def register_async_signal_handler_oneshot_def unregister_async_signal_handler_def
        start_async_signal_handler_def deliver_def handler_signal_hook_def with_handler_def register_handler_def register_alloc_def
        register_publish_def signal_thread_def unregister_handler_def queue_signal_info_def handler_at_def sh_deref_def sh_put_def
        free_handler_def pipe_write_def new_async_def no_handlers_def sample_sig_env_def c_assert_def nth_list_update)
  then show ?thesis using hooks_have_handlers by blast
qed

text \<open>C7: no queued signal is lost and none is handled twice: with at most \<open>k\<close> bytes in each pipe, \<open>k\<close> turns of the
  thread empty all pipes and call each signal's function exactly once for each of its bytes; while a byte waits
  some descriptor that the thread polls is ready, so the turns happen, and the descriptors fit their array.\<close>

theorem queued_signals_handled:
  assumes "async_ok a" "\<forall>s < 32. pend a s \<le> k"
  shows "(\<exists>a' p'. turns env k (a, p) = Ok (a', p')
      \<and> (\<forall>s < 32. pend a' s = 0 \<and> count_list (calls p') (hfun a s, s) = count_list (calls p) (hfun a s, s) + pend a s))
    \<and> (\<forall>s < 32. 0 < pend a s \<longrightarrow> (\<exists>f \<in> set (build_fds a). fd_ready a f)) \<and> length (build_fds a) \<le> 33"
proof -
  from turns_drain [OF assms(1), of env k p] obtain a' p' where
    T: "turns env k (a, p) = Ok (a', p')" "\<forall>s < 32. pend a' s = pend a s - k \<and> hfun a' s = hfun a s
        \<and> count_list (calls p') (hfun a s, s) = count_list (calls p) (hfun a s, s) + min k (pend a s)"
    by blast
  have "pend a' s = 0 \<and> count_list (calls p') (hfun a s, s) = count_list (calls p) (hfun a s, s) + pend a s" if "s < 32" for s
    using T(2) [rule_format, OF that] assms(2) [rule_format, OF that] by simp
  then show ?thesis using T(1) pending_ready [OF assms(1)] build_fds_fit [OF assms(1)] by blast
qed

definition sample_async :: async where
  "sample_async = \<lparr>as_kick = 1, as_stop = False, as_handlers = (replicate 32 None)[10 := Some 0],
     as_heap = (\<lambda>_. None)(0 \<mapsto> \<lparr>info_t = zero_info, sh_pipe = 2, sh_handler = 7\<rparr>), as_next = 1\<rparr>"

lemma queued_signals_handled_witness:
  "\<exists>a' p'. turns sample_sig_env 2 (sample_async, no_handlers) = Ok (a', p') \<and> pend a' 10 = 0 \<and> count_list (calls p') (7, 10) = 2"
proof -
  have n: "as_handlers sample_async ! s = (if s = 10 then Some 0 else None)" if "s < 32" for s
    using that by (simp add: sample_async_def nth_list_update)
  have ok: "async_ok sample_async"
    unfolding async_ok_def using n by (auto simp: sample_async_def split: if_splits)
  have o: "slot_obj sample_async 10 = Some \<lparr>info_t = zero_info, sh_pipe = 2, sh_handler = 7\<rparr>"
    using n [of 10] by (simp add: slot_obj_def) (simp add: sample_async_def)
  have p: "\<forall>s < 32. pend sample_async s \<le> 2"
  proof (intro allI impI)
    fix s :: nat assume "s < 32"
    then show "pend sample_async s \<le> 2" using n [of s] o by (cases "s = 10") (simp_all add: pend_def slot_obj_def)
  qed
  from queued_signals_handled [OF ok p, of sample_sig_env no_handlers] obtain a' p' where
    T: "turns sample_sig_env 2 (sample_async, no_handlers) = Ok (a', p')"
      "\<forall>s < 32. pend a' s = 0 \<and> count_list (calls p') (hfun sample_async s, s)
         = count_list (calls no_handlers) (hfun sample_async s, s) + pend sample_async s"
    by blast
  have "hfun sample_async 10 = 7" "pend sample_async 10 = 2" using o by (simp_all add: hfun_def pend_def)
  then show ?thesis using T(1) T(2) [rule_format, of 10] by (simp add: no_handlers_def)
qed

text \<open>\<open>shutdown_async_signal_handler\<close> leaves the hooks installed: a registered signal that arrives after it runs
  the hook on the null global pointer.\<close>

theorem shutdown_leaves_hooks:
  assumes "shutdown_async_signal_handler env p = Ok q" "disp p s = Hook one"
  shows "g_handler q = None \<and> disp q s = Hook one \<and> deliver env s info q = Fault Undefined"
proof -
  obtain a where "q = p\<lparr>g_handler := None\<rparr>"
    using assms(1) by (auto simp: shutdown_async_signal_handler_def c_assert_def split: if_splits)
  then show ?thesis using assms(2) by (simp add: deliver_def handler_signal_hook_def)
qed

lemma shutdown_leaves_hooks_witness:
  "\<exists>p q. run_apis sample_sig_env [Start, Register 1 7] no_handlers = Ok p \<and> shutdown_async_signal_handler sample_sig_env p = Ok q
    \<and> deliver sample_sig_env 1 zero_info q = Fault Undefined"
proof -
  have "\<exists>p q. run_apis sample_sig_env [Start, Register 1 7] no_handlers = Ok p \<and> shutdown_async_signal_handler sample_sig_env p = Ok q
      \<and> disp p 1 = Hook False"
    by (simp add: register_async_signal_handler_def start_async_signal_handler_def with_handler_def register_handler_def
        register_alloc_def register_publish_def signal_thread_def sh_put_def pipe_write_def new_async_def no_handlers_def
        sample_sig_env_def c_assert_def shutdown_async_signal_handler_def async_shutdown_def)
  then show ?thesis using shutdown_leaves_hooks by blast
qed

end
