(* ===== verification/Signal_Races.thy ===== *)
theory Signal_Races
  imports Async_Signals
begin

section \<open>The asynchronous signal handler, interleaved\<close>

text \<open>
  Registrations, removals, signals and the thread's scan, in atomic sections and any order. A section
  ends where the code takes or leaves the lock, makes a system call, or may be overtaken: the hook of
  a signal is chosen by the system before it reads the array. \<open>disciplined\<close> restricts the callers: no
  two registrations or removals of one signal at a time, and no removal while a hook of it runs.
\<close>

subsection \<open>Sections and steps\<close>

datatype sect =
  Publish nat nat bool
| Kick nat bool
| Install nat bool
| Drop nat nat
| Free nat nat
| Hooked nat siginfo

fun sect_sig :: "sect \<Rightarrow> nat option" where
  "sect_sig (Publish s h one) = Some s"
| "sect_sig (Kick s one) = Some s"
| "sect_sig (Install s one) = Some s"
| "sect_sig (Drop s h) = Some s"
| "sect_sig (Free s h) = Some s"
| "sect_sig (Hooked s i) = None"

fun sect_ref :: "sect \<Rightarrow> nat option" where
  "sect_ref (Publish s h one) = Some h"
| "sect_ref (Free s h) = Some h"
| "sect_ref _ = None"

record sys =
  sy_a :: async
  sy_ds :: "nat \<Rightarrow> disposition"
  sy_th :: "nat \<Rightarrow> sect option"
  sy_scan :: "nat option"
  sy_p :: process

definition busy :: "sys \<Rightarrow> nat \<Rightarrow> bool" where
  "busy S s \<longleftrightarrow> (\<exists>t x. sy_th S t = Some x \<and> sect_sig x = Some s)"

definition hooking :: "sys \<Rightarrow> nat \<Rightarrow> bool" where
  "hooking S s \<longleftrightarrow> (\<exists>t i. sy_th S t = Some (Hooked s i))"

inductive sstep :: "sig_env \<Rightarrow> bool \<Rightarrow> sys \<Rightarrow> sys \<Rightarrow> bool" for env disciplined where
  register_begin: "sy_th S t = None \<Longrightarrow> register_alloc env signum f (sy_a S) = Ok (h, a) \<Longrightarrow> (disciplined \<Longrightarrow> \<not> busy S (nat signum)) \<Longrightarrow>
    sstep env disciplined S (S\<lparr>sy_a := a, sy_th := (sy_th S)(t \<mapsto> Publish (nat signum) h one)\<rparr>)"
| publish: "sy_th S t = Some (Publish s h one) \<Longrightarrow> sy_scan S = None \<Longrightarrow>
    sstep env disciplined S (S\<lparr>sy_a := register_publish (int s) (Some h) (sy_a S), sy_th := (sy_th S)(t \<mapsto> Kick s one)\<rparr>)"
| kick: "sy_th S t = Some (Kick s one) \<Longrightarrow> signal_thread env (sy_a S) = Ok a \<Longrightarrow>
    sstep env disciplined S (S\<lparr>sy_a := a, sy_th := (sy_th S)(t \<mapsto> Install s one)\<rparr>)"
| install: "sy_th S t = Some (Install s one) \<Longrightarrow> sigaction_ok env \<Longrightarrow>
    sstep env disciplined S (S\<lparr>sy_ds := (sy_ds S)(s := Hook one), sy_th := (sy_th S)(t := None)\<rparr>)"
| unregister_begin: "sy_th S t = None \<Longrightarrow> s < 32 \<Longrightarrow> handler_at s (sy_a S) = Ok (Some h) \<Longrightarrow> sh_deref h (sy_a S) = Ok x \<Longrightarrow>
    sh_handler x = f \<Longrightarrow> (disciplined \<Longrightarrow> \<not> busy S s \<and> \<not> hooking S s) \<Longrightarrow>
    sstep env disciplined S (S\<lparr>sy_ds := (sy_ds S)(s := Default), sy_th := (sy_th S)(t \<mapsto> Drop s h)\<rparr>)"
| drop_entry: "sy_th S t = Some (Drop s h) \<Longrightarrow> sy_scan S = None \<Longrightarrow>
    sstep env disciplined S (S\<lparr>sy_a := register_publish (int s) None (sy_a S), sy_th := (sy_th S)(t \<mapsto> Free s h)\<rparr>)"
| free: "sy_th S t = Some (Free s h) \<Longrightarrow>
    sstep env disciplined S (S\<lparr>sy_a := free_handler h (sy_a S), sy_th := (sy_th S)(t := None)\<rparr>)"
| hook_begin: "sy_th S t = None \<Longrightarrow> sy_ds S s = Hook one \<Longrightarrow>
    sstep env disciplined S (S\<lparr>sy_ds := (if one then (sy_ds S)(s := Default) else sy_ds S), sy_th := (sy_th S)(t \<mapsto> Hooked s i)\<rparr>)"
| hook_write: "sy_th S t = Some (Hooked s i) \<Longrightarrow> queue_signal_info env s i (sy_a S) = Ok a \<Longrightarrow>
    sstep env disciplined S (S\<lparr>sy_a := a, sy_th := (sy_th S)(t := None)\<rparr>)"
| scan_begin: "sy_scan S = None \<Longrightarrow> f \<in> set (build_fds (sy_a S)) \<Longrightarrow> fd_ready (sy_a S) f \<Longrightarrow>
    sstep env disciplined S (S\<lparr>sy_a := (sy_a S)\<lparr>as_kick := as_kick (sy_a S) - 1\<rparr>, sy_scan := Some 0\<rparr>)"
| scan_one: "sy_scan S = Some k \<Longrightarrow> k < 32 \<Longrightarrow> scan_slot env k (sy_a S, sy_p S) = Ok (a, p) \<Longrightarrow>
    sstep env disciplined S (S\<lparr>sy_a := a, sy_p := p, sy_scan := Some (Suc k)\<rparr>)"
| scan_end: "sy_scan S = Some 32 \<Longrightarrow> sstep env disciplined S (S\<lparr>sy_scan := None\<rparr>)"

definition races_init :: sys where
  "races_init = \<lparr>sy_a = new_async, sy_ds = (\<lambda>_. Default), sy_th = (\<lambda>_. None), sy_scan = None, sy_p = no_handlers\<rparr>"

text \<open>A hook that fails its assertion or touches a freed handler, or a scan that does.\<close>

definition crashes :: "sig_env \<Rightarrow> sys \<Rightarrow> bool" where
  "crashes env S \<longleftrightarrow> (\<exists>t s i e. sy_th S t = Some (Hooked s i) \<and> queue_signal_info env s i (sy_a S) = Fault e \<and> e \<noteq> NoReturn)
     \<or> (\<exists>k e. sy_scan S = Some k \<and> k < 32 \<and> scan_slot env k (sy_a S, sy_p S) = Fault e)"

subsection \<open>The invariant of disciplined callers\<close>

fun sect_ok :: "async \<Rightarrow> (nat \<Rightarrow> disposition) \<Rightarrow> sect \<Rightarrow> bool" where
  "sect_ok a ds (Publish s h one) = (s < 32 \<and> as_heap a h \<noteq> None \<and> (\<forall>i < 32. as_handlers a ! i \<noteq> Some h))"
| "sect_ok a ds (Kick s one) = (s < 32 \<and> as_handlers a ! s \<noteq> None)"
| "sect_ok a ds (Install s one) = (s < 32 \<and> as_handlers a ! s \<noteq> None)"
| "sect_ok a ds (Drop s h) = (s < 32 \<and> as_handlers a ! s = Some h \<and> ds s = Default)"
| "sect_ok a ds (Free s h) = (h < as_next a \<and> (\<forall>i < 32. as_handlers a ! i \<noteq> Some h))"
| "sect_ok a ds (Hooked s i) = (s < 32 \<and> as_handlers a ! s \<noteq> None)"

fun drops :: "sect \<Rightarrow> sect \<Rightarrow> bool" where
  "drops (Drop s h) (Hooked s' i) = (s = s')"
| "drops _ _ = False"

definition clash :: "sect \<Rightarrow> sect \<Rightarrow> bool" where
  "clash x y \<longleftrightarrow> (sect_sig x \<noteq> None \<and> sect_sig x = sect_sig y) \<or> (sect_ref x \<noteq> None \<and> sect_ref x = sect_ref y)
     \<or> drops x y \<or> drops y x"

lemma clash_sym: "clash x y \<Longrightarrow> clash y x"
  unfolding clash_def by metis

definition sys_ok :: "sys \<Rightarrow> bool" where
  "sys_ok S \<longleftrightarrow> hooks_ok (sy_a S) (sy_ds S) \<and> (\<forall>t x. sy_th S t = Some x \<longrightarrow> sect_ok (sy_a S) (sy_ds S) x)
     \<and> (\<forall>t u x y. sy_th S t = Some x \<longrightarrow> sy_th S u = Some y \<longrightarrow> t \<noteq> u \<longrightarrow> \<not> clash x y)"

lemma sys_okD:
  assumes "sys_ok S"
  shows "hooks_ok (sy_a S) (sy_ds S)" "sy_th S t = Some x \<Longrightarrow> sect_ok (sy_a S) (sy_ds S) x"
    "sy_th S t = Some x \<Longrightarrow> sy_th S u = Some y \<Longrightarrow> t \<noteq> u \<Longrightarrow> \<not> clash x y"
  using assms unfolding sys_ok_def by blast+

text \<open>A step of context \<open>t\<close>: its next section is right, and it keeps the others right.\<close>

lemma sys_ok_step:
  assumes S: "sys_ok S" and a: "hooks_ok a ds"
    and v: "\<And>x. v = Some x \<Longrightarrow> sect_ok a ds x \<and> (\<forall>u y. sy_th S u = Some y \<longrightarrow> u \<noteq> t \<longrightarrow> \<not> clash x y)"
    and fr: "\<And>u y. sy_th S u = Some y \<Longrightarrow> u \<noteq> t \<Longrightarrow> sect_ok (sy_a S) (sy_ds S) y \<Longrightarrow> sect_ok a ds y"
    and S': "sy_a S' = a" "sy_ds S' = ds" "sy_th S' = (sy_th S)(t := v)"
  shows "sys_ok S'"
proof -
  have "sect_ok a ds x" if "sy_th S' u = Some x" for u x
    using that fr [of u x] sys_okD(2) [OF S, of u x] v [of x] by (cases "u = t") (simp_all add: S')
  moreover have "\<not> clash x y" if "sy_th S' u = Some x" "sy_th S' k = Some y" "u \<noteq> k" for u k x y
  proof (cases "u = t \<or> k = t")
    case True
    then show ?thesis
    proof
      assume "u = t"
      then have "v = Some x" "sy_th S k = Some y" "k \<noteq> t" using that by (simp_all add: S')
      then show ?thesis using v by blast
    next
      assume "k = t"
      then have "v = Some y" "sy_th S u = Some x" "u \<noteq> t" using that by (simp_all add: S')
      then show ?thesis using v clash_sym by blast
    qed
  next
    case False
    then show ?thesis using that sys_okD(3) [OF S, of u x k y] by (simp add: S')
  qed
  ultimately show ?thesis using a unfolding sys_ok_def S' by blast
qed

lemma sect_ok_same:
  assumes "sect_ok a ds x" "as_handlers b = as_handlers a" "\<And>h. as_heap a h \<noteq> None \<Longrightarrow> as_heap b h \<noteq> None" "as_next a \<le> as_next b"
    "\<And>s h. x = Drop s h \<Longrightarrow> ds' s = ds s"
  shows "sect_ok b ds' x"
  using assms by (cases x) auto

lemma publish_int: "async_ok a \<Longrightarrow> i < 32 \<Longrightarrow> as_handlers (register_publish (int s) h a) ! i = (if i = s then h else as_handlers a ! i)"
  by (simp add: publish_nth)

lemma publish_rest: "as_heap (register_publish s h a) = as_heap a" "as_next (register_publish s h a) = as_next a"
  by (simp_all add: register_publish_def)

lemma not_clash:
  assumes "\<not> clash x y"
  shows "sect_sig x = Some s \<Longrightarrow> sect_sig y \<noteq> Some s" "sect_ref x = Some h \<Longrightarrow> sect_ref y \<noteq> Some h" "\<not> drops x y"
  using assms by (auto simp: clash_def)

text \<open>The frame of a change of one slot.\<close>

lemma sect_ok_publish:
  assumes ok: "async_ok a" and y: "sect_ok a ds y" and h: "\<And>k. h = Some k \<Longrightarrow> sect_ref y \<noteq> Some k"
    and s: "sect_sig y \<noteq> Some s" "\<And>i. y = Hooked s i \<Longrightarrow> h \<noteq> None"
  shows "sect_ok (register_publish (int s) h a) ds y"
  using y h s publish_int [OF ok, of _ s h] by (cases y) (auto simp: publish_rest split: if_splits)

lemma sect_ok_free:
  assumes y: "sect_ok a ds y" and h: "sect_ref y \<noteq> Some h"
  shows "sect_ok (free_handler h a) ds y"
  using y h by (cases y) (auto simp: free_handler_def)

lemma sys_ok_register:
  assumes S: "sys_ok S" and r: "register_alloc env signum f (sy_a S) = Ok (h, a)" and b: "\<not> busy S (nat signum)"
    and S': "S' = S\<lparr>sy_a := a, sy_th := (sy_th S)(t \<mapsto> Publish (nat signum) h one)\<rparr>"
  shows "sys_ok S'"
proof -
  note D = sys_okD [OF S]
  have ok: "async_ok (sy_a S)" and hk: "\<And>s. sy_ds S s \<noteq> Default \<Longrightarrow> s < 32 \<and> as_handlers (sy_a S) ! s \<noteq> None"
    using D(1) by (simp_all add: hooks_ok_def)
  note A = async_ok_alloc [OF ok r]
  have heap: "as_heap a k \<noteq> None" if "as_heap (sy_a S) k \<noteq> None" for k
    using r that by (auto simp: register_alloc_def c_assert_def sh_put_def split: if_splits)
  have nx: "as_next (sy_a S) \<le> as_next a"
    using r by (auto simp: register_alloc_def c_assert_def sh_put_def split: if_splits)
  have new: "sect_ref y \<noteq> Some h" if y: "sy_th S u = Some y" for u y
  proof
    assume e: "sect_ref y = Some h"
    have "sect_ok (sy_a S) (sy_ds S) y" by (rule D(2) [OF y])
    then show False using e A(3) async_okD(4) [OF ok, of h] by (cases y) auto
  qed
  have sg: "sect_sig y \<noteq> Some (nat signum)" if "sy_th S u = Some y" for u y
    using b that by (auto simp: busy_def)
  show ?thesis
  proof (rule sys_ok_step [OF S, of a "sy_ds S" "Some (Publish (nat signum) h one)" t])
    show "hooks_ok a (sy_ds S)" using A(1,4) hk by (simp add: hooks_ok_def)
    show "sect_ok a (sy_ds S) x \<and> (\<forall>u y. sy_th S u = Some y \<longrightarrow> u \<noteq> t \<longrightarrow> \<not> clash x y)" if "Some (Publish (nat signum) h one) = Some x" for x
    proof -
      have "\<not> clash (Publish (nat signum) h one) y" if "sy_th S u = Some y" for u y
        using new [OF that] sg [OF that] by (cases y) (auto simp: clash_def)
      then show ?thesis using that A(2,5,6,7) by auto
    qed
    show "sect_ok a (sy_ds S) y" if "sect_ok (sy_a S) (sy_ds S) y" for y
      by (rule sect_ok_same [OF that A(4)]) (use heap nx in simp_all)
  qed (simp_all add: S')
qed

lemma sys_ok_publish:
  assumes S: "sys_ok S" and t: "sy_th S t = Some (Publish s h one)"
    and S': "S' = S\<lparr>sy_a := register_publish (int s) (Some h) (sy_a S), sy_th := (sy_th S)(t \<mapsto> Kick s one)\<rparr>"
  shows "sys_ok S'"
proof -
  note D = sys_okD [OF S]
  have ok: "async_ok (sy_a S)" and hk: "\<And>s. sy_ds S s \<noteq> Default \<Longrightarrow> s < 32 \<and> as_handlers (sy_a S) ! s \<noteq> None"
    using D(1) by (simp_all add: hooks_ok_def)
  have x: "s < 32" "as_heap (sy_a S) h \<noteq> None" "\<forall>i < 32. as_handlers (sy_a S) ! i \<noteq> Some h" using D(2) [OF t] by simp_all
  note N = publish_int [OF ok, of _ s "Some h"]
  show ?thesis
  proof (rule sys_ok_step [OF S, of "register_publish (int s) (Some h) (sy_a S)" "sy_ds S" "Some (Kick s one)" t])
    have "async_ok (register_publish (int s) (Some h) (sy_a S))" by (rule async_ok_publish [OF ok]) (use x in auto)
    then show "hooks_ok (register_publish (int s) (Some h) (sy_a S)) (sy_ds S)" using hk N by (auto simp: hooks_ok_def)
    show "sect_ok (register_publish (int s) (Some h) (sy_a S)) (sy_ds S) v \<and> (\<forall>u y. sy_th S u = Some y \<longrightarrow> u \<noteq> t \<longrightarrow> \<not> clash v y)"
      if v: "Some (Kick s one) = Some v" for v
    proof -
      have "\<not> clash (Kick s one) y" if "sy_th S u = Some y" "u \<noteq> t" for u y
        using D(3) [OF t that(1)] that(2) by (cases y) (auto simp: clash_def)
      then show ?thesis using v N [OF x(1)] x(1) by auto
    qed
    show "sect_ok (register_publish (int s) (Some h) (sy_a S)) (sy_ds S) y" if "sy_th S u = Some y" "u \<noteq> t" "sect_ok (sy_a S) (sy_ds S) y" for u y
    proof -
      have "\<not> clash (Publish s h one) y" using D(3) [OF t that(1)] that(2) by simp
      then show ?thesis by (intro sect_ok_publish [OF ok that(3)]) (auto simp: clash_def)
    qed
  qed (simp_all add: S')
qed

lemma sys_ok_drop:
  assumes S: "sys_ok S" and t: "sy_th S t = Some (Drop s h)"
    and S': "S' = S\<lparr>sy_a := register_publish (int s) None (sy_a S), sy_th := (sy_th S)(t \<mapsto> Free s h)\<rparr>"
  shows "sys_ok S'"
proof -
  note D = sys_okD [OF S]
  have ok: "async_ok (sy_a S)" and hk: "\<And>s. sy_ds S s \<noteq> Default \<Longrightarrow> s < 32 \<and> as_handlers (sy_a S) ! s \<noteq> None"
    using D(1) by (simp_all add: hooks_ok_def)
  have x: "s < 32" "as_handlers (sy_a S) ! s = Some h" "sy_ds S s = Default" using D(2) [OF t] by simp_all
  have hn: "h < as_next (sy_a S)"
    using async_okD(3) [OF ok x(1,2)] async_okD(4) [OF ok, of h] by (meson not_le)
  note N = publish_int [OF ok, of _ s None]
  show ?thesis
  proof (rule sys_ok_step [OF S, of "register_publish (int s) None (sy_a S)" "sy_ds S" "Some (Free s h)" t])
    have "async_ok (register_publish (int s) None (sy_a S))" by (rule async_ok_publish [OF ok]) simp
    then show "hooks_ok (register_publish (int s) None (sy_a S)) (sy_ds S)" using hk N x(3) by (auto simp: hooks_ok_def)
    show "sect_ok (register_publish (int s) None (sy_a S)) (sy_ds S) v \<and> (\<forall>u y. sy_th S u = Some y \<longrightarrow> u \<noteq> t \<longrightarrow> \<not> clash v y)"
      if v: "Some (Free s h) = Some v" for v
    proof -
      have "\<not> clash (Free s h) y" if y: "sy_th S u = Some y" "u \<noteq> t" for u y
      proof -
        have "\<not> clash (Drop s h) y" using D(3) [OF t y(1)] y(2) by simp
        moreover have "sect_ref y \<noteq> Some h" using D(2) [OF y(1)] x(1,2) by (cases y) auto
        ultimately show ?thesis by (cases y) (auto simp: clash_def)
      qed
      moreover have "as_handlers (register_publish (int s) None (sy_a S)) ! i \<noteq> Some h" if "i < 32" for i
        using N [OF that] async_okD(2) [OF ok that x(1) _ x(2)] by auto
      ultimately show ?thesis using v hn by (auto simp: publish_rest)
    qed
    show "sect_ok (register_publish (int s) None (sy_a S)) (sy_ds S) y" if "sy_th S u = Some y" "u \<noteq> t" "sect_ok (sy_a S) (sy_ds S) y" for u y
    proof -
      have "\<not> clash (Drop s h) y" using D(3) [OF t that(1)] that(2) by simp
      then show ?thesis by (intro sect_ok_publish [OF ok that(3)]) (auto simp: clash_def)
    qed
  qed (simp_all add: S')
qed

text \<open>A step that keeps the array, and every handler object that was there.\<close>

lemma sys_ok_kept:
  assumes S: "sys_ok S" and a: "hooks_ok a ds" "as_handlers a = as_handlers (sy_a S)"
      "\<And>h. as_heap (sy_a S) h \<noteq> None \<Longrightarrow> as_heap a h \<noteq> None" "as_next (sy_a S) \<le> as_next a"
    and ds: "\<And>u s h. sy_th S u = Some (Drop s h) \<Longrightarrow> u \<noteq> t \<Longrightarrow> ds s = sy_ds S s"
    and v: "\<And>x. v = Some x \<Longrightarrow> sect_ok a ds x \<and> (\<forall>u y. sy_th S u = Some y \<longrightarrow> u \<noteq> t \<longrightarrow> \<not> clash x y)"
    and S': "sy_a S' = a" "sy_ds S' = ds" "sy_th S' = (sy_th S)(t := v)"
  shows "sys_ok S'"
proof (rule sys_ok_step [OF S a(1) v _ S'])
  show "sect_ok a ds y" if "sy_th S u = Some y" "u \<noteq> t" "sect_ok (sy_a S) (sy_ds S) y" for u y
    by (rule sect_ok_same [OF that(3) a(2)]) (use a(3,4) ds that in auto)
qed

lemma sys_ok_same:
  assumes "sys_ok S" "hooks_ok a (sy_ds S)" "as_handlers a = as_handlers (sy_a S)"
    "\<And>h. as_heap (sy_a S) h \<noteq> None \<Longrightarrow> as_heap a h \<noteq> None" "as_next (sy_a S) \<le> as_next a"
    "sy_a S' = a" "sy_ds S' = sy_ds S" "sy_th S' = sy_th S"
  shows "sys_ok S'"
proof -
  have "sect_ok a (sy_ds S) x" if "sy_th S t = Some x" for t x
    by (rule sect_ok_same [OF sys_okD(2) [OF assms(1) that] assms(3)]) (use assms(4,5) in simp_all)
  then show ?thesis using assms(2,6-8) sys_okD(3) [OF assms(1)] unfolding sys_ok_def by metis
qed

lemma scan_slot_keeps:
  assumes "scan_slot env k (a, p) = Ok (b, q)" "as_heap a h \<noteq> None"
  shows "as_heap b h \<noteq> None" "as_next b = as_next a"
  using assms by (auto simp: scan_slot_def sh_put_def split: option.splits if_splits)

lemma sstep_ok: "sstep env True S S' \<Longrightarrow> sys_ok S \<Longrightarrow> sys_ok S'"
proof (induction rule: sstep.induct)
  case (register_begin S t signum f h a one)
  have "\<not> busy S (nat signum)" using register_begin(3) by simp
  from sys_ok_register [OF register_begin(4,2) this refl] show ?case .
next
  case (publish S t s h one)
  from sys_ok_publish [OF publish(3,1) refl] show ?case .
next
  case (kick S t s one a)
  note D = sys_okD [OF kick(3)]
  obtain n where a: "a = (sy_a S)\<lparr>as_kick := n\<rparr>" using signal_thread_ok [OF kick(2)] by blast
  have "hooks_ok a (sy_ds S)" using D(1) by (simp add: hooks_ok_def a)
  moreover have "sect_ok a (sy_ds S) (Install s one)" using D(2) [OF kick(1)] by (simp add: a)
  moreover have "\<not> clash (Install s one) y" if "sy_th S u = Some y" "u \<noteq> t" for u y
    using D(3) [OF kick(1) that(1)] that(2) by (cases y) (auto simp: clash_def)
  ultimately show ?case by (intro sys_ok_kept [OF kick(3), of a "sy_ds S" t "Some (Install s one)"]) (auto simp: a)
next
  case (install S t s one)
  note D = sys_okD [OF install(3)]
  have s: "s < 32" "as_handlers (sy_a S) ! s \<noteq> None" using D(2) [OF install(1)] by simp_all
  show ?case
  proof (rule sys_ok_kept [OF install(3), of "sy_a S" "(sy_ds S)(s := Hook one)" t None])
    show "hooks_ok (sy_a S) ((sy_ds S)(s := Hook one))" using D(1) s by (auto simp: hooks_ok_def)
    show "((sy_ds S)(s := Hook one)) k = sy_ds S k" if "sy_th S u = Some (Drop k h)" "u \<noteq> t" for u k h
      using D(3) [OF install(1) that(1)] that(2) by (auto simp: clash_def)
  qed simp_all
next
  case (unregister_begin S t s h x f)
  note D = sys_okD [OF unregister_begin(7)]
  have ok: "async_ok (sy_a S)" using D(1) by (simp add: hooks_ok_def)
  have h: "as_handlers (sy_a S) ! s = Some h" using unregister_begin(3) handler_at_ok [OF ok unregister_begin(2)] by simp
  have b: "\<not> busy S s" "\<not> hooking S s" using unregister_begin(6) by simp_all
  show ?case
  proof (rule sys_ok_kept [OF unregister_begin(7), of "sy_a S" "(sy_ds S)(s := Default)" t "Some (Drop s h)"])
    show "hooks_ok (sy_a S) ((sy_ds S)(s := Default))" using D(1) by (auto simp: hooks_ok_def)
    show "((sy_ds S)(s := Default)) k = sy_ds S k" if "sy_th S u = Some (Drop k j)" "u \<noteq> t" for u k j
      using D(2) [OF that(1)] by auto
    show "sect_ok (sy_a S) ((sy_ds S)(s := Default)) v \<and> (\<forall>u y. sy_th S u = Some y \<longrightarrow> u \<noteq> t \<longrightarrow> \<not> clash v y)"
      if v: "Some (Drop s h) = Some v" for v
    proof -
      have "\<not> clash (Drop s h) y" if y: "sy_th S u = Some y" for u y
      proof -
        have "sect_sig y \<noteq> Some s" "\<And>i. y \<noteq> Hooked s i" using b y by (auto simp: busy_def hooking_def)
        then show ?thesis by (cases y) (auto simp: clash_def)
      qed
      then show ?thesis using v h unregister_begin(2) by auto
    qed
  qed simp_all
next
  case (drop_entry S t s h)
  from sys_ok_drop [OF drop_entry(3,1) refl] show ?case .
next
  case (free S t s h)
  note D = sys_okD [OF free(2)]
  have x: "\<forall>i < 32. as_handlers (sy_a S) ! i \<noteq> Some h" using D(2) [OF free(1)] by simp
  show ?case
  proof (rule sys_ok_step [OF free(2), of "free_handler h (sy_a S)" "sy_ds S" None t])
    show "hooks_ok (free_handler h (sy_a S)) (sy_ds S)"
      using D(1) async_ok_free [OF _ x] by (simp add: hooks_ok_def) (simp add: free_handler_def)
    show "sect_ok (free_handler h (sy_a S)) (sy_ds S) y" if "sy_th S u = Some y" "u \<noteq> t" "sect_ok (sy_a S) (sy_ds S) y" for u y
      using sect_ok_free [OF that(3)] D(3) [OF free(1) that(1)] that(2) by (auto simp: clash_def)
  qed simp_all
next
  case (hook_begin S t s one i)
  note D = sys_okD [OF hook_begin(3)]
  let ?ds = "if one then (sy_ds S)(s := Default) else sy_ds S"
  have s: "s < 32" "as_handlers (sy_a S) ! s \<noteq> None" using D(1) hook_begin(2) by (auto simp: hooks_ok_def)
  have nd: "y \<noteq> Drop s h" if "sy_th S u = Some y" for u y h using D(2) [OF that] hook_begin(2) by auto
  show ?case
  proof (rule sys_ok_kept [OF hook_begin(3), of "sy_a S" ?ds t "Some (Hooked s i)"])
    show "hooks_ok (sy_a S) ?ds" using D(1) by (auto simp: hooks_ok_def)
    show "?ds k = sy_ds S k" if "sy_th S u = Some (Drop k j)" "u \<noteq> t" for u k j using D(2) [OF that(1)] by auto
    show "sect_ok (sy_a S) ?ds v \<and> (\<forall>u y. sy_th S u = Some y \<longrightarrow> u \<noteq> t \<longrightarrow> \<not> clash v y)" if v: "Some (Hooked s i) = Some v" for v
    proof -
      have "\<not> clash (Hooked s i) y" if y: "sy_th S u = Some y" for u y
        using nd [OF y] by (cases y) (auto simp: clash_def)
      then show ?thesis using v s by auto
    qed
  qed simp_all
next
  case (hook_write S t s i a)
  note D = sys_okD [OF hook_write(3)]
  obtain h y where a: "as_heap (sy_a S) h \<noteq> None" "a = sh_put h y (sy_a S)"
    using hook_write(2) by (auto simp: queue_signal_info_def sh_deref_def c_assert_def split: if_splits option.splits)
  show ?case
    by (rule sys_ok_kept [OF hook_write(3), of a "sy_ds S" t None]) (use put_hooks [OF D(1) a(1)] a in \<open>simp_all add: sh_put_def\<close>)
next
  case (scan_begin S f)
  note D = sys_okD [OF scan_begin(4)]
  have "hooks_ok ((sy_a S)\<lparr>as_kick := n\<rparr>) (sy_ds S)" for n using D(1) by (simp add: hooks_ok_def)
  then show ?case by (intro sys_ok_same [OF scan_begin(4)]) simp_all
next
  case (scan_one S k a p)
  note D = sys_okD [OF scan_one(4)]
  have ok: "async_ok (sy_a S)" using D(1) by (simp add: hooks_ok_def)
  have r: "async_ok a" "as_handlers a = as_handlers (sy_a S)"
    using scan_slot_Ok [OF ok scan_one(2), of env "sy_p S"] scan_one(3) by auto
  have n: "as_next a = as_next (sy_a S)" using scan_one(3) by (auto simp: scan_slot_def sh_put_def split: option.splits if_splits)
  show ?case
    by (rule sys_ok_same [OF scan_one(4), of a]) (use r D(1) n scan_slot_keeps(1) [OF scan_one(3)] in \<open>simp_all add: hooks_ok_def\<close>)
next
  case (scan_end S)
  then show ?case by (simp add: sys_ok_def)
qed

lemma sys_ok_init: "sys_ok races_init"
  by (simp add: sys_ok_def races_init_def hooks_ok_def async_ok_new)

lemma sys_ok_safe: "sys_ok S \<Longrightarrow> \<not> crashes env S"
proof
  assume S: "sys_ok S" and c: "crashes env S"
  note D = sys_okD [OF S]
  have ok: "async_ok (sy_a S)" using D(1) by (simp add: hooks_ok_def)
  from c consider (hook) t s i e where "sy_th S t = Some (Hooked s i)" "queue_signal_info env s i (sy_a S) = Fault e" "e \<noteq> NoReturn"
    | (scan) k e where "k < 32" "scan_slot env k (sy_a S, sy_p S) = Fault e"
    unfolding crashes_def by blast
  then show False
  proof cases
    case hook
    then obtain h where h: "s < 32" "as_handlers (sy_a S) ! s = Some h" using D(2) [OF hook(1)] by auto
    show False using queue_info_cases [OF ok h, of env i] hook(2,3) by (auto split: if_splits)
  next
    case scan
    then show False using scan_slot_Ok [OF ok scan(1), of env "sy_p S"] by auto
  qed
qed

interpretation dc: invariant_system "sstep env True" sys_ok for env
  by unfold_locales (rule sstep_ok)

subsection \<open>Properties\<close>

text \<open>C6: with disciplined callers no interleaving of registrations, removals, signals and the thread's scan fails the
  hook's assertion or touches a freed handler: the hook may read the array without the lock.\<close>

theorem disciplined_never_crashes:
  "(sstep env True)\<^sup>*\<^sup>* races_init S \<Longrightarrow> \<not> crashes env S"
  by (rule sys_ok_safe [OF dc.steps_inv [OF _ sys_ok_init]])

lemma disciplined_never_crashes_witness:
  "\<exists>S. (sstep sample_sig_env True)\<^sup>*\<^sup>* races_init S \<and> sy_th S 0 = Some (Publish 1 0 False) \<and> \<not> crashes sample_sig_env S"
proof -
  obtain h a where r: "register_alloc sample_sig_env 1 7 (sy_a races_init) = Ok (h, a)" "h = 0"
    by (simp add: register_alloc_def races_init_def new_async_def sample_sig_env_def)
  have "sstep sample_sig_env True races_init (races_init\<lparr>sy_a := a, sy_th := (sy_th races_init)(0 \<mapsto> Publish (nat 1) h False)\<rparr>)"
    by (rule sstep.register_begin [OF _ r(1)]) (simp_all add: races_init_def busy_def)
  then have "(sstep sample_sig_env True)\<^sup>*\<^sup>* races_init (races_init\<lparr>sy_a := a, sy_th := (sy_th races_init)(0 \<mapsto> Publish (nat 1) h False)\<rparr>)"
    by blast
  from disciplined_never_crashes [OF this] this show ?thesis using r(2) by (intro exI) (auto simp: races_init_def)
qed

text \<open>Without that discipline the claim of the comment fails: a hook that was entered before its signal's removal
  ends its work finds no entry, and its assertion stops the process.\<close>

theorem removal_races_with_hook:
  assumes "pipe_ok env" "sigaction_ok env" "0 < pipe_cap env"
  shows "\<exists>S. (sstep env False)\<^sup>*\<^sup>* races_init S \<and> sy_th S 1 = Some (Hooked 1 zero_info)
    \<and> queue_signal_info env 1 zero_info (sy_a S) = Fault AssertFail \<and> crashes env S"
proof -
  define a1 where "a1 = sh_put 0 \<lparr>info_t = zero_info, sh_pipe = 0, sh_handler = 7\<rparr> (new_async\<lparr>as_next := 1\<rparr>)"
  define a2 where "a2 = register_publish (int 1) (Some 0) a1"
  define a3 where "a3 = a2\<lparr>as_kick := 1\<rparr>"
  define a4 where "a4 = register_publish (int 1) None a3"
  define th where "th = (\<lambda>x y. (\<lambda>_ :: nat. None)(0 := x, 1 := y :: sect option))"
  define st where "st = (\<lambda>a ds x y. \<lparr>sy_a = a, sy_ds = ds, sy_th = th x y, sy_scan = None, sy_p = no_handlers\<rparr>)"
  let ?d = "\<lambda>_. Default" and ?h = "(\<lambda>_. Default)(1 := Hook False)"
  have upd: "(th x y)(0 := z) = th z y" "(th x y)(1 := z) = th x z" "(th x y)(Suc 0 := z) = th x z" for x y z
    by (auto simp: th_def fun_eq_iff)
  have at: "th x y 0 = x" "th x y 1 = y" "th x y (Suc 0) = y" for x y by (simp_all add: th_def)
  have nth: "as_handlers a3 ! 1 = Some 0" "length (as_handlers a3) = 32" "as_heap a3 0 = Some \<lparr>info_t = zero_info, sh_pipe = 0, sh_handler = 7\<rparr>"
    by (simp_all add: a3_def a2_def a1_def register_publish_def sh_put_def new_async_def)
  have nth4: "as_handlers a4 ! 1 = None" "length (as_handlers a4) = 32" using nth by (simp_all add: a4_def register_publish_def)
  have i: "races_init = st new_async ?d None None"
    by (simp add: races_init_def st_def th_def fun_eq_iff)
  have "sstep env False (st new_async ?d None None) (st a1 ?d (Some (Publish 1 0 False)) None)"
    using sstep.register_begin [of "st new_async ?d None None" 0 env 1 7 0 a1 False False] assms(1)
    by (simp add: st_def upd at a1_def register_alloc_def new_async_def)
  moreover have "sstep env False (st a1 ?d (Some (Publish 1 0 False)) None) (st a2 ?d (Some (Kick 1 False)) None)"
    using sstep.publish [of "st a1 ?d (Some (Publish 1 0 False)) None" 0 1 0 False env False] by (simp add: st_def upd at a2_def)
  moreover have "sstep env False (st a2 ?d (Some (Kick 1 False)) None) (st a3 ?d (Some (Install 1 False)) None)"
    using sstep.kick [of "st a2 ?d (Some (Kick 1 False)) None" 0 1 False env a3 False] assms(3)
    by (simp add: st_def upd at a3_def signal_thread_def pipe_write_def a2_def a1_def new_async_def register_publish_def sh_put_def)
  moreover have "sstep env False (st a3 ?d (Some (Install 1 False)) None) (st a3 ?h None None)"
    using sstep.install [of "st a3 ?d (Some (Install 1 False)) None" 0 1 False env False] assms(2) by (simp add: st_def upd at)
  moreover have "sstep env False (st a3 ?h None None) (st a3 ?h None (Some (Hooked 1 zero_info)))"
    using sstep.hook_begin [of "st a3 ?h None None" 1 1 False env False zero_info] by (simp add: st_def upd at)
  moreover have "sstep env False (st a3 ?h None (Some (Hooked 1 zero_info))) (st a3 (?h(1 := Default)) (Some (Drop 1 0)) (Some (Hooked 1 zero_info)))"
    using sstep.unregister_begin [of "st a3 ?h None (Some (Hooked 1 zero_info))" 0 1 0 "\<lparr>info_t = zero_info, sh_pipe = 0, sh_handler = 7\<rparr>" 7 False env] nth
    by (simp add: st_def upd at handler_at_def sh_deref_def del: fun_upd_apply fun_upd_upd)
  moreover have "sstep env False (st a3 (?h(1 := Default)) (Some (Drop 1 0)) (Some (Hooked 1 zero_info)))
      (st a4 (?h(1 := Default)) (Some (Free 1 0)) (Some (Hooked 1 zero_info)))"
    using sstep.drop_entry [of "st a3 (?h(1 := Default)) (Some (Drop 1 0)) (Some (Hooked 1 zero_info))" 0 1 0 env False]
    by (simp add: st_def upd at a4_def del: fun_upd_apply fun_upd_upd)
  ultimately have "(sstep env False)\<^sup>*\<^sup>* races_init (st a4 (?h(1 := Default)) (Some (Free 1 0)) (Some (Hooked 1 zero_info)))"
    unfolding i by (meson rtranclp.rtrancl_into_rtrancl rtranclp.rtrancl_refl)
  moreover have "queue_signal_info env 1 zero_info a4 = Fault AssertFail"
    using nth4 by (simp add: queue_signal_info_def handler_at_def c_assert_def)
  moreover have "sy_th (st a4 ds x (Some (Hooked 1 zero_info))) 1 = Some (Hooked 1 zero_info)" "sy_a (st a4 ds x y) = a4" for ds x y
    by (simp_all add: st_def at)
  ultimately show ?thesis unfolding crashes_def by (metis fault.distinct(7))
qed

lemma removal_races_with_hook_witness:
  "\<exists>S. (sstep sample_sig_env False)\<^sup>*\<^sup>* races_init S \<and> crashes sample_sig_env S"
  using removal_races_with_hook [of sample_sig_env] by (auto simp: sample_sig_env_def)

end
