(* ===== verification/Backtrace.thy ===== *)
theory Backtrace
  imports Transition_Systems
begin

section \<open>Backtraces: common/backtrace.hpp and backtrace.cpp\<close>

text \<open>
  The lines of \<open>backtrace_symbols\<close> and \<open>abi::__cxa_demangle\<close> (\<open>None\<close>: a status other than 0) are
  parameters. The buffer of the bounded \<open>print\<close> is a list of its size; a copy past its end and an
  overflow of the \<open>int\<close> position are undefined.
\<close>

subsection \<open>One line\<close>

text \<open>The loop over the line: the place behind the last \<open>(\<close> and the place of the last \<open>+\<close>.\<close>

fun find_marks :: "string \<Rightarrow> nat \<Rightarrow> nat option \<Rightarrow> nat option \<Rightarrow> nat option \<times> nat option" where
  "find_marks [] j b e = (b, e)"
| "find_marks (c # cs) j b e =
     (if c = CHR ''('' then find_marks cs (Suc j) (Some (Suc j)) e
      else if c = CHR ''+'' then find_marks cs (Suc j) b (Some j)
      else find_marks cs (Suc j) b e)"

definition demangle :: "(string \<Rightarrow> string option) \<Rightarrow> string \<Rightarrow> string" where
  "demangle cxa name =
     (case find_marks name 0 None None of
        (Some b, Some e) \<Rightarrow>
          if b < e
          then let mangled = drop b (take e name) in
            (case (if take 2 mangled = ''_Z'' then cxa mangled else None) of
               Some demangled \<Rightarrow> ''('' @ demangled @ drop e name
             | None \<Rightarrow> mangled @ ''()'')
          else name
      | _ \<Rightarrow> name)"

subsection \<open>All lines\<close>

definition max_frames :: nat where "max_frames = 32"

record back_trace =
  bt_skip :: nat
  nr_frames :: nat
  bt_strings :: "string list"

text \<open>\<open>frames n\<close>: the call stack as \<open>backtrace\<close> and \<open>backtrace_symbols\<close> give it for \<open>n\<close> places.\<close>

definition new_back_trace :: "(nat \<Rightarrow> string list) \<Rightarrow> nat \<Rightarrow> back_trace" where
  "new_back_trace frames s = \<lparr>bt_skip = s, nr_frames = length (frames max_frames), bt_strings = frames max_frames\<rparr>"

fun print_stream_loop :: "(string \<Rightarrow> string option) \<Rightarrow> back_trace \<Rightarrow> nat list \<Rightarrow> bool \<Rightarrow> string \<Rightarrow> string" where
  "print_stream_loop cxa bt [] first out = out"
| "print_stream_loop cxa bt (i # is) first out =
     print_stream_loop cxa bt is False
       (out @ (if first then [] else [CHR 0x0A]) @ '' '' @ to_string (i - bt_skip bt + 1) @ '': '' @ demangle cxa (bt_strings bt ! i))"

definition print_stream :: "(string \<Rightarrow> string option) \<Rightarrow> back_trace \<Rightarrow> string \<Rightarrow> string" where
  "print_stream cxa bt out = print_stream_loop cxa bt [bt_skip bt..<nr_frames bt] True out"

subsection \<open>Into a buffer\<close>

definition mem_write :: "nat \<Rightarrow> string \<Rightarrow> string \<Rightarrow> string res" where
  "mem_write k s buf =
     (if k + length s \<le> length buf then Ok (take k buf @ s @ drop (k + length s) buf) else Fault Undefined)"

text \<open>\<open>k += n\<close> for the \<open>int\<close> \<open>k\<close>.\<close>

definition int_advance :: "nat \<Rightarrow> nat \<Rightarrow> nat res" where
  "int_advance k n = (if k + n < 2 ^ 31 then Ok (k + n) else Fault Undefined)"

fun print_loop ::
    "(string \<Rightarrow> string option) \<Rightarrow> string list \<Rightarrow> nat \<Rightarrow> u64 \<Rightarrow> string \<Rightarrow> (nat \<times> string) res" where
  "print_loop cxa [] k l out = Ok (k, out)"
| "print_loop cxa (line # lines) k l out =
     (if 0 < l
      then let s = demangle cxa line; n = min (of_nat (length s)) l in
        rbind (mem_write k (take (unat n) s) out) (\<lambda>out.
          let l = l - n in
          rbind (int_advance k (unat n)) (\<lambda>k.
            if 0 < l
            then rbind (mem_write k [CHR 0x0A] out) (\<lambda>out.
                   rbind (int_advance k 1) (\<lambda>k. print_loop cxa lines k (l - 1) out))
            else print_loop cxa lines k l out))
      else Ok (k, out))"

definition print_buf :: "(string \<Rightarrow> string option) \<Rightarrow> back_trace \<Rightarrow> string \<Rightarrow> u64 \<Rightarrow> string res" where
  "print_buf cxa bt out len =
     rbind (print_loop cxa (drop (bt_skip bt) (take (nr_frames bt) (bt_strings bt))) 0 (len - 1) out)
       (\<lambda>(k, out). mem_write k [CHR 0x00] out)"

subsection \<open>Lemmas\<close>

lemma find_marks_plain:
  "CHR ''('' \<notin> set s \<Longrightarrow> CHR ''+'' \<notin> set s \<Longrightarrow> find_marks (s @ t) j b e = find_marks t (j + length s) b e"
  by (induction s arbitrary: j) auto

lemma find_marks_begin:
  "CHR ''('' \<notin> set s \<Longrightarrow> fst (find_marks s j b e) = b"
  by (induction s j b e rule: find_marks.induct) auto

lemma find_marks_append: "find_marks (s @ t) j b e = (case find_marks s j b e of (b, e) \<Rightarrow> find_marks t (j + length s) b e)"
  by (induction s j b e rule: find_marks.induct) auto

text \<open>The marks are the place behind the last \<open>(\<close> and the place of the last \<open>+\<close>.\<close>

definition last_at :: "char \<Rightarrow> string \<Rightarrow> nat \<Rightarrow> bool" where
  "last_at c s i \<longleftrightarrow> i < length s \<and> s ! i = c \<and> (\<forall>k. i < k \<longrightarrow> k < length s \<longrightarrow> s ! k \<noteq> c)"

lemma last_at_snoc: "last_at c (s @ [x]) i \<longleftrightarrow> (if x = c then i = length s else last_at c s i)"
  by (auto simp: last_at_def nth_append less_Suc_eq)

lemma find_marks_begins: "fst (find_marks s 0 None None) = Some b \<Longrightarrow> \<exists>i. b = Suc i \<and> last_at CHR ''('' s i"
proof (induction s rule: rev_induct)
  case (snoc c s)
  then show ?case
    by (cases "find_marks s 0 None None") (auto simp: find_marks_append last_at_snoc split: if_splits)
qed simp

lemma find_marks_ends: "snd (find_marks s 0 None None) = Some e \<Longrightarrow> last_at CHR ''+'' s e"
proof (induction s rule: rev_induct)
  case (snoc c s)
  then show ?case
    by (cases "find_marks s 0 None None") (auto simp: find_marks_append last_at_snoc split: if_splits)
qed simp

lemma demangle_changes:
  assumes "demangle cxa line \<noteq> line"
  shows "\<exists>path nm rest. line = path @ ''('' @ nm @ ''+'' @ rest \<and> nm \<noteq> [] \<and> CHR ''('' \<notin> set (nm @ rest) \<and> CHR ''+'' \<notin> set rest"
proof -
  obtain b e where m: "find_marks line 0 None None = (Some b, Some e)" "b < e"
    using assms by (auto simp: demangle_def split: prod.splits option.splits if_splits)
  obtain i where i: "b = Suc i" "last_at CHR ''('' line i" using find_marks_begins [of line b] m(1) by auto
  have e: "last_at CHR ''+'' line e" using find_marks_ends [of line e] m(1) by simp
  let ?v = "drop (Suc i) line" and ?w = "drop (Suc e) line"
  have li: "line = take i line @ ''('' @ ?v" using i(2) id_take_nth_drop [of i line] by (simp add: last_at_def)
  define d where "d = e - Suc i"
  have d: "0 < d" "d < length ?v" "?v ! d = CHR ''+''" "drop (Suc d) ?v = ?w"
    using m(2) i(1) e diff_less_mono [of e "length line" "Suc i"] by (simp_all add: d_def last_at_def)
  have v: "?v = take d ?v @ ''+'' @ ?w" using id_take_nth_drop [OF d(2)] d(3,4) by simp
  have "CHR ''('' \<notin> set ?v" using i(2) by (auto simp: last_at_def in_set_conv_nth)
  moreover have "CHR ''+'' \<notin> set ?w" using e by (auto simp: last_at_def in_set_conv_nth)
  moreover have "take d ?v \<noteq> []" using d(1,2) by (cases ?v) auto
  moreover have "line = take i line @ ''('' @ take d ?v @ ''+'' @ ?w" using li v by metis
  moreover have "CHR ''('' \<notin> set (take d ?v @ ?w)" using calculation(1) v by (metis Un_iff set_append)
  ultimately show ?thesis by blast
qed

lemma mem_write_prefix:
  assumes "length p = k" "k + length s \<le> length buf" "take k buf = p"
  shows "\<exists>buf'. mem_write k s buf = Ok buf' \<and> take (k + length s) buf' = p @ s \<and> length buf' = length buf"
  using assms by (intro exI [of _ "take k buf @ s @ drop (k + length s) buf"]) (auto simp: mem_write_def)

text \<open>What the bounded print is for: the lines, each with its end, cut to the room.\<close>

definition print_text :: "(string \<Rightarrow> string option) \<Rightarrow> string list \<Rightarrow> string" where
  "print_text cxa lines = concat (map (\<lambda>s. demangle cxa s @ [CHR 0x0A]) lines)"

lemma print_loop_Ok:
  "take k out = p \<Longrightarrow> length p = k \<Longrightarrow> k + unat l < length out \<Longrightarrow> length out \<le> 2 ^ 31 \<Longrightarrow>
    \<forall>s \<in> set lines. length (demangle cxa s) < 2 ^ 64 \<Longrightarrow>
    \<exists>k' out'. print_loop cxa lines k l out = Ok (k', out') \<and> take k' out' = p @ take (unat l) (print_text cxa lines)
      \<and> length out' = length out \<and> k' = length (p @ take (unat l) (print_text cxa lines))"
proof (induction lines arbitrary: k l out p)
  case Nil
  then show ?case by (simp add: print_text_def)
next
  case (Cons line lines)
  show ?case
  proof (cases "0 < l")
    case False
    then have "unat l = 0" by (simp add: word_gt_0)
    then show ?thesis using Cons.prems False by simp
  next
    case True
    let ?s = "demangle cxa line"
    define n :: u64 where "n = min (of_nat (length ?s)) l"
    have sl: "length ?s < 2 ^ 64" using Cons.prems(5) by simp
    have n: "unat n = min (length ?s) (unat l)"
      using sl by (simp add: n_def min_def word_le_nat_alt unat_of_nat)
    let ?t = "take (unat n) ?s"
    have tl: "length ?t = unat n" using n by simp
    have nl': "unat n \<le> unat l" unfolding n by simp
    then have "k + length ?t \<le> length out" unfolding tl using Cons.prems(3) by linarith
    from mem_write_prefix [OF Cons.prems(2) this Cons.prems(1)] obtain o1 where
      o1: "mem_write k ?t out = Ok o1" "take (k + unat n) o1 = p @ ?t" "length o1 = length out"
      unfolding tl by blast
    have adv: "int_advance k (unat n) = Ok (k + unat n)" using Cons.prems(3,4) nl' by (simp add: int_advance_def)
    have nl: "n \<le> l" by (simp add: n_def)
    have rest: "unat (l - n) = unat l - unat n" using nl by (simp add: unat_sub word_le_nat_alt)
    have un: "print_loop cxa (line # lines) k l out = (if 0 < l - n
        then rbind (mem_write (k + unat n) [CHR 0x0A] o1) (\<lambda>out. rbind (int_advance (k + unat n) 1) (\<lambda>k. print_loop cxa lines k (l - n - 1) out))
        else print_loop cxa lines (k + unat n) (l - n) o1)"
      using True o1(1) adv unfolding n_def by (simp add: Let_def)
    have ok: "\<forall>s \<in> set lines. length (demangle cxa s) < 2 ^ 64" using Cons.prems(5) by simp
    show ?thesis
    proof (cases "0 < l - n")
      case False
      then have e: "unat l = unat n" "l - n = 0" using rest nl by (auto simp: word_gt_0)
      then have c: "length ?s \<ge> unat l" using n by linarith
      have "print_loop cxa lines (k + unat n) 0 o1 = Ok (k + unat n, o1)" by (cases lines) simp_all
      then have f: "print_loop cxa (line # lines) k l out = Ok (k + unat n, o1)" unfolding un e(2) by simp
      have "take (unat l) (print_text cxa (line # lines)) = ?t" using c e by (simp add: print_text_def)
      then show ?thesis
        unfolding f using o1(2,3) tl Cons.prems(2) by simp
    next
      case t: True
      then have lt: "unat n < unat l" using rest by (simp add: word_gt_0 word_less_nat_alt)
      then have full: "unat n = length ?s" "?t = ?s" using n by auto
      have pl: "length (p @ ?t) = k + unat n" using Cons.prems(2) tl by simp
      obtain o2 where o2: "mem_write (k + unat n) [CHR 0x0A] o1 = Ok o2" "take (k + unat n + 1) o2 = p @ ?t @ [CHR 0x0A]"
          "length o2 = length out"
        using mem_write_prefix [OF pl _ o1(2), of "[CHR 0x0A]"] o1(3) Cons.prems(3) lt by auto
      have adv2: "int_advance (k + unat n) 1 = Ok (k + unat n + 1)" using Cons.prems(3,4) lt by (simp add: int_advance_def)
      have r1: "unat (l - n - 1) = unat l - unat n - 1"
        using t rest by (metis unat_minus_one word_gt_0)
      have "k + unat n + 1 + unat (l - n - 1) < length o2" using r1 o2(3) Cons.prems(3) lt by simp
      from Cons.IH [OF o2(2) _ this _ ok] obtain k' out' where
        R: "print_loop cxa lines (k + unat n + 1) (l - n - 1) o2 = Ok (k', out')"
          "take k' out' = (p @ ?t @ [CHR 0x0A]) @ take (unat (l - n - 1)) (print_text cxa lines)" "length out' = length o2"
          "k' = length ((p @ ?t @ [CHR 0x0A]) @ take (unat (l - n - 1)) (print_text cxa lines))"
        using pl o2(3) Cons.prems(4) by auto
      have "take (unat l) (print_text cxa (line # lines)) = ?t @ [CHR 0x0A] @ take (unat (l - n - 1)) (print_text cxa lines)"
        using full lt r1 by (simp add: print_text_def take_Cons' )
      then show ?thesis
        using t o2(1,3) adv2 R unfolding un by simp
    qed
  qed
qed

lemma print_buf_Ok:
  assumes "0 < length out" "length out \<le> 2 ^ 31" "len = of_nat (length out)" "\<forall>s \<in> set (bt_strings bt). length (demangle cxa s) < 2 ^ 64"
  shows "\<exists>out'. print_buf cxa bt out len = Ok out' \<and> length out' = length out
    \<and> (let t = take (length out - 1) (print_text cxa (drop (bt_skip bt) (take (nr_frames bt) (bt_strings bt)))) in
        take (length t) out' = t \<and> out' ! length t = CHR 0x00)"
proof -
  let ?lines = "drop (bt_skip bt) (take (nr_frames bt) (bt_strings bt))"
  have "\<forall>s \<in> set ?lines. length (demangle cxa s) < 2 ^ 64" using assms(4) by (meson in_set_dropD in_set_takeD)
  moreover have l: "unat (len - 1) = length out - 1"
  proof -
    have u: "unat len = length out" using assms(2,3) by (simp add: unat_of_nat)
    then have "len \<noteq> 0" using assms(1) by auto
    then show ?thesis using u by (simp add: unat_minus_one)
  qed
  ultimately obtain k o1 where R: "print_loop cxa ?lines 0 (len - 1) out = Ok (k, o1)"
      "take k o1 = take (length out - 1) (print_text cxa ?lines)" "length o1 = length out"
      "k = length (take (length out - 1) (print_text cxa ?lines))"
    using print_loop_Ok [of 0 out "[]" "len - 1" ?lines cxa] assms(1,2) by auto
  define t where "t = take (length out - 1) (print_text cxa ?lines)"
  have kt: "k = length t" "take k o1 = t" using R(2,4) by (simp_all add: t_def)
  have "length t \<le> length out - 1" by (simp add: t_def)
  then have k: "k < length o1" using kt(1) R(3) assms(1) by linarith
  let ?o = "take k o1 @ [CHR 0x00] @ drop (Suc k) o1"
  have w: "mem_write k [CHR 0x00] o1 = Ok ?o" using k by (simp add: mem_write_def)
  have o: "take (length t) ?o = t" "?o ! length t = CHR 0x00" "length ?o = length out"
    unfolding kt(2) using k R(3) kt(1) by (simp_all add: nth_append)
  have "print_buf cxa bt out len = Ok ?o" by (simp only: print_buf_def R(1) w rbind_Inr prod.case)
  then show ?thesis using o unfolding Let_def t_def [symmetric] by blast
qed

subsection \<open>Properties\<close>

text \<open>C37: the rewriting of a line, whole. A line \<open>path(symbol+offset) [address]\<close>, with a symbol that is not empty and
  ends at the last \<open>+\<close>, becomes the demangled symbol in its parenthesis with the rest of the line when it is a mangled
  C++ name that demangles, and else \<open>symbol()\<close>. Every line that is not of this form is kept: one without \<open>(\<close> or
  \<open>+\<close>, with its last \<open>+\<close> before its last \<open>(\<close>, or with nothing between them, as in \<open>./prog(+0x1a3) [0x40]\<close>.\<close>

theorem demangle_spec:
  assumes "nm \<noteq> []" "CHR ''('' \<notin> set (nm @ rest)" "CHR ''+'' \<notin> set rest"
  shows "demangle cxa (path @ ''('' @ nm @ ''+'' @ rest) =
      (case (if take 2 nm = ''_Z'' then cxa nm else None) of
         Some d \<Rightarrow> ''('' @ d @ ''+'' @ rest | None \<Rightarrow> nm @ ''()'')
    \<and> (\<forall>line. (\<nexists>path nm rest. line = path @ ''('' @ nm @ ''+'' @ rest \<and> nm \<noteq> []
          \<and> CHR ''('' \<notin> set (nm @ rest) \<and> CHR ''+'' \<notin> set rest) \<longrightarrow> demangle cxa line = line)"
    (is "demangle cxa ?line = ?r \<and> _")
proof -
  have s: "CHR ''('' \<notin> set nm" "CHR ''('' \<notin> set rest" "CHR ''+'' \<notin> set rest" using assms by auto
  obtain b e where p: "find_marks path 0 None None = (b, e)" by fastforce
  have r: "find_marks rest k x y = (x, y)" for k x y using find_marks_plain [OF s(2,3), of "[]"] by simp
  have n: "find_marks nm k x y = (x, snd (find_marks nm k x y))" for k x y
    using find_marks_begin [OF s(1), of k x y] by (simp add: prod_eq_iff)
  have "find_marks ?line 0 None None = (Some (Suc (length path)), Some (Suc (length path) + length nm))"
    by (simp add: find_marks_append p r) (subst n, simp add: r)
  moreover have "drop (Suc (length path)) (take (Suc (length path) + length nm) ?line) = nm" by simp
  moreover have "drop (Suc (length path) + length nm) ?line = ''+'' @ rest" by simp
  ultimately have "demangle cxa ?line = ?r" using assms(1) by (simp add: demangle_def Let_def split: option.splits)
  then show ?thesis using demangle_changes by blast
qed

lemma demangle_spec_witness:
  "demangle (\<lambda>s. Some ''f(int)'') ''./prog(_Z1fi+0x1f) [0x40]'' = ''(f(int)+0x1f) [0x40]''"
proof -
  have "''_Z1fi'' \<noteq> []" "CHR ''('' \<notin> set (''_Z1fi'' @ ''0x1f) [0x40]'')" "CHR ''+'' \<notin> set ''0x1f) [0x40]''" by simp_all
  from demangle_spec [OF this, of "\<lambda>s. Some ''f(int)''" "''./prog''"] show ?thesis by simp
qed

text \<open>C12: the bounded print, whose loop counts down unsigned room and up a signed position, is the simple one: the
  lines, each demangled and ended, cut to one character less than the buffer and closed by a zero. It stays in the
  buffer for every size from 1 to \<open>2\<^sup>3\<^sup>1\<close>.\<close>

theorem print_buf_is_cut_text:
  assumes "0 < length out" "length out \<le> 2 ^ 31" "len = of_nat (length out)" "\<forall>s \<in> set (bt_strings bt). length (demangle cxa s) < 2 ^ 64"
  shows "\<exists>out'. print_buf cxa bt out len = Ok out' \<and> length out' = length out
    \<and> (let t = take (length out - 1) (print_text cxa (drop (bt_skip bt) (take (nr_frames bt) (bt_strings bt)))) in
        take (length t) out' = t \<and> out' ! length t = CHR 0x00)"
  by (rule print_buf_Ok [OF assms])

lemma print_buf_is_cut_text_witness:
  "\<exists>out'. print_buf (\<lambda>_. None) \<lparr>bt_skip = 1, nr_frames = 3, bt_strings = [''a(f+1)'', ''b(g+2)'', ''c'']\<rparr> ''xxxxxx'' 6 = Ok out'
    \<and> take 5 out' = [CHR ''g'', CHR ''('', CHR '')'', CHR 0x0A, CHR ''c''] \<and> out' ! 5 = CHR 0x00"
proof -
  let ?bt = "\<lparr>bt_skip = 1, nr_frames = 3, bt_strings = [''a(f+1)'', ''b(g+2)'', ''c'']\<rparr>"
  have d: "demangle (\<lambda>_. None) ''a(f+1)'' = ''f()''" "demangle (\<lambda>_. None) ''b(g+2)'' = ''g()''" "demangle (\<lambda>_. None) ''c'' = ''c''"
    by (simp_all add: demangle_def)
  have h: "0 < length ''xxxxxx''" "length ''xxxxxx'' \<le> 2 ^ 31" "(6 :: u64) = of_nat (length ''xxxxxx'')"
      "\<forall>s \<in> set (bt_strings ?bt). length (demangle (\<lambda>_. None) s) < 2 ^ 64"
    by (simp_all add: d)
  have t: "take (length ''xxxxxx'' - 1) (print_text (\<lambda>_. None) (drop (bt_skip ?bt) (take (nr_frames ?bt) (bt_strings ?bt))))
      = [CHR ''g'', CHR ''('', CHR '')'', CHR 0x0A, CHR ''c'']"
    by (simp add: print_text_def d)
  from print_buf_is_cut_text [OF h, unfolded t] show ?thesis by (auto simp: Let_def eval_nat_numeral)
qed

end
