(* ===== verification/Signals.thy ===== *)
theory Signals
  imports Backtrace
begin

section \<open>Signals: common/signal.cpp and signal\_handler.cpp\<close>

text \<open>
  A mask is a set of signal numbers. \<open>pthread_sigmask\<close>, \<open>sigaction\<close> and \<open>raise\<close> answer a code and act as
  documented: \<open>SIGKILL\<close> and \<open>SIGSTOP\<close> are never blocked. The handler of fatal signals is a step
  relation, because its point is what happens when it is entered again, by its own thread or another.
\<close>

subsection \<open>Masks\<close>

type_synonym sigset = "nat set"

definition SIGKILL :: nat where "SIGKILL = 9"
definition SIGSTOP :: nat where "SIGSTOP = 19"
definition SIGPIPE :: int where "SIGPIPE = 13"
definition NSIG :: nat where "NSIG = 65"

datatype sig_how = Sig_block | Sig_unblock | Sig_setmask

definition sigmask :: "sig_how \<Rightarrow> sigset \<Rightarrow> sigset \<Rightarrow> sigset" where
  "sigmask how s m = (case how of Sig_block \<Rightarrow> m \<union> s | Sig_unblock \<Rightarrow> m - s | Sig_setmask \<Rightarrow> s) - {SIGKILL, SIGSTOP}"

definition sigfillset :: sigset where
  "sigfillset = {1..<NSIG}"

definition sigaddset :: "sigset \<Rightarrow> int \<Rightarrow> sigset" where
  "sigaddset s signum = (if 0 < signum \<and> signum < int NSIG then insert (nat signum) s else s)"

text \<open>The list of \<open>block_signals\<close>, up to its 0; reading on past the end is undefined.\<close>

fun add_siglist :: "int list \<Rightarrow> sigset \<Rightarrow> sigset res" where
  "add_siglist [] s = Fault Undefined"
| "add_siglist (x # xs) s = (if x = 0 then Ok s else add_siglist xs (sigaddset s x))"

text \<open>The result is the old mask, for \<open>old_sigset\<close>, and the new one.\<close>

definition block_signals :: "int \<Rightarrow> int list option \<Rightarrow> sigset \<Rightarrow> (sigset \<times> sigset) res" where
  "block_signals ret siglist m =
     rbind (case siglist of None \<Rightarrow> Ok sigfillset | Some l \<Rightarrow> add_siglist l {}) (\<lambda>s.
       c_assert (ret = 0) (Ok (m, sigmask Sig_block s m)))"

definition restore_sigset :: "int \<Rightarrow> sigset \<Rightarrow> sigset \<Rightarrow> sigset res" where
  "restore_sigset ret old m = c_assert (ret = 0) (Ok (sigmask Sig_setmask old m))"

definition unblock_all_signals :: "int \<Rightarrow> sigset \<Rightarrow> (sigset \<times> sigset) res" where
  "unblock_all_signals ret m = c_assert (ret = 0) (Ok (m, sigmask Sig_unblock (sigfillset - {SIGKILL}) m))"

fun mask_loop :: "(nat \<Rightarrow> string) \<Rightarrow> sigset \<Rightarrow> nat list \<Rightarrow> string \<Rightarrow> string \<Rightarrow> string" where
  "mask_loop sig_str m [] sep oss = oss"
| "mask_loop sig_str m (signum # is) sep oss =
     (if signum \<in> m \<and> signum \<noteq> 0
      then mask_loop sig_str m is '', '' (oss @ sep @ sig_str signum @ '':'' @ to_string signum)
      else mask_loop sig_str m is sep oss)"

definition signal_mask_to_str :: "int \<Rightarrow> (nat \<Rightarrow> string) \<Rightarrow> sigset \<Rightarrow> string" where
  "signal_mask_to_str ret sig_str m =
     (if ret \<noteq> 0 then ''(pthread_signmask failed)''
      else mask_loop sig_str m [0..<NSIG] [] ''signal_mask: { '' @ '' }'')"

subsection \<open>Installing the handlers\<close>

text \<open>What a signal does: the default, the handler of fatal signals with its flags, or some other.\<close>

datatype action = Default_action | Fatal_action int | Other_action nat

definition SA_NODEFER :: int where "SA_NODEFER = 0x40000000"

text \<open>A failed \<open>sigaction\<close> exits with 1: \<open>Inl\<close> the exit code.\<close>

definition install_sighandler :: "(nat \<Rightarrow> int) \<Rightarrow> nat \<Rightarrow> (int \<Rightarrow> action) \<Rightarrow> int \<Rightarrow> (nat \<Rightarrow> action) \<Rightarrow> int + (nat \<Rightarrow> action)" where
  "install_sighandler sigaction signum handler flags acts =
     (if sigaction signum \<noteq> 0 then Inl 1 else Inr (acts(signum := handler flags)))"

definition fatal_signals :: "nat list" where
  "fatal_signals = [11, 6, 7, 4, 8, 24, 25, 31]"

fun install_loop :: "(nat \<Rightarrow> int) \<Rightarrow> nat list \<Rightarrow> (nat \<Rightarrow> action) \<Rightarrow> int + (nat \<Rightarrow> action)" where
  "install_loop sigaction [] acts = Inr acts"
| "install_loop sigaction (s # ss) acts =
     (case install_sighandler sigaction s Fatal_action SA_NODEFER acts of
        Inl r \<Rightarrow> Inl r | Inr acts \<Rightarrow> install_loop sigaction ss acts)"

definition install_fatal_sighandlers :: "(nat \<Rightarrow> int) \<Rightarrow> (nat \<Rightarrow> action) \<Rightarrow> int + (nat \<Rightarrow> action)" where
  "install_fatal_sighandlers sigaction acts = install_loop sigaction fatal_signals acts"

subsection \<open>The handler of fatal signals\<close>

text \<open>What the handler asks of the system: the texts, the stack of a thread, and what \<open>raise\<close> does.\<close>

datatype raised = Raise_kills | Raise_fails | Raise_returns

record fatal_env =
  fe_sig_str :: "nat \<Rightarrow> string"
  fe_self :: "nat \<Rightarrow> string"
  fe_name :: "nat \<Rightarrow> string"
  fe_frames :: "nat \<Rightarrow> nat \<Rightarrow> string list"
  fe_cxa :: "string \<Rightarrow> string option"
  fe_raise :: "nat \<Rightarrow> raised"

text \<open>
  Where a thread is in the handler, once for each time it is in it: at the exchange, before the banner, before the
  backtrace, at the three points of \<open>reraise_fatal\<close> (before \<open>signal\<close>, before \<open>raise\<close>, before the text about a \<open>raise\<close>
  that came back), and before \<open>exit\<close>.
\<close>

datatype frame = Entered nat | Report nat | Trace nat | Reraise nat | Raise nat | Say nat | Leave nat

datatype ending = Killed nat | Exit_code int

record fatal_sys =
  handler_tid :: nat
  f_act :: "nat \<Rightarrow> action"
  f_log :: "string list"
  f_stack :: "nat \<Rightarrow> frame list"
  f_end :: "ending option"

text \<open>The first of the two texts: \<open>snprintf\<close> keeps 1023 characters.\<close>

definition fatal_banner :: "fatal_env \<Rightarrow> nat \<Rightarrow> nat \<Rightarrow> string" where
  "fatal_banner env t signum =
     take 1023 (''*** Caught signal ('' @ fe_sig_str env signum @ '') in thread:'' @ fe_self env t @ '' thread_name:'' @
       fe_name env t @ '' ***'' @ [CHR 0x0A])"

text \<open>The second: the backtrace in a buffer of 1024, up to its zero.\<close>

definition fatal_trace :: "fatal_env \<Rightarrow> nat \<Rightarrow> string res" where
  "fatal_trace env t =
     rbind (print_buf (fe_cxa env) (new_back_trace (fe_frames env t) 1) (replicate 1024 (CHR 0x00)) 1024)
       (\<lambda>buf. Ok (takeWhile (\<lambda>c. c \<noteq> CHR 0x00) buf))"

text \<open>The default action is to kill; a \<open>raise\<close> that comes back is reported, and the process exits.\<close>

fun raise_text :: "raised \<Rightarrow> nat \<Rightarrow> string list" where
  "raise_text Raise_kills signum = []"
| "raise_text Raise_fails signum =
     [''reraise_fatal: failed to re-raise signal '' @ to_string signum @ [CHR 0x0A]]"
| "raise_text Raise_returns signum =
     [''reraise_fatal: default handler for signal '' @ to_string signum @ '' didn'' @ [CHR 0x27] @
        ''t terminate the process?'' @ [CHR 0x0A]]"

fun reraise_fatal :: "fatal_env \<Rightarrow> nat \<Rightarrow> frame \<Rightarrow> frame list \<Rightarrow> fatal_sys \<Rightarrow> fatal_sys" where
  "reraise_fatal env t (Reraise s) fs S =
     S\<lparr>f_act := (f_act S)(s := Default_action), f_stack := (f_stack S)(t := Raise s # fs)\<rparr>"
| "reraise_fatal env t (Raise s) fs S =
     (if fe_raise env s = Raise_kills then S\<lparr>f_end := Some (Killed s)\<rparr>
      else S\<lparr>f_stack := (f_stack S)(t := Say s # fs)\<rparr>)"
| "reraise_fatal env t (Say s) fs S =
     S\<lparr>f_log := f_log S @ raise_text (fe_raise env s) s, f_stack := (f_stack S)(t := Leave s # fs)\<rparr>"
| "reraise_fatal env t f fs S = S\<lparr>f_end := Some (Exit_code 1)\<rparr>"

text \<open>
  What thread \<open>t\<close> does next in the handler, one access of the shared state at a time: the exchange of
  \<open>handler_tid\<close>, the return of a signal that came on top of its own work or of another thread's, each of the writes to
  the log, and the steps of \<open>reraise_fatal\<close>. Nothing when it is not in the handler, or when the trace has no value.
\<close>

definition handler_step :: "fatal_env \<Rightarrow> nat \<Rightarrow> fatal_sys \<Rightarrow> fatal_sys option" where
  "handler_step env t S =
     (case f_stack S t of
        [] \<Rightarrow> None
      | f # fs \<Rightarrow>
         (case f of
            Entered s \<Rightarrow>
              Some (if handler_tid S = 0 then S\<lparr>handler_tid := t, f_stack := (f_stack S)(t := Report s # fs)\<rparr>
                    else if handler_tid S = t
                    then S\<lparr>f_act := (f_act S)(s := Default_action), f_stack := (f_stack S)(t := fs)\<rparr>
                    else S\<lparr>f_stack := (f_stack S)(t := fs)\<rparr>)
          | Report s \<Rightarrow> Some (S\<lparr>f_log := f_log S @ [fatal_banner env t s], f_stack := (f_stack S)(t := Trace s # fs)\<rparr>)
          | Trace s \<Rightarrow>
              (case fatal_trace env t of
                 Inl e \<Rightarrow> None
               | Inr tr \<Rightarrow> Some (S\<lparr>f_log := f_log S @ [tr], f_stack := (f_stack S)(t := Reraise s # fs)\<rparr>))
          | _ \<Rightarrow> Some (reraise_fatal env t f fs S)))"

text \<open>
  The process. Threads are numbered from 1, as \<open>handler_tid\<close> is 0 when free. A signal that has the handler enters it in
  some thread, whatever that thread is doing; a fatal signal with the default action kills the process; and any
  thread in the handler takes its next step.
\<close>

inductive fstep :: "fatal_env \<Rightarrow> fatal_sys \<Rightarrow> fatal_sys \<Rightarrow> bool" for env where
  arrive: "f_end S = None \<Longrightarrow> t \<noteq> 0 \<Longrightarrow> f_act S s = Fatal_action fl \<Longrightarrow>
    fstep env S (S\<lparr>f_stack := (f_stack S)(t := Entered s # f_stack S t)\<rparr>)"
| kill: "f_end S = None \<Longrightarrow> s \<in> set fatal_signals \<Longrightarrow> f_act S s = Default_action \<Longrightarrow>
    fstep env S (S\<lparr>f_end := Some (Killed s)\<rparr>)"
| handler: "f_end S = None \<Longrightarrow> handler_step env t S = Some S' \<Longrightarrow> fstep env S S'"

definition fatal_init :: "(nat \<Rightarrow> action) \<Rightarrow> fatal_sys" where
  "fatal_init acts = \<lparr>handler_tid = 0, f_act = acts, f_log = [], f_stack = (\<lambda>_. []), f_end = None\<rparr>"

subsection \<open>One report\<close>

fun entered :: "frame \<Rightarrow> bool" where
  "entered (Entered s) = True"
| "entered f = False"

abbreviation working :: "frame list \<Rightarrow> frame list" where
  "working fs \<equiv> filter (\<lambda>f. \<not> entered f) fs"

text \<open>What a thread at a frame has written, when it is the one that reports.\<close>

fun reported :: "fatal_env \<Rightarrow> nat \<Rightarrow> frame \<Rightarrow> string list \<Rightarrow> bool" where
  "reported env t (Entered s) l \<longleftrightarrow> False"
| "reported env t (Report s) l \<longleftrightarrow> l = []"
| "reported env t (Trace s) l \<longleftrightarrow> l = [fatal_banner env t s]"
| "reported env t (Reraise s) l \<longleftrightarrow> (\<exists>tr. fatal_trace env t = Ok tr \<and> l = [fatal_banner env t s, tr])"
| "reported env t (Raise s) l \<longleftrightarrow> (\<exists>tr. fatal_trace env t = Ok tr \<and> l = [fatal_banner env t s, tr])"
| "reported env t (Say s) l \<longleftrightarrow>
     fe_raise env s \<noteq> Raise_kills \<and> (\<exists>tr. fatal_trace env t = Ok tr \<and> l = [fatal_banner env t s, tr])"
| "reported env t (Leave s) l \<longleftrightarrow> fe_raise env s \<noteq> Raise_kills
     \<and> (\<exists>tr. fatal_trace env t = Ok tr \<and> l = fatal_banner env t s # tr # raise_text (fe_raise env s) s)"

text \<open>
  The frames that work belong to the thread that won, there is one, and the log is what it has written; the process exits
  by itself only at the end of it.
\<close>

definition fatal_ok :: "fatal_env \<Rightarrow> fatal_sys \<Rightarrow> bool" where
  "fatal_ok env S \<longleftrightarrow> f_stack S 0 = [] \<and> (\<forall>t. t \<noteq> handler_tid S \<longrightarrow> working (f_stack S t) = [])
     \<and> (if handler_tid S = 0 then f_log S = [] \<and> (\<forall>r. f_end S \<noteq> Some (Exit_code r))
        else \<exists>w. working (f_stack S (handler_tid S)) = [w] \<and> reported env (handler_tid S) w (f_log S)
               \<and> (\<forall>r. f_end S = Some (Exit_code r) \<longrightarrow> r = 1 \<and> (\<exists>s. w = Leave s)))"

lemma fatal_okD:
  assumes "fatal_ok env S"
  shows "f_stack S 0 = []" "t \<noteq> handler_tid S \<Longrightarrow> working (f_stack S t) = []"
    "f_stack S t = f # fs \<Longrightarrow> t \<noteq> 0"
    "f_stack S t = f # fs \<Longrightarrow> \<not> entered f \<Longrightarrow> handler_tid S = t \<and> working fs = [] \<and> reported env t f (f_log S)"
proof -
  show a: "f_stack S 0 = []" "t \<noteq> handler_tid S \<Longrightarrow> working (f_stack S t) = []"
    using assms by (auto simp: fatal_ok_def)
  show b: "f_stack S t = f # fs \<Longrightarrow> t \<noteq> 0" using a(1) by (cases "t = 0") auto
  assume f: "f_stack S t = f # fs" "\<not> entered f"
  then have "handler_tid S = t" using a(2) by fastforce
  then show "handler_tid S = t \<and> working fs = [] \<and> reported env t f (f_log S)"
    using f b assms by (auto simp: fatal_ok_def)
qed

lemma handler_step_ok:
  assumes "handler_step env t S = Some S'" "fatal_ok env S" "f_end S = None"
  shows "fatal_ok env S'"
proof -
  obtain f fs where st: "f_stack S t = f # fs"
    using assms(1) by (auto simp: handler_step_def split: list.splits)
  note ok = fatal_okD [OF assms(2)]
  have t: "t \<noteq> 0" by (rule ok(3) [OF st])
  show ?thesis
  proof (cases "entered f")
    case True
    then obtain s where f: "f = Entered s" by (cases f) auto
    consider (free) "handler_tid S = 0" | (mine) "handler_tid S = t" | (theirs) "handler_tid S \<noteq> 0" "handler_tid S \<noteq> t" by blast
    then show ?thesis
    proof cases
      case free
      have S': "S' = S\<lparr>handler_tid := t, f_stack := (f_stack S)(t := Report s # fs)\<rparr>"
        using assms(1) st f free by (simp add: handler_step_def)
      have w: "working (f_stack S u) = []" for u using ok(2) [of u] ok(1) free by (cases "u = 0") simp_all
      then have "working fs = []" using w [of t] st f by simp
      then show ?thesis using assms(2,3) free t w ok(1) by (simp add: S' fatal_ok_def)
    next
      case mine
      have "S' = S\<lparr>f_act := (f_act S)(s := Default_action), f_stack := (f_stack S)(t := fs)\<rparr>"
        using assms(1) st f mine t by (simp add: handler_step_def)
      then show ?thesis using assms(2,3) mine t st f by (simp add: fatal_ok_def)
    next
      case theirs
      have "S' = S\<lparr>f_stack := (f_stack S)(t := fs)\<rparr>"
        using assms(1) st f theirs by (simp add: handler_step_def)
      moreover have "working fs = []" using ok(2) [of t] theirs st f by simp
      ultimately show ?thesis using assms(2,3) theirs t by (simp add: fatal_ok_def)
    qed
  next
    case False
    note w = ok(4) [OF st False]
    have o: "u \<noteq> t \<Longrightarrow> working (f_stack S u) = []" for u using ok(2) [of u] w by simp
    have goal: "fatal_ok env S'" if "f_stack S' = (f_stack S)(t := f' # fs)" "\<not> entered f'" "handler_tid S' = handler_tid S"
        "reported env t f' (f_log S')" "\<forall>r. f_end S' = Some (Exit_code r) \<longrightarrow> r = 1 \<and> (\<exists>s. f' = Leave s)" for f'
      using that t w o ok(1) by (auto simp: fatal_ok_def)
    have upd: "(f_stack S)(t := f # fs) = f_stack S" using st by auto
    show ?thesis
    proof (cases f)
      case (Entered s) then show ?thesis using False by simp
    next
      case (Report s)
      then show ?thesis using assms(1,3) st w by (intro goal [of "Trace s"]) (auto simp: handler_step_def)
    next
      case (Trace s)
      then show ?thesis
        using assms(1,3) st w by (intro goal [of "Reraise s"]) (auto simp: handler_step_def split: sum.splits)
    next
      case (Reraise s)
      then show ?thesis using assms(1,3) st w by (intro goal [of "Raise s"]) (auto simp: handler_step_def)
    next
      case (Raise s)
      show ?thesis
      proof (cases "fe_raise env s = Raise_kills")
        case True
        then show ?thesis using Raise assms(1,3) st w upd by (intro goal [of "Raise s"]) (auto simp: handler_step_def)
      next
        case False
        then show ?thesis using Raise assms(1,3) st w by (intro goal [of "Say s"]) (auto simp: handler_step_def)
      qed
    next
      case (Say s)
      then show ?thesis using assms(1,3) st w by (intro goal [of "Leave s"]) (auto simp: handler_step_def)
    next
      case (Leave s)
      then show ?thesis using assms(1,3) st w upd by (intro goal [of "Leave s"]) (auto simp: handler_step_def)
    qed
  qed
qed

lemma fstep_ok: "fstep env S S' \<Longrightarrow> fatal_ok env S \<Longrightarrow> fatal_ok env S'"
proof (induction rule: fstep.induct)
  case (arrive S t s fl)
  then show ?case by (auto simp: fatal_ok_def split: if_splits)
next
  case (kill S s)
  then show ?case by (auto simp: fatal_ok_def split: if_splits)
next
  case (handler S t S')
  show ?case by (rule handler_step_ok [OF handler.hyps(2) handler.prems handler.hyps(1)])
qed

interpretation fh: invariant_system "fstep env" "fatal_ok env" for env
  by unfold_locales (rule fstep_ok)

lemma fatal_reach_ok: "(fstep env)\<^sup>*\<^sup>* (fatal_init acts) S \<Longrightarrow> fatal_ok env S"
  by (erule fh.steps_inv) (simp add: fatal_init_def fatal_ok_def)

lemma fatal_trace_Ok:
  assumes "\<forall>s \<in> set (fe_frames env t max_frames). length (demangle (fe_cxa env) s) < 2 ^ 64"
  shows "\<exists>tr. fatal_trace env t = Ok tr"
proof -
  have h: "0 < length (replicate 1024 (CHR 0x00))" "length (replicate 1024 (CHR 0x00)) \<le> 2 ^ 31"
      "(1024 :: u64) = of_nat (length (replicate 1024 (CHR 0x00)))"
      "\<forall>s \<in> set (bt_strings (new_back_trace (fe_frames env t) 1)). length (demangle (fe_cxa env) s) < 2 ^ 64"
    using assms by (simp_all add: new_back_trace_def)
  from print_buf_Ok [OF h] show ?thesis unfolding fatal_trace_def by auto
qed

subsection \<open>The end\<close>

text \<open>
  The thread that reports and the faults of its own work: it takes its next step, or a fatal signal arrives while it
  works, which enters the handler again or, with the default action, kills the process.
\<close>

inductive crash_step :: "fatal_env \<Rightarrow> nat \<Rightarrow> fatal_sys \<Rightarrow> fatal_sys \<Rightarrow> bool" for env t where
  work: "f_end S = None \<Longrightarrow> handler_step env t S = Some S' \<Longrightarrow> crash_step env t S S'"
| fault: "f_end S = None \<Longrightarrow> t \<noteq> 0 \<Longrightarrow> f_stack S t = f # fs \<Longrightarrow> \<not> entered f \<Longrightarrow>
    s \<in> set fatal_signals \<Longrightarrow> f_act S s = Fatal_action fl \<Longrightarrow>
    crash_step env t S (S\<lparr>f_stack := (f_stack S)(t := Entered s # f_stack S t)\<rparr>)"
| fatal_fault: "f_end S = None \<Longrightarrow> f_stack S t = f # fs \<Longrightarrow> \<not> entered f \<Longrightarrow>
    s \<in> set fatal_signals \<Longrightarrow> f_act S s = Default_action \<Longrightarrow>
    crash_step env t S (S\<lparr>f_end := Some (Killed s)\<rparr>)"

definition alone :: "fatal_env \<Rightarrow> nat \<Rightarrow> fatal_sys \<Rightarrow> fatal_sys \<Rightarrow> bool" where
  "alone env t S S' \<longleftrightarrow> f_end S = None \<and> handler_step env t S = Some S'"

text \<open>
  What decreases: the signals that still have their handler and are not being handled on top of the work, then the
  nested entries, then the way of the work.
\<close>

fun frame_rank :: "frame \<Rightarrow> nat" where
  "frame_rank (Entered s) = 0"
| "frame_rank (Report s) = 6"
| "frame_rank (Trace s) = 5"
| "frame_rank (Reraise s) = 4"
| "frame_rank (Raise s) = 3"
| "frame_rank (Say s) = 2"
| "frame_rank (Leave s) = 1"

definition unspent :: "nat \<Rightarrow> fatal_sys \<Rightarrow> nat set" where
  "unspent t S = {s \<in> set fatal_signals. f_act S s \<noteq> Default_action \<and> Entered s \<notin> set (takeWhile entered (f_stack S t))}"

definition crash_rank :: "nat \<Rightarrow> (fatal_sys \<times> fatal_sys) set" where
  "crash_rank t = inv_image (less_than <*lex*> less_than <*lex*> less_than <*lex*> less_than)
     (\<lambda>S. (if f_end S = None then 1 else 0, card (unspent t S), length (takeWhile entered (f_stack S t)),
           frame_rank (hd (f_stack S t))))"

lemma wf_crash_rank: "wf (crash_rank t)"
  by (auto simp: crash_rank_def intro!: wf_inv_image wf_lex_prod)

lemma finite_unspent [simp]: "finite (unspent t S)"
  by (simp add: unspent_def)

lemma rankI:
  assumes "f_end S = None" "unspent t S' \<subseteq> unspent t S"
    and "unspent t S' \<noteq> unspent t S \<or> length (takeWhile entered (f_stack S' t)) < length (takeWhile entered (f_stack S t))
      \<or> length (takeWhile entered (f_stack S' t)) = length (takeWhile entered (f_stack S t))
        \<and> frame_rank (hd (f_stack S' t)) < frame_rank (hd (f_stack S t))"
  shows "(S', S) \<in> crash_rank t"
proof -
  have "card (unspent t S') < card (unspent t S) \<or> unspent t S' = unspent t S"
    using assms(2) psubset_card_mono [OF finite_unspent, of "unspent t S'" t S] by blast
  then show ?thesis using assms(1,3) by (auto simp: crash_rank_def)
qed

definition crash_inv :: "fatal_env \<Rightarrow> nat \<Rightarrow> fatal_sys \<Rightarrow> bool" where
  "crash_inv env t S \<longleftrightarrow> fatal_ok env S \<and> handler_tid S = t \<and> t \<noteq> 0"

lemma crash_inv_stack:
  assumes "crash_inv env t S"
  obtains f fs where "f_stack S t = f # fs"
  using assms by (cases "f_stack S t") (auto simp: crash_inv_def fatal_ok_def)

lemma work_cases:
  assumes "handler_step env t S = Some S'" "handler_tid S = t" "t \<noteq> 0"
  obtains (nested) s fs where "f_stack S t = Entered s # fs"
      "S' = S\<lparr>f_act := (f_act S)(s := Default_action), f_stack := (f_stack S)(t := fs)\<rparr>"
    | (ends) "f_end S' \<noteq> None"
    | (moves) f fs f' where "f_stack S t = f # fs" "\<not> entered f" "f_stack S' t = f' # fs" "\<not> entered f'"
      "frame_rank f' < frame_rank f" "\<forall>s. f_act S' s = f_act S s \<or> f_act S' s = Default_action"
proof -
  obtain f fs where st: "f_stack S t = f # fs"
    using assms(1) by (auto simp: handler_step_def split: list.splits)
  note d = assms(1) st assms(2,3)
  show ?thesis
  proof (cases f)
    case (Entered s)
    then show ?thesis using d nested by (auto simp: handler_step_def)
  next
    case (Report s)
    then show ?thesis using d moves [of f fs "Trace s"] by (auto simp: handler_step_def)
  next
    case (Trace s)
    then show ?thesis using d moves [of f fs "Reraise s"] by (auto simp: handler_step_def split: sum.splits)
  next
    case (Reraise s)
    then show ?thesis using d moves [of f fs "Raise s"] by (auto simp: handler_step_def)
  next
    case (Raise s)
    then show ?thesis using d ends moves [of f fs "Say s"] by (auto simp: handler_step_def split: if_splits)
  next
    case (Say s)
    then show ?thesis using d moves [of f fs "Leave s"] by (auto simp: handler_step_def)
  next
    case (Leave s)
    then show ?thesis using d ends by (auto simp: handler_step_def)
  qed
qed

lemma work_ranks:
  assumes "handler_step env t S = Some S'" "f_end S = None" "crash_inv env t S"
  shows "(S', S) \<in> crash_rank t"
proof -
  have t: "handler_tid S = t" "t \<noteq> 0" using assms(3) by (simp_all add: crash_inv_def)
  from assms(1) t show ?thesis
  proof (cases rule: work_cases)
    case (nested s fs)
    then have "unspent t S' \<subseteq> unspent t S" "length (takeWhile entered (f_stack S' t)) < length (takeWhile entered (f_stack S t))"
      by (auto simp: unspent_def)
    then show ?thesis using assms(2) by (intro rankI) auto
  next
    case ends
    then show ?thesis using assms(2) by (auto simp: crash_rank_def)
  next
    case (moves f fs f')
    have "f_act S u \<noteq> Default_action" if "f_act S' u \<noteq> Default_action" for u using moves(6) that by metis
    then have "unspent t S' \<subseteq> unspent t S" using moves(1-4) by (auto simp: unspent_def)
    then show ?thesis using assms(2) moves by (intro rankI) auto
  qed
qed

lemma crash_ranks:
  assumes "crash_step env t S S'" "crash_inv env t S"
  shows "(S', S) \<in> crash_rank t"
  using assms
proof (cases rule: crash_step.cases)
  case work
  then show ?thesis using assms(2) work_ranks by blast
next
  case (fault f fs s fl)
  then have "s \<in> unspent t S" by (simp add: unspent_def)
  moreover have "unspent t S' = unspent t S - {s}" using fault by (auto simp: unspent_def)
  ultimately show ?thesis using fault(2) by (intro rankI) auto
next
  case fatal_fault
  then show ?thesis by (simp add: crash_rank_def)
qed

lemma crash_fstep: "crash_step env t S S' \<Longrightarrow> fstep env S S'"
proof (induction rule: crash_step.induct)
  case (fault S f fs s fl)
  then show ?case using fstep.arrive [of S t s fl env] by simp
qed (auto intro: fstep.kill fstep.handler)

lemma handler_step_tid: "handler_step env u S = Some S' \<Longrightarrow> handler_tid S \<noteq> 0 \<Longrightarrow> handler_tid S' = handler_tid S"
  by (cases "f_stack S u"; cases "hd (f_stack S u)")
    (auto simp: handler_step_def split: sum.splits if_splits)

lemma fstep_crash_inv: "fstep env S S' \<Longrightarrow> crash_inv env t S \<Longrightarrow> crash_inv env t S'"
proof -
  assume f: "fstep env S S'" and i: "crash_inv env t S"
  then have "handler_tid S' = handler_tid S"
    by (cases rule: fstep.cases) (auto simp: crash_inv_def handler_step_tid)
  then show ?thesis using fstep_ok [OF f] i by (simp add: crash_inv_def)
qed

lemma handler_step_None:
  assumes "crash_inv env t S" "handler_step env t S = None"
  shows "\<exists>e. fatal_trace env t = Fault e"
proof -
  obtain f fs where "f_stack S t = f # fs" by (rule crash_inv_stack [OF assms(1)])
  then show ?thesis using assms(2) by (cases f) (auto simp: handler_step_def split: sum.splits if_splits)
qed

interpretation cr: serving_system "fstep env" "crash_inv env t" "crash_step env t" "crash_rank t"
  "\<lambda>S. f_end S \<noteq> None" "\<lambda>S. \<exists>e. fatal_trace env t = Fault e" for env t
proof
  show "fstep env S S' \<Longrightarrow> crash_inv env t S \<Longrightarrow> crash_inv env t S'" for S S' by (rule fstep_crash_inv)
  show "crash_step env t S S' \<Longrightarrow> fstep env S S'" for S S' by (rule crash_fstep)
  show "wf (crash_rank t)" by (rule wf_crash_rank)
  show "crash_step env t S S' \<Longrightarrow> crash_inv env t S \<Longrightarrow> (S', S) \<in> crash_rank t" for S S' by (rule crash_ranks)
  show "crash_inv env t S \<Longrightarrow> (\<And>S'. \<not> crash_step env t S S') \<Longrightarrow> f_end S \<noteq> None \<or> (\<exists>e. fatal_trace env t = Fault e)" for S
    using handler_step_None [of env t S] crash_step.work [of S env t] by (cases "handler_step env t S") blast+
qed

text \<open>How the reporting thread ends the process itself.\<close>

definition finished :: "fatal_env \<Rightarrow> nat \<Rightarrow> fatal_sys \<Rightarrow> bool" where
  "finished env t S \<longleftrightarrow> (\<exists>s tr. fatal_trace env t = Ok tr
     \<and> f_log S = fatal_banner env t s # tr # raise_text (fe_raise env s) s
     \<and> f_end S = Some (if fe_raise env s = Raise_kills then Killed s else Exit_code 1))"

lemma work_finishes:
  assumes "handler_step env t S = Some S'" "f_end S = None" "crash_inv env t S" "f_end S' \<noteq> None"
  shows "finished env t S'"
proof -
  have t: "handler_tid S = t" "t \<noteq> 0" "fatal_ok env S" using assms(3) by (simp_all add: crash_inv_def)
  obtain f fs where st: "f_stack S t = f # fs" by (rule crash_inv_stack [OF assms(3)])
  have r: "\<not> entered f \<Longrightarrow> reported env t f (f_log S)" using fatal_okD(4) [OF t(3) st] by blast
  show ?thesis
    using assms(1,2,4) st t(1,2) r
    by (cases f) (auto simp: handler_step_def finished_def split: sum.splits if_splits)
qed

lemma alone_finishes:
  assumes tr: "\<exists>tr. fatal_trace env t = Ok tr"
  shows "crash_inv env t S \<Longrightarrow> f_end S = None \<Longrightarrow> \<exists>S'. (alone env t)\<^sup>*\<^sup>* S S' \<and> finished env t S'"
proof (induction S rule: wf_induct_rule [OF wf_crash_rank [of t]])
  case (1 S)
  obtain S1 where h: "handler_step env t S = Some S1"
    using handler_step_None [OF 1(2)] tr by (cases "handler_step env t S") auto
  have a: "alone env t S S1" using h 1(3) by (simp add: alone_def)
  show ?case
  proof (cases "f_end S1 = None")
    case True
    have "crash_inv env t S1" by (rule fstep_crash_inv [OF fstep.handler [OF 1(3) h] 1(2)])
    then show ?thesis using 1(1) [OF work_ranks [OF h 1(3,2)]] True a by (meson converse_rtranclp_into_rtranclp)
  next
    case False
    then show ?thesis using work_finishes [OF h 1(3,2)] a by blast
  qed
qed

subsection \<open>Blocking and restoring\<close>

text \<open>The mask of a thread never holds the two signals that cannot be blocked.\<close>

abbreviation maskable :: "sigset \<Rightarrow> bool" where
  "maskable m \<equiv> m \<inter> {SIGKILL, SIGSTOP} = {}"

lemmas sigset_defs = block_signals_def restore_sigset_def sigmask_def sigfillset_def sigaddset_def SIGPIPE_def NSIG_def
  SIGKILL_def SIGSTOP_def

lemma block_sigpipe: "maskable m \<Longrightarrow> block_signals 0 (Some [SIGPIPE, 0]) m = Ok (m, insert 13 m)"
  by (auto simp: sigset_defs)

lemma block_all: "maskable m \<Longrightarrow> block_signals 0 None m = Ok (m, m \<union> {1..<65} - {9, 19})"
  by (auto simp: sigset_defs)

lemma restore_Ok: "maskable m \<Longrightarrow> restore_sigset 0 m m' = Ok m"
  by (auto simp: sigset_defs)

subsection \<open>Properties\<close>

text \<open>C9: whatever fatal signals arrive, in whatever threads, at whatever point and however nested, there is at most
  one crash report: the log is a beginning of the report of the thread that came first (its banner, its backtrace and,
  when the signal raised again did not kill the process, the line that says so; a nested fault or another thread can
  end the process between two of them), and the process exits by itself only with 1, when the signal raised again did
  not kill it, and after the whole report.\<close>

theorem fatal_reported_once:
  assumes "(fstep env)\<^sup>*\<^sup>* (fatal_init acts) S"
  shows "(f_log S = [] \<or> (\<exists>s. f_log S = [fatal_banner env (handler_tid S) s] \<or> (\<exists>tr. fatal_trace env (handler_tid S) = Ok tr
      \<and> (f_log S = [fatal_banner env (handler_tid S) s, tr]
         \<or> f_log S = fatal_banner env (handler_tid S) s # tr # raise_text (fe_raise env s) s))))
    \<and> (\<forall>r. f_end S = Some (Exit_code r) \<longrightarrow> r = 1 \<and> (\<exists>s tr. fe_raise env s \<noteq> Raise_kills \<and> fatal_trace env (handler_tid S) = Ok tr
      \<and> f_log S = fatal_banner env (handler_tid S) s # tr # raise_text (fe_raise env s) s))"
proof -
  have ok: "fatal_ok env S" by (rule fatal_reach_ok [OF assms])
  show ?thesis
  proof (cases "handler_tid S = 0")
    case False
    then obtain w where w: "reported env (handler_tid S) w (f_log S)"
        "\<forall>r. f_end S = Some (Exit_code r) \<longrightarrow> r = 1 \<and> (\<exists>s. w = Leave s)"
      using ok by (auto simp: fatal_ok_def)
    then show ?thesis by (cases w) auto
  qed (use ok in \<open>simp add: fatal_ok_def\<close>)
qed

definition sample_fatal_env :: fatal_env where
  "sample_fatal_env = \<lparr>fe_sig_str = (\<lambda>_. ''Aborted''), fe_self = to_string, fe_name = (\<lambda>_. ''main''), fe_frames = (\<lambda>_ _. []),
     fe_cxa = (\<lambda>_. None), fe_raise = (\<lambda>_. Raise_kills)\<rparr>"

text \<open>An abort in thread 3, and on top of its work, before the banner, a fault.\<close>

definition sample_nested :: fatal_sys where
  "sample_nested = \<lparr>handler_tid = 3, f_act = (\<lambda>_. Fatal_action 0), f_log = [],
     f_stack = (\<lambda>_. [])(3 := [Entered 11, Report 6]), f_end = None\<rparr>"

lemma sample_nested_reached: "(fstep env)\<^sup>*\<^sup>* (fatal_init (\<lambda>_. Fatal_action 0)) sample_nested"
proof -
  let ?S = "fatal_init (\<lambda>_. Fatal_action 0)"
  let ?T = "?S\<lparr>f_stack := (f_stack ?S)(3 := Entered 6 # f_stack ?S 3)\<rparr>"
  let ?U = "?T\<lparr>handler_tid := 3, f_stack := (f_stack ?T)(3 := [Report 6])\<rparr>"
  have "fstep env ?S ?T" by (rule fstep.arrive) (simp_all add: fatal_init_def)
  moreover have "fstep env ?T ?U" by (rule fstep.handler [of _ _ 3]) (simp_all add: fatal_init_def handler_step_def)
  moreover have "fstep env ?U (?U\<lparr>f_stack := (f_stack ?U)(3 := Entered 11 # f_stack ?U 3)\<rparr>)"
    by (rule fstep.arrive) (simp_all add: fatal_init_def)
  moreover have "?U\<lparr>f_stack := (f_stack ?U)(3 := Entered 11 # f_stack ?U 3)\<rparr> = sample_nested"
    by (simp add: fatal_init_def sample_nested_def)
  ultimately show ?thesis by (metis (no_types, lifting) rtranclp.simps)
qed

lemma fatal_reported_once_witness:
  "\<exists>S. (fstep sample_fatal_env)\<^sup>*\<^sup>* (fatal_init (\<lambda>_. Fatal_action 0)) S \<and> handler_tid S = 3
    \<and> (f_log S = [] \<or> (\<exists>s. f_log S = [fatal_banner sample_fatal_env 3 s]
         \<or> (\<exists>tr. fatal_trace sample_fatal_env 3 = Ok tr \<and> f_log S = [fatal_banner sample_fatal_env 3 s, tr])))"
proof -
  have r: "raise_text (fe_raise sample_fatal_env s) s = []" for s by (simp add: sample_fatal_env_def)
  have t: "handler_tid sample_nested = 3" by (simp add: sample_nested_def)
  from fatal_reported_once [OF sample_nested_reached, of sample_fatal_env, unfolded t r] t show ?thesis
    using sample_nested_reached [of sample_fatal_env] by blast
qed

text \<open>C27: a crash ends the process, and with its report. From every reachable state in which thread \<open>t\<close> has
  claimed the handler: whatever fatal signals arrive on top of its work, \<open>t\<close> never goes on for ever, and where it
  cannot go on the process has ended (a signal that comes on top of the work loses its handler, so it cannot come
  back to it again and again; the short nested entries themselves are taken to raise none). Left alone, \<open>t\<close> returns
  from what came on top, writes the whole report and raises the signal again, which kills the process or has it exit
  with 1. The lines of the backtrace are shorter than \<open>2 ^ 64\<close>.\<close>

theorem fatal_handler_ends:
  assumes "(fstep env)\<^sup>*\<^sup>* (fatal_init acts) S" "handler_tid S = t" "t \<noteq> 0"
    and "\<forall>s \<in> set (fe_frames env t max_frames). length (demangle (fe_cxa env) s) < 2 ^ 64"
  shows "(\<nexists>f. f 0 = S \<and> (\<forall>n. crash_step env t (f n) (f (Suc n))))
    \<and> (\<forall>S'. (crash_step env t)\<^sup>*\<^sup>* S S' \<longrightarrow> (\<nexists>S''. crash_step env t S' S'') \<longrightarrow> f_end S' \<noteq> None)
    \<and> (f_end S = None \<longrightarrow> (\<exists>S' s tr. (alone env t)\<^sup>*\<^sup>* S S' \<and> fatal_trace env t = Ok tr
        \<and> f_log S' = fatal_banner env t s # tr # raise_text (fe_raise env s) s
        \<and> f_end S' = Some (if fe_raise env s = Raise_kills then Killed s else Exit_code 1)))"
proof -
  have inv: "crash_inv env t S" using fatal_reach_ok [OF assms(1)] assms(2,3) by (simp add: crash_inv_def)
  have tr: "\<exists>tr. fatal_trace env t = Ok tr" by (rule fatal_trace_Ok [OF assms(4)])
  have "\<nexists>f. f 0 = S \<and> (\<forall>n. crash_step env t (f n) (f (Suc n)))"
    using cr.no_infinite_run [of env t] inv by blast
  moreover have "f_end S' \<noteq> None" if "(crash_step env t)\<^sup>*\<^sup>* S S'" "\<nexists>S''. crash_step env t S' S''" for S'
    using cr.stuck [OF cr.own_inv [OF that(1) inv]] that(2) tr by force
  moreover have "\<exists>S' s tr. (alone env t)\<^sup>*\<^sup>* S S' \<and> fatal_trace env t = Ok tr
        \<and> f_log S' = fatal_banner env t s # tr # raise_text (fe_raise env s) s
        \<and> f_end S' = Some (if fe_raise env s = Raise_kills then Killed s else Exit_code 1)" if "f_end S = None"
    using alone_finishes [OF tr inv that] unfolding finished_def by blast
  ultimately show ?thesis by blast
qed

lemma fatal_handler_ends_witness:
  "\<exists>S' s tr. (alone sample_fatal_env 3)\<^sup>*\<^sup>* sample_nested S' \<and> fatal_trace sample_fatal_env 3 = Ok tr
     \<and> f_log S' = [fatal_banner sample_fatal_env 3 s, tr] \<and> f_end S' = Some (Killed s)"
proof -
  have k: "fe_raise sample_fatal_env s = Raise_kills" for s by (simp add: sample_fatal_env_def)
  have "handler_tid sample_nested = 3" "f_end sample_nested = None"
    "\<forall>s \<in> set (fe_frames sample_fatal_env 3 max_frames). length (demangle (fe_cxa sample_fatal_env) s) < 2 ^ 64"
    by (simp_all add: sample_nested_def sample_fatal_env_def)
  then show ?thesis
    using fatal_handler_ends [OF sample_nested_reached, of 3 sample_fatal_env] by (simp add: k)
qed

text \<open>A block of signals is undone by \<open>restore_sigset\<close> with the mask it gave back, whatever the list; in between
  exactly the old signals and the listed ones are blocked, and \<open>SIGKILL\<close> and \<open>SIGSTOP\<close> never.\<close>

theorem block_restore_roundtrip:
  assumes "block_signals 0 siglist m = Ok (old, m')" "m \<inter> {SIGKILL, SIGSTOP} = {}"
  shows "restore_sigset 0 old m' = Ok m \<and> m \<subseteq> m' \<and> m' \<inter> {SIGKILL, SIGSTOP} = {}
    \<and> (siglist = Some [SIGPIPE, 0] \<longrightarrow> m' = insert 13 m) \<and> (siglist = None \<longrightarrow> m' = m \<union> {1..<65} - {9, 19})"
proof -
  obtain s where s: "(case siglist of None \<Rightarrow> Ok sigfillset | Some l \<Rightarrow> add_siglist l {}) = Ok s" "old = m" "m' = sigmask Sig_block s m"
    using assms(1) by (auto simp: block_signals_def)
  have k: "m - {SIGKILL, SIGSTOP} = m" using assms(2) by blast
  have "m' = insert 13 m" if "siglist = Some [SIGPIPE, 0]"
    using s(1,3) that assms(2) by (auto simp: sigmask_def sigaddset_def SIGPIPE_def NSIG_def SIGKILL_def SIGSTOP_def)
  moreover have "m' = m \<union> {1..<65} - {9, 19}" if "siglist = None"
    using s(1,3) that by (simp add: sigmask_def sigfillset_def NSIG_def SIGKILL_def SIGSTOP_def)
  moreover have "m \<subseteq> m'" "m' \<inter> {SIGKILL, SIGSTOP} = {}" using s(3) assms(2) by (auto simp: sigmask_def)
  moreover have "restore_sigset 0 old m' = Ok m" using s(2) k by (simp add: restore_sigset_def sigmask_def)
  ultimately show ?thesis by blast
qed

lemma block_restore_roundtrip_witness:
  "block_signals 0 (Some [SIGPIPE, 0]) {2} = Ok ({2}, {2, 13}) \<and> restore_sigset 0 {2} {2, 13} = Ok {2}"
proof -
  have b: "block_signals 0 (Some [SIGPIPE, 0]) {2} = Ok ({2}, {2, 13})"
    by (auto simp: block_signals_def sigmask_def sigaddset_def SIGPIPE_def NSIG_def SIGKILL_def SIGSTOP_def)
  have "{2} \<inter> {SIGKILL, SIGSTOP} = {}" by (simp add: SIGKILL_def SIGSTOP_def)
  from block_restore_roundtrip [OF b this] b show ?thesis by blast
qed

end
