(* ===== verification/Threads.thy ===== *)
theory Threads
  imports Signals Bit_Op
begin

section \<open>Threads: common/thread.hpp and thread.cpp\<close>

text \<open>
  The object, its creation with the signal mask that the new thread inherits, and its later calls.
  The answers of the system calls are parameters; what they change is the mask of the calling
  thread, the affinities and the names of threads, and the new thread.
\<close>

subsection \<open>State\<close>

datatype code_env = Env_utility | Env_daemon | Env_library | Env_utility_nodout

definition CPU_SETSIZE :: int where "CPU_SETSIZE = 1024"

record thread_obj =
  thread_id :: nat
  th_pid :: int
  cpuid :: int
  thread_name :: string

definition new_thread :: thread_obj where
  "new_thread = \<lparr>thread_id = 0, th_pid = 0, cpuid = -1, thread_name = []\<rparr>"

text \<open>What the new thread starts with: its stack, \<open>None\<close> for the default, and its mask.\<close>

record child =
  ch_stack :: "u64 option"
  ch_mask :: sigset

text \<open>The affinity and the name of each thread of the process, by its system id.\<close>

record os =
  affinity :: "int \<Rightarrow> int option"
  os_name :: "int \<Rightarrow> string"

subsection \<open>The calling thread's affinity\<close>

text \<open>
  \<open>have_sched\<close> is the build's \<open>HAVE_SCHED\<close>, \<open>tid\<close> the caller, \<open>sched\<close> 0 or the error of \<open>sched_setaffinity\<close>.
\<close>

definition set_affinity_self :: "bool \<Rightarrow> (int \<Rightarrow> int) \<Rightarrow> int \<Rightarrow> int \<Rightarrow> os \<Rightarrow> int \<times> os" where
  "set_affinity_self have_sched sched tid i w =
     (if have_sched \<and> 0 \<le> i \<and> i < CPU_SETSIZE
      then if sched i \<noteq> 0 then (- sched i, w) else (0, w\<lparr>affinity := (affinity w)(tid := Some i)\<rparr>)
      else (0, w))"

text \<open>The new thread, up to the call of \<open>entry\<close>; \<open>tid\<close> is what \<open>gettid\<close> answers there.\<close>

definition entry_wrapper :: "bool \<Rightarrow> (int \<Rightarrow> int) \<Rightarrow> int \<Rightarrow> thread_obj \<Rightarrow> os \<Rightarrow> thread_obj \<times> os" where
  "entry_wrapper have_sched sched tid th w =
     (let th = (if 0 < tid then th\<lparr>th_pid := tid\<rparr> else th);
          w = (if th_pid th \<noteq> 0 \<and> 0 \<le> cpuid th then snd (set_affinity_self have_sched sched tid (cpuid th) w) else w) in
      (th, w\<lparr>os_name := (os_name w)(tid := thread_name th)\<rparr>))"

definition set_affinity :: "bool \<Rightarrow> (int \<Rightarrow> int) \<Rightarrow> int \<Rightarrow> int \<Rightarrow> thread_obj \<Rightarrow> os \<Rightarrow> int \<times> thread_obj \<times> os" where
  "set_affinity have_sched sched tid i th w =
     (let th = th\<lparr>cpuid := i\<rparr> in
      if th_pid th \<noteq> 0 \<and> tid = th_pid th
      then (case set_affinity_self have_sched sched tid i w of (r, w) \<Rightarrow> (r, th, w))
      else (0, th, w))"

subsection \<open>Creation\<close>

definition PTHREAD_STACK_MIN :: u64 where "PTHREAD_STACK_MIN = 16384"

text \<open>
  \<open>pthread_attr_setstacksize\<close> refuses less than its minimum and leaves the default; the code does not
  look at its answer.
\<close>

definition attr_stack :: "u64 \<Rightarrow> u64 option" where
  "attr_stack s = (if s < PTHREAD_STACK_MIN then None else Some s)"

text \<open>
  \<open>spawn\<close> is \<open>pthread_create\<close>: its answer, 0 or an error, and what it leaves in the \<open>pthread_t\<close> that it is
  given, which is the member \<open>thread_id\<close> itself: the id when it answers 0, and something undefined otherwise. The
  result is the code, the object, the caller's mask and the new thread.
\<close>

definition try_create ::
    "u32 \<Rightarrow> code_env \<Rightarrow> (child \<Rightarrow> int \<times> nat) \<Rightarrow> u64 \<Rightarrow> thread_obj \<Rightarrow> sigset \<Rightarrow> (int \<times> thread_obj \<times> sigset \<times> child option) res" where
  "try_create page_size env spawn stacksize th m =
     (let stacksize = stacksize AND constant_page_mask page_size;
          attr = (if stacksize \<noteq> 0 then attr_stack stacksize else None) in
      rbind (block_signals 0 (if env = Env_library then None else Some [SIGPIPE, 0]) m) (\<lambda>(old, m).
        let c = \<lparr>ch_stack = attr, ch_mask = m\<rparr> in
        (case spawn c of (r, i) \<Rightarrow>
           rbind (restore_sigset 0 old m) (\<lambda>m.
             Ok (r, th\<lparr>thread_id := i\<rparr>, m, if r = 0 then Some c else None)))))"


subsection \<open>The other calls\<close>


definition am_self :: "nat \<Rightarrow> thread_obj \<Rightarrow> bool" where
  "am_self self th \<longleftrightarrow> self = thread_id th"



definition thread_detach :: "(nat \<Rightarrow> int) \<Rightarrow> thread_obj \<Rightarrow> int" where
  "thread_detach pthread_detach th = pthread_detach (thread_id th)"

subsection \<open>The outcome of a creation\<close>

definition child_mask :: "code_env \<Rightarrow> sigset \<Rightarrow> sigset" where
  "child_mask env m = (if env = Env_library then m \<union> {1..<65} - {9, 19} else insert 13 m)"

definition attr_of :: "u64 \<Rightarrow> u64 option" where
  "attr_of s = (if s \<noteq> 0 then attr_stack s else None)"

lemma try_create_Ok:
  assumes "maskable m"
  shows "\<exists>r i. try_create page_size env spawn stacksize th m
    = Ok (r, th\<lparr>thread_id := i\<rparr>, m,
          if r = 0 then Some \<lparr>ch_stack = attr_of (stacksize AND constant_page_mask page_size), ch_mask = child_mask env m\<rparr> else None)
    \<and> spawn \<lparr>ch_stack = attr_of (stacksize AND constant_page_mask page_size), ch_mask = child_mask env m\<rparr> = (r, i)"
proof -
  have b: "block_signals 0 (if env = Env_library then None else Some [SIGPIPE, 0]) m = Ok (m, child_mask env m)"
    using block_sigpipe [OF assms] block_all [OF assms] by (simp add: child_mask_def)
  obtain e i where "spawn \<lparr>ch_stack = attr_of (stacksize AND constant_page_mask page_size), ch_mask = child_mask env m\<rparr> = (e, i)"
    by fastforce
  then show ?thesis
    unfolding try_create_def Let_def attr_of_def [symmetric] b rbind_Inr prod.case restore_Ok [OF assms] by auto
qed

subsection \<open>Properties\<close>

text \<open>C33: \<open>try_create\<close> asks for one thread, that starts with the caller's blocked signals and \<open>SIGPIPE\<close>, or with
  everything blocked in a library, and with the requested stack rounded down to pages, or the default one when less
  than the minimum is left. Whether \<open>pthread_create\<close> succeeds or not, its answer is returned, the caller's signal mask
  is what it was, and of the object only \<open>thread_id\<close> changes: it holds whatever \<open>pthread_create\<close> left there, after an
  error too.\<close>

theorem try_create_masks:
  assumes "m \<inter> {SIGKILL, SIGSTOP} = {}" "k < 32"
  shows "\<exists>r i x. spawn x = (r, i)
    \<and> try_create (2 ^ k) env spawn stacksize th m = Ok (r, th\<lparr>thread_id := i\<rparr>, m, if r = 0 then Some x else None)
    \<and> ch_mask x = (if env = Env_library then m \<union> {1..<65} - {9, 19} else insert 13 m)
    \<and> (case ch_stack x of None \<Rightarrow> unat stacksize div 2 ^ k * 2 ^ k < 16384
        | Some s \<Rightarrow> unat s = unat stacksize div 2 ^ k * 2 ^ k \<and> 16384 \<le> unat s)"
proof -
  let ?s = "stacksize AND constant_page_mask (2 ^ k)"
  let ?x = "\<lparr>ch_stack = attr_of ?s, ch_mask = child_mask env m\<rparr>"
  have s: "unat ?s = unat stacksize div 2 ^ k * 2 ^ k"
    using assms(2) by (simp add: and_constant_page_mask unat_p2align)
  obtain r i where c: "spawn ?x = (r, i)"
      "try_create (2 ^ k) env spawn stacksize th m = Ok (r, th\<lparr>thread_id := i\<rparr>, m, if r = 0 then Some ?x else None)"
    using try_create_Ok [OF assms(1), of "2 ^ k" env spawn stacksize th] by blast
  have "case attr_of ?s of None \<Rightarrow> unat ?s < 16384 | Some x \<Rightarrow> x = ?s \<and> 16384 \<le> unat x"
    by (simp add: attr_of_def attr_stack_def PTHREAD_STACK_MIN_def word_less_nat_alt)
  then have "case ch_stack ?x of None \<Rightarrow> unat stacksize div 2 ^ k * 2 ^ k < 16384
      | Some y \<Rightarrow> unat y = unat stacksize div 2 ^ k * 2 ^ k \<and> 16384 \<le> unat y"
    unfolding s [symmetric] by (auto split: option.splits)
  then show ?thesis using c by (intro exI [of _ r] exI [of _ i] exI [of _ ?x]) (simp add: child_mask_def)
qed

lemma try_create_masks_witness:
  "\<exists>x. try_create (2 ^ 12) Env_daemon (\<lambda>_. (0, 5)) 70000 new_thread {2} = Ok (0, new_thread\<lparr>thread_id := 5\<rparr>, {2}, Some x)
    \<and> ch_mask x = {2, 13} \<and> (\<exists>s. ch_stack x = Some s \<and> unat s = 69632)"
proof -
  have k: "{2} \<inter> {SIGKILL, SIGSTOP} = {}" "(12 :: nat) < 32" by (simp_all add: SIGKILL_def SIGSTOP_def)
  obtain x where w: "try_create (2 ^ 12) Env_daemon (\<lambda>_. (0, 5)) 70000 new_thread {2}
        = Ok (0, new_thread\<lparr>thread_id := 5\<rparr>, {2}, Some x)" "ch_mask x = insert 13 {2}"
      "case ch_stack x of None \<Rightarrow> unat (70000 :: u64) div 2 ^ 12 * 2 ^ 12 < 16384
        | Some s \<Rightarrow> unat s = unat (70000 :: u64) div 2 ^ 12 * 2 ^ 12 \<and> 16384 \<le> unat s"
    using try_create_masks [OF k, of "\<lambda>_. (0, 5)" Env_daemon 70000 new_thread] by fastforce
  have "ch_mask x = {2, 13}" using w(2) by auto
  moreover have "\<exists>s. ch_stack x = Some s \<and> unat s = 69632" using w(3) by (simp split: option.splits)
  ultimately show ?thesis using w(1) by blast
qed

text \<open>\<open>set_affinity\<close> from another thread is recorded but moves no thread once the thread has started: it answers 0
  and the affinities stay; only a call before the start, which \<open>entry_wrapper\<close> reads, or one from the thread
  itself sets the affinity. In a build without \<open>HAVE_SCHED\<close>, which no file of the build defines, no call sets any.\<close>

theorem set_affinity_of_other_is_lost:
  assumes "0 < tid" "0 \<le> i" "i < CPU_SETSIZE" "sched i = 0" "caller \<noteq> tid"
  shows "(case entry_wrapper True sched tid th w of (th1, w1) \<Rightarrow>
      (case set_affinity True sched caller i th1 w1 of (r, th2, w2) \<Rightarrow> r = 0 \<and> w2 = w1 \<and> cpuid th2 = i)
    \<and> (case set_affinity True sched tid i th1 w1 of (r, th2, w2) \<Rightarrow> r = 0 \<and> affinity w2 tid = Some i))
    \<and> (th_pid th = 0 \<longrightarrow> (case set_affinity True sched caller i th w of (r, th1, w1) \<Rightarrow>
         r = 0 \<and> w1 = w \<and> affinity (snd (entry_wrapper True sched tid th1 w1)) tid = Some i))
    \<and> affinity (snd (entry_wrapper False sched tid th w)) = affinity w
    \<and> (case set_affinity False sched t i th w of (r, th1, w1) \<Rightarrow> r = 0 \<and> w1 = w)"
  using assms by (auto simp: entry_wrapper_def set_affinity_def set_affinity_self_def Let_def split: prod.splits)

lemma set_affinity_of_other_is_lost_witness:
  "(case entry_wrapper True (\<lambda>_. 0) 8 new_thread \<lparr>affinity = \<lambda>_. None, os_name = \<lambda>_. []\<rparr> of (th1, w1) \<Rightarrow>
      (case set_affinity True (\<lambda>_. 0) 1 3 th1 w1 of (r, th2, w2) \<Rightarrow> r = 0 \<and> w2 = w1))"
proof -
  have "0 < (8 :: int)" "0 \<le> (3 :: int)" "3 < CPU_SETSIZE" "(\<lambda>_ :: int. 0 :: int) 3 = 0" "(1 :: int) \<noteq> 8" by (simp_all add: CPU_SETSIZE_def)
  from set_affinity_of_other_is_lost [OF this, of new_thread "\<lparr>affinity = \<lambda>_. None, os_name = \<lambda>_. []\<rparr>"]
  show ?thesis by (auto split: prod.splits)
qed

subsection \<open>The life of a thread object\<close>


















end
