(* ===== verification/Nvme_Manager.thy ===== *)
theory Nvme_Manager
  imports Nvme_Device
begin

section \<open>NVMEManager: blk/spdk/nvme\_manager.hpp and nvme\_manager.cpp\<close>

text \<open>
  Callers of \<open>try_get\<close> queue a context for the manager's thread, which probes the devices and wakes
  them. Transport ids are an abstract type with SPDK's comparison; what a probe finds is a parameter:
  for the wanted id its code, and the controllers it presents to the callbacks, each with its id, its
  number of namespaces and the data of its first one.
\<close>

subsection \<open>The core mask\<close>

definition hex2dec :: "nat \<Rightarrow> int" where
  "hex2dec c =
     (if 48 \<le> c \<and> c \<le> 57 then int c - 48
      else if 65 \<le> c \<and> c \<le> 90 then int c - 65 + 10
      else int c - 97 + 10)"

definition isxdigit :: "nat \<Rightarrow> bool" where
  "isxdigit c \<longleftrightarrow> (48 \<le> c \<and> c \<le> 57) \<or> (65 \<le> c \<and> c \<le> 70) \<or> (97 \<le> c \<and> c \<le> 102)"

text \<open>\<open>ffs\<close> of the value of a digit: the number of its lowest bit, from 1; 0 for none.\<close>

definition ffs :: "int \<Rightarrow> int" where
  "ffs v = (if v mod 2 = 1 then 1 else if v mod 4 = 2 then 2 else if v mod 8 = 4 then 3 else if v mod 16 = 8 then 4 else 0)"

fun first_bitset_loop :: "nat list \<Rightarrow> int \<Rightarrow> int" where
  "first_bitset_loop [] pos = 0"
| "first_bitset_loop (c # cs) pos =
     (if \<not> isxdigit c then - 22
      else if hex2dec c \<noteq> 0 then pos + ffs (hex2dec c)
      else first_bitset_loop cs (pos + 4))"

definition find_first_bitset :: "string \<Rightarrow> int" where
  "find_first_bitset s =
     (let digits = (if take 2 s = ''0x'' \<or> take 2 s = ''0X'' then drop 2 s else s) in
      first_bitset_loop (map of_char (rev digits)) 0)"

subsection \<open>The callbacks\<close>

record ctrlr_opts =
  num_io_queues :: nat
  io_queue_size :: nat
  io_queue_requests :: nat
  keep_alive_timeout_ms :: nat

definition nvme_ctrlr_keep_alive_timeout_in_ms :: nat where "nvme_ctrlr_keep_alive_timeout_in_ms = 10000"

definition UINT16_MAX :: nat where "UINT16_MAX = 65535"

definition probe_cb :: "('i \<Rightarrow> 'i \<Rightarrow> bool) \<Rightarrow> ('i \<Rightarrow> bool) \<Rightarrow> 'i \<Rightarrow> 'i \<Rightarrow> ctrlr_opts \<Rightarrow> (bool \<times> ctrlr_opts) res" where
  "probe_cb same pcie want trid opts =
     rbind (if pcie trid then Ok (same want trid) else c_assert (same want trid) (Ok True)) (\<lambda>do_attach.
       Ok (do_attach, if do_attach
         then opts\<lparr>num_io_queues := 96, io_queue_size := UINT16_MAX, io_queue_requests := UINT16_MAX,
                   keep_alive_timeout_ms := nvme_ctrlr_keep_alive_timeout_in_ms\<rparr>
         else opts))"

type_synonym 'i driver_entry = "'i \<times> shared_driver"

text \<open>
  \<open>register_ctrlr\<close>: \<open>locked\<close> is what the assertion on the manager's lock sees; a controller without its
  first namespace aborts. The result is the list of drivers and the index of the new one.
\<close>

definition register_ctrlr ::
    "bool \<Rightarrow> 'i \<Rightarrow> int \<Rightarrow> shared_driver option \<Rightarrow> 'i driver_entry list \<Rightarrow> ('i driver_entry list \<times> nat) res" where
  "register_ctrlr locked trid num_ns ns drivers =
     c_assert locked (c_assert (1 \<le> num_ns)
       (case ns of
          None \<Rightarrow> Fault Abort
        | Some dr \<Rightarrow> c_assert (drivers = []) (Ok (drivers @ [(trid, dr)], length drivers))))"

definition attach_cb :: "bool \<Rightarrow> 'i \<Rightarrow> int \<Rightarrow> shared_driver option \<Rightarrow> 'i driver_entry list \<Rightarrow> ('i driver_entry list \<times> nat) res" where
  "attach_cb locked want num_ns ns drivers = register_ctrlr locked want num_ns ns drivers"

text \<open>A controller that the probe presents.\<close>

record 'i found =
  fd_trid :: 'i
  fd_num_ns :: int
  fd_ns :: "shared_driver option"
  fd_opts :: ctrlr_opts

fun probe_all ::
    "('i \<Rightarrow> 'i \<Rightarrow> bool) \<Rightarrow> ('i \<Rightarrow> bool) \<Rightarrow> bool \<Rightarrow> 'i \<Rightarrow> 'i found list \<Rightarrow> 'i driver_entry list \<times> nat option \<Rightarrow>
     ('i driver_entry list \<times> nat option) res" where
  "probe_all same pcie locked want [] s = Ok s"
| "probe_all same pcie locked want (f # fs) (drivers, drv) =
     rbind (probe_cb same pcie want (fd_trid f) (fd_opts f)) (\<lambda>(attach, opts).
       if attach
       then rbind (attach_cb locked want (fd_num_ns f) (fd_ns f) drivers) (\<lambda>(drivers, i).
              probe_all same pcie locked want fs (drivers, Some i))
       else probe_all same pcie locked want fs (drivers, drv))"

text \<open>The lookup at the head of \<open>try_get\<close>.\<close>

fun find_driver :: "('i \<Rightarrow> 'i \<Rightarrow> bool) \<Rightarrow> 'i \<Rightarrow> 'i driver_entry list \<Rightarrow> nat \<Rightarrow> nat option" where
  "find_driver same trid [] i = None"
| "find_driver same trid (d # ds) i = (if same (fst d) trid then Some i else find_driver same trid ds (Suc i))"

subsection \<open>The protocol\<close>

text \<open>
  The thread holds \<open>probe_queue_lock\<close> from when it starts or wakes until it waits or ends, so between
  two waits its turns are steps in which no caller can enter (\<open>M_run\<close>). A caller sleeps, is woken by a
  \<open>notify_all\<close>, and looks at \<open>done\<close> again once it has the lock.
\<close>

datatype manager_pc = M_none | M_init | M_run | M_wait | M_woken | M_exit

datatype caller_pc = C_idle | C_enter | C_wait | C_woken | C_ret int "nat option"

record 'i msys =
  ms_lock :: "nat option"
  ms_stopping :: bool
  ms_drivers :: "'i driver_entry list"
  ms_thread :: manager_pc
  ms_queue :: "nat list"
  ms_first :: 'i
  ms_trid :: "nat \<Rightarrow> 'i"
  ms_done :: "nat \<Rightarrow> bool"
  ms_driver :: "nat \<Rightarrow> nat option"
  ms_caller :: "nat \<Rightarrow> caller_pc"

definition notify_callers :: "(nat \<Rightarrow> caller_pc) \<Rightarrow> nat \<Rightarrow> caller_pc" where
  "notify_callers pc = (\<lambda>c. if pc c = C_wait then C_woken else pc c)"

definition notify_thread :: "manager_pc \<Rightarrow> manager_pc" where
  "notify_thread m = (if m = M_wait then M_woken else m)"

text \<open>\<open>pe_local\<close>: the address of the id parses as a PCI address; \<open>pe_probe\<close>: what a probe of all local devices (\<open>None\<close>), or of one id, answers.\<close>

record 'i probe_env =
  pe_same :: "'i \<Rightarrow> 'i \<Rightarrow> bool"
  pe_pcie :: "'i \<Rightarrow> bool"
  pe_local :: "'i \<Rightarrow> bool"
  pe_probe :: "'i option \<Rightarrow> int \<times> 'i found list"

text \<open>The argument of each probe: the thread took the id of the call that created it (\<open>ms_first\<close>).\<close>

definition probe_arg :: "'i probe_env \<Rightarrow> 'i msys \<Rightarrow> 'i option" where
  "probe_arg env S = (if pe_local env (ms_first S) then None else Some (ms_first S))"

text \<open>What a turn of the thread does with the front of the queue.\<close>

definition serve :: "'i probe_env \<Rightarrow> nat \<Rightarrow> 'i msys \<Rightarrow> ('i driver_entry list \<times> nat option) res" where
  "serve env c S =
     (case pe_probe env (probe_arg env S) of (r, fs) \<Rightarrow>
        rbind (probe_all (pe_same env) (pe_pcie env) (ms_lock S \<noteq> None) (ms_trid S c) fs (ms_drivers S, ms_driver S c))
          (\<lambda>(drivers, drv). c_assert (r < 0 \<longrightarrow> drv = None) (Ok (drivers, drv))))"

text \<open>\<open>mtake\<close> to \<open>mrewait\<close> are the steps of the running system; \<open>mfound\<close> to \<open>menqueue\<close> are new calls, \<open>mspurious\<close> the
  wake-ups that the standard allows, and \<open>mstop\<close> the destructor, which must not run while a call is on its way
  to the queue. Each number of a caller stands for one call.\<close>

inductive mstep :: "'i probe_env \<Rightarrow> 'i msys \<Rightarrow> 'i msys \<Rightarrow> bool" for env where
  mstart: "ms_thread S = M_init \<Longrightarrow> mstep env S (S\<lparr>ms_thread := M_run\<rparr>)"
| mwake: "ms_thread S = M_woken \<Longrightarrow> mstep env S (S\<lparr>ms_thread := M_run\<rparr>)"
| mtake: "ms_thread S = M_run \<Longrightarrow> \<not> ms_stopping S \<Longrightarrow> ms_queue S = c # cs \<Longrightarrow> serve env c S = Ok (drivers, drv) \<Longrightarrow>
    mstep env S (S\<lparr>ms_queue := cs, ms_drivers := drivers, ms_driver := (ms_driver S)(c := drv), ms_done := (ms_done S)(c := True),
      ms_caller := notify_callers (ms_caller S)\<rparr>)"
| msleep: "ms_thread S = M_run \<Longrightarrow> \<not> ms_stopping S \<Longrightarrow> ms_queue S = [] \<Longrightarrow> mstep env S (S\<lparr>ms_thread := M_wait\<rparr>)"
| mexit: "ms_thread S = M_run \<Longrightarrow> ms_stopping S \<Longrightarrow>
    mstep env S (S\<lparr>ms_thread := M_exit, ms_done := (\<lambda>c. c \<in> set (ms_queue S) \<or> ms_done S c),
      ms_caller := notify_callers (ms_caller S)\<rparr>)"
| mreturn: "ms_caller S c = C_woken \<Longrightarrow> ms_thread S \<noteq> M_run \<Longrightarrow> ms_done S c \<Longrightarrow>
    mstep env S (S\<lparr>ms_caller := (ms_caller S)(c := C_ret (if ms_driver S c = None then - 1 else 0) (ms_driver S c)), ms_lock := None\<rparr>)"
| mrewait: "ms_caller S c = C_woken \<Longrightarrow> ms_thread S \<noteq> M_run \<Longrightarrow> \<not> ms_done S c \<Longrightarrow>
    mstep env S (S\<lparr>ms_caller := (ms_caller S)(c := C_wait)\<rparr>)"
| menter: "ms_caller S c = C_enter \<Longrightarrow> ms_thread S \<noteq> M_run \<Longrightarrow> ms_thread S \<noteq> M_exit \<Longrightarrow>
    mstep env S (S\<lparr>ms_queue := ms_queue S @ [c], ms_thread := notify_thread (ms_thread S),
      ms_caller := (notify_callers (ms_caller S))(c := C_wait)\<rparr>)"

inductive mcall :: "'i probe_env \<Rightarrow> 'i msys \<Rightarrow> 'i msys \<Rightarrow> bool" for env where
  mfound: "ms_lock S = None \<Longrightarrow> ms_caller S c = C_idle \<Longrightarrow> find_driver (pe_same env) trid (ms_drivers S) 0 = Some i \<Longrightarrow>
    mcall env S (S\<lparr>ms_trid := (ms_trid S)(c := trid), ms_caller := (ms_caller S)(c := C_ret 0 (Some i))\<rparr>)"
| mqueue: "ms_lock S = None \<Longrightarrow> ms_caller S c = C_idle \<Longrightarrow> find_driver (pe_same env) trid (ms_drivers S) 0 = None \<Longrightarrow>
    0 < find_first_bitset ''0x1'' \<Longrightarrow> \<not> ms_stopping S \<Longrightarrow>
    mcall env S (S\<lparr>ms_lock := Some c, ms_thread := (if ms_thread S = M_none then M_init else ms_thread S),
      ms_first := (if ms_thread S = M_none then trid else ms_first S),
      ms_trid := (ms_trid S)(c := trid), ms_driver := (ms_driver S)(c := None), ms_done := (ms_done S)(c := False),
      ms_caller := (ms_caller S)(c := C_enter)\<rparr>)"
| mspurious_thread: "ms_thread S = M_wait \<Longrightarrow> mcall env S (S\<lparr>ms_thread := M_woken\<rparr>)"
| mspurious_caller: "ms_caller S c = C_wait \<Longrightarrow> mcall env S (S\<lparr>ms_caller := (ms_caller S)(c := C_woken)\<rparr>)"
| mstop: "ms_thread S \<noteq> M_none \<Longrightarrow> ms_thread S \<noteq> M_run \<Longrightarrow> (\<And>c. ms_caller S c \<noteq> C_enter) \<Longrightarrow>
    mcall env S (S\<lparr>ms_stopping := True, ms_thread := notify_thread (ms_thread S), ms_caller := notify_callers (ms_caller S)\<rparr>)"

definition manager_init :: "'i \<Rightarrow> 'i msys" where
  "manager_init z = \<lparr>ms_lock = None, ms_stopping = False, ms_drivers = [], ms_thread = M_none, ms_queue = [], ms_first = z, ms_trid = (\<lambda>_. z),
     ms_done = (\<lambda>_. False), ms_driver = (\<lambda>_. None), ms_caller = (\<lambda>_. C_idle)\<rparr>"

definition mreach :: "'i probe_env \<Rightarrow> 'i \<Rightarrow> 'i msys \<Rightarrow> bool" where
  "mreach env z S \<longleftrightarrow> (\<lambda>S T. mstep env S T \<or> mcall env S T)\<^sup>*\<^sup>* (manager_init z) S"

subsection \<open>The invariant\<close>

definition active :: "caller_pc \<Rightarrow> bool" where
  "active p \<longleftrightarrow> p = C_enter \<or> p = C_wait \<or> p = C_woken"

definition minv :: "'i msys \<Rightarrow> bool" where
  "minv S \<longleftrightarrow> (ms_thread S = M_wait \<longrightarrow> ms_queue S = [] \<and> \<not> ms_stopping S)
     \<and> (\<forall>c. ms_caller S c = C_wait \<longrightarrow> c \<in> set (ms_queue S) \<and> \<not> ms_done S c)
     \<and> (\<forall>c. ms_caller S c = C_woken \<longrightarrow> ms_done S c \<or> c \<in> set (ms_queue S))
     \<and> (ms_thread S = M_exit \<longrightarrow> ms_stopping S \<and> (\<forall>c \<in> set (ms_queue S). ms_done S c))
     \<and> (\<forall>c. active (ms_caller S c) \<longrightarrow> ms_lock S = Some c)
     \<and> (ms_thread S \<noteq> M_exit \<longrightarrow> (\<forall>c \<in> set (ms_queue S). ms_caller S c = C_wait \<or> ms_caller S c = C_woken))
     \<and> (ms_thread S \<noteq> M_exit \<longrightarrow> (\<forall>c \<in> set (ms_queue S). \<not> ms_done S c)) \<and> distinct (ms_queue S)
     \<and> (ms_lock S \<noteq> None \<longrightarrow> ms_thread S \<noteq> M_none)
     \<and> (\<forall>c. ms_caller S c = C_enter \<longrightarrow> \<not> ms_stopping S \<and> \<not> ms_done S c)"

lemma minvD:
  assumes "minv S"
  shows "ms_thread S = M_wait \<Longrightarrow> ms_queue S = []" "ms_thread S = M_wait \<Longrightarrow> \<not> ms_stopping S"
    "ms_caller S c = C_wait \<Longrightarrow> c \<in> set (ms_queue S)" "ms_caller S c = C_wait \<Longrightarrow> \<not> ms_done S c"
    "ms_caller S c = C_woken \<Longrightarrow> ms_done S c \<or> c \<in> set (ms_queue S)"
    "ms_thread S = M_exit \<Longrightarrow> ms_stopping S" "ms_thread S = M_exit \<Longrightarrow> c \<in> set (ms_queue S) \<Longrightarrow> ms_done S c"
    "active (ms_caller S c) \<Longrightarrow> ms_lock S = Some c"
    "ms_thread S \<noteq> M_exit \<Longrightarrow> c \<in> set (ms_queue S) \<Longrightarrow> ms_caller S c = C_wait \<or> ms_caller S c = C_woken"
    "ms_lock S \<noteq> None \<Longrightarrow> ms_thread S \<noteq> M_none"
    "ms_caller S c = C_enter \<Longrightarrow> \<not> ms_stopping S" "ms_caller S c = C_enter \<Longrightarrow> \<not> ms_done S c"
    "ms_thread S \<noteq> M_exit \<Longrightarrow> c \<in> set (ms_queue S) \<Longrightarrow> \<not> ms_done S c" "distinct (ms_queue S)"
  using assms unfolding minv_def by blast+

lemma active_simps [simp]: "active C_enter" "active C_wait" "active C_woken" "\<not> active C_idle" "\<not> active (C_ret r d)"
  by (simp_all add: active_def)

lemma notify_simps [simp]:
  "notify_callers pc c = C_woken \<longleftrightarrow> pc c = C_wait \<or> pc c = C_woken" "notify_callers pc c \<noteq> C_wait"
  "notify_callers pc c = C_enter \<longleftrightarrow> pc c = C_enter" "notify_callers pc c = C_idle \<longleftrightarrow> pc c = C_idle"
  "notify_callers pc c = C_ret r d \<longleftrightarrow> pc c = C_ret r d" "active (notify_callers pc c) = active (pc c)"
  by (auto simp: notify_callers_def active_def)

lemma notify_thread_simps [simp]:
  "notify_thread m \<noteq> M_wait" "notify_thread m = M_exit \<longleftrightarrow> m = M_exit" "notify_thread m = M_none \<longleftrightarrow> m = M_none"
  "notify_thread m = M_run \<longleftrightarrow> m = M_run"
  by (auto simp: notify_thread_def)

text \<open>The callers in the queue are those in the call, of whom there is one.\<close>

lemma minv_one: "minv S \<Longrightarrow> ms_caller S c = C_enter \<Longrightarrow> ms_thread S \<noteq> M_exit \<Longrightarrow> ms_queue S = []"
proof (rule ccontr)
  assume m: "minv S" "ms_caller S c = C_enter" "ms_thread S \<noteq> M_exit" and "ms_queue S \<noteq> []"
  then obtain d where d: "d \<in> set (ms_queue S)" by (cases "ms_queue S") auto
  then have "ms_caller S d = C_wait \<or> ms_caller S d = C_woken" using minvD(9) [OF m(1,3)] by blast
  moreover from this have "ms_lock S = Some d" using minvD(8) [OF m(1), of d] by auto
  moreover have "ms_lock S = Some c" using minvD(8) [OF m(1), of c] m(2) by simp
  ultimately show False using m(2) by auto
qed

lemma mstep_minv:
  assumes "mstep env S T" "minv S"
  shows "minv T"
  using assms
proof (induction rule: mstep.induct)
  case (mtake S c cs drivers drv)
  note D = minvD [OF mtake(5)]
  have "c' \<in> set cs" if "c' \<noteq> c" "ms_caller S c' = C_wait \<or> ms_caller S c' = C_woken" "\<not> ms_done S c'" for c'
    using D(3,5) [of c'] that mtake(3) by auto
  moreover have "ms_caller S c' = C_wait \<or> ms_caller S c' = C_woken" if "c' \<in> set cs" for c'
    using D(9) [of c'] that mtake(1,3) by simp
  moreover have "ms_caller S c \<noteq> C_enter" using D(9) [of c] mtake(1,3) by auto
  moreover have "\<not> ms_done S c'" "c' \<noteq> c" if "c' \<in> set cs" for c'
    using D(13) [of c'] D(14) that mtake(1,3) by auto
  moreover have "distinct cs" using D(14) mtake(3) by simp
  ultimately show ?case using D(2,6-8,10-12) mtake(1) unfolding minv_def by (auto simp del: not_None_eq)
next
  case (mexit S)
  note D = minvD [OF mexit(3)]
  show ?case using D mexit(1,2) unfolding minv_def by (auto simp del: not_None_eq)
next
  case (mreturn S c)
  note D = minvD [OF mreturn(4)]
  have l: "ms_lock S = Some c" using D(8) [of c] mreturn(1) by simp
  have o: "\<not> active (ms_caller S c')" if "c' \<noteq> c" for c' using D(8) [of c'] l that by auto
  have q: "c \<notin> set (ms_queue S) \<or> ms_thread S = M_exit" using D(13) [of c] mreturn(3) by blast
  show ?case using D mreturn(1,2,3) o q unfolding minv_def by (auto simp del: not_None_eq)
next
  case (menter S c)
  note D = minvD [OF menter(4)]
  have l: "ms_lock S = Some c" using D(8) [of c] menter(1) by simp
  have o: "\<not> active (ms_caller S c')" if "c' \<noteq> c" for c' using D(8) [of c'] l that by auto
  have q: "ms_queue S = []" by (rule minv_one [OF menter(4,1,3)])
  have d: "\<not> ms_done S c" "\<not> ms_stopping S" using D(11,12) menter(1) by simp_all
  show ?case using D menter(1,2,3) o q d l unfolding minv_def by (auto simp del: not_None_eq)
qed (auto simp: minv_def simp del: not_None_eq)

lemma mcall_minv:
  assumes "mcall env S T" "minv S"
  shows "minv T"
  using assms
proof (induction rule: mcall.induct)
  case (mfound S c trid i)
  note D = minvD [OF mfound(4)]
  have "c \<notin> set (ms_queue S) \<or> ms_thread S = M_exit" using D(9) [of c] mfound(2) by auto
  then show ?case using mfound unfolding minv_def by (auto simp del: not_None_eq)
next
  case (mqueue S c trid)
  note D = minvD [OF mqueue(6)]
  have o: "\<not> active (ms_caller S d)" for d using D(8) [of d] mqueue(1) by auto
  have w: "ms_caller S d \<noteq> C_wait" "ms_caller S d \<noteq> C_woken" "ms_caller S d \<noteq> C_enter" for d using o [of d] by auto
  have x: "ms_thread S \<noteq> M_exit" using D(6) mqueue(5) by blast
  have q: "ms_queue S = []"
    using D(9) [OF x] w by (metis last_in_set)
  have t: "ms_thread S = M_none \<or> ms_thread S \<noteq> M_none" by blast
  show ?case using o w x q mqueue(5) unfolding minv_def by auto
next
  case (mspurious_thread S)
  then show ?case unfolding minv_def by (auto simp del: not_None_eq)
next
  case (mspurious_caller S c)
  note D = minvD [OF mspurious_caller(2)]
  have l: "ms_lock S = Some c" using D(8) [of c] mspurious_caller(1) by simp
  have o: "\<not> active (ms_caller S c')" if "c' \<noteq> c" for c' using D(8) [of c'] l that by auto
  show ?case using D mspurious_caller(1) o l unfolding minv_def by (auto simp del: not_None_eq)
next
  case (mstop S)
  note D = minvD [OF mstop(4)]
  show ?case using D mstop(1-3) unfolding minv_def by (auto simp del: not_None_eq)
qed

interpretation mg: invariant_system "\<lambda>S T. mstep env S T \<or> mcall env S T" minv for env
  by unfold_locales (use mstep_minv mcall_minv in blast)

lemma mreach_minv: "mreach env z S \<Longrightarrow> minv S"
  unfolding mreach_def by (erule mg.steps_inv) (simp add: minv_def manager_init_def)

subsection \<open>Every call is served\<close>

text \<open>What each step of the running system decreases: calls on their way, the queue, the thread's turn, woken calls.\<close>

fun phase :: "manager_pc \<Rightarrow> nat" where
  "phase M_init = 2" | "phase M_woken = 2" | "phase M_run = 1" | "phase _ = 0"

definition callers_at :: "caller_pc \<Rightarrow> 'i msys \<Rightarrow> nat set" where
  "callers_at p S = {c. ms_caller S c = p}"

definition mmeasures :: "('i msys \<times> 'i msys) set" where
  "mmeasures = measures [\<lambda>S. card (callers_at C_enter S), \<lambda>S. length (ms_queue S), \<lambda>S. phase (ms_thread S), \<lambda>S. card (callers_at C_woken S)]"

lemma callers_finite: "minv S \<Longrightarrow> active p \<Longrightarrow> finite (callers_at p S)"
  by (rule finite_subset [of _ "set_option (ms_lock S)"]) (auto simp: callers_at_def dest: minvD(8))

lemma callers_upd:
  "callers_at p (S\<lparr>ms_caller := (ms_caller S)(c := q)\<rparr>) = (if q = p then insert c (callers_at p S) else callers_at p S - {c})"
  by (auto simp: callers_at_def)

lemma callers_notify: "p = C_enter \<Longrightarrow> {c. notify_callers (ms_caller S) c = p} = callers_at p S"
  by (auto simp: callers_at_def)

lemma mstep_decreases: "mstep env S T \<Longrightarrow> minv S \<Longrightarrow> (T, S) \<in> mmeasures"
proof (induction rule: mstep.induct)
  case (mtake S c cs drivers drv)
  then show ?case by (simp add: mmeasures_def callers_at_def)
next
  case (mexit S)
  then show ?case by (simp add: mmeasures_def callers_at_def)
next
  case (mreturn S c)
  have "callers_at C_woken (S\<lparr>ms_caller := (ms_caller S)(c := C_ret r d), ms_lock := None\<rparr>) = callers_at C_woken S - {c}"
      "callers_at C_enter (S\<lparr>ms_caller := (ms_caller S)(c := C_ret r d), ms_lock := None\<rparr>) = callers_at C_enter S" for r d
    using mreturn(1) by (auto simp: callers_at_def)
  moreover have "c \<in> callers_at C_woken S" using mreturn(1) by (simp add: callers_at_def)
  ultimately show ?case using card_Diff1_less [OF callers_finite [OF mreturn(4), of C_woken], of c]
    by (simp add: mmeasures_def)
next
  case (mrewait S c)
  have "callers_at C_woken (S\<lparr>ms_caller := (ms_caller S)(c := C_wait)\<rparr>) = callers_at C_woken S - {c}"
      "callers_at C_enter (S\<lparr>ms_caller := (ms_caller S)(c := C_wait)\<rparr>) = callers_at C_enter S"
    using mrewait(1) by (auto simp: callers_at_def)
  moreover have "c \<in> callers_at C_woken S" using mrewait(1) by (simp add: callers_at_def)
  ultimately show ?case using card_Diff1_less [OF callers_finite [OF mrewait(4), of C_woken], of c]
    by (simp add: mmeasures_def)
next
  case (menter S c)
  have "callers_at C_enter (S\<lparr>ms_queue := q, ms_thread := t, ms_caller := (notify_callers (ms_caller S))(c := C_wait)\<rparr>)
      = callers_at C_enter S - {c}" for q t
    by (auto simp: callers_at_def)
  moreover have "c \<in> callers_at C_enter S" using menter(1) by (simp add: callers_at_def)
  ultimately show ?case using card_Diff1_less [OF callers_finite [OF menter(4), of C_enter], of c]
    by (simp add: mmeasures_def)
qed (simp_all add: mmeasures_def callers_at_def)

text \<open>A system that cannot go on has served its calls, or its thread is in a probe that fails an assertion.\<close>

definition probe_fails :: "'i probe_env \<Rightarrow> 'i msys \<Rightarrow> bool" where
  "probe_fails env S \<longleftrightarrow> ms_thread S = M_run \<and> (\<exists>c cs e. ms_queue S = c # cs \<and> serve env c S = Fault e)"

lemma stuck_served:
  assumes I: "minv S" and stuck: "\<And>T. \<not> mstep env S T"
  shows "(\<forall>c. \<not> active (ms_caller S c)) \<or> probe_fails env S"
proof (rule ccontr)
  assume n: "\<not> ?thesis"
  then obtain c where c: "active (ms_caller S c)" by blast
  note D = minvD [OF I]
  have "ms_lock S = Some c" using D(8) [OF c] .
  then have t: "ms_thread S \<noteq> M_none" using D(10) by simp
  have run: "ms_thread S \<noteq> M_run"
  proof
    assume r: "ms_thread S = M_run"
    show False
    proof (cases "ms_stopping S")
      case True
      then show False using stuck mstep.mexit [OF r] by blast
    next
      case False
      show False
      proof (cases "ms_queue S")
        case Nil
        then show False using stuck mstep.msleep [OF r False] by blast
      next
        case (Cons d ds)
        obtain drivers drv where "serve env d S = Ok (drivers, drv)"
          using n r Cons unfolding probe_fails_def by (metis surj_pair sum.exhaust)
        then show False using stuck mstep.mtake [OF r False Cons] by blast
      qed
    qed
  qed
  have w: "ms_thread S = M_wait \<or> ms_thread S = M_exit"
    using stuck mstep.mstart mstep.mwake t run by (metis manager_pc.exhaust)
  have enter: "ms_caller S c \<noteq> C_enter"
    using stuck mstep.menter [OF _ run] D(6) D(11) by metis
  have woken: "ms_caller S c \<noteq> C_woken"
    using stuck mstep.mreturn [OF _ run, of c env] mstep.mrewait [OF _ run, of c env] by metis
  then have "ms_caller S c = C_wait" using c enter by (simp add: active_def)
  then show False using w D(1) D(3) D(4) D(7) by (metis list.set_cases list.distinct(1))
qed

interpretation mv: serving_system "\<lambda>S T. mstep env S T \<or> mcall env S T" minv "mstep env" mmeasures
    "\<lambda>S. \<forall>c. \<not> active (ms_caller S c)" "probe_fails env" for env
  by unfold_locales (auto simp: mmeasures_def [abs_def] dest: mstep_decreases stuck_served)

subsection \<open>What a call returns\<close>

lemma probe_all_cases:
  "probe_all same pcie locked want fs (ds, drv) = Ok (ds', drv') \<Longrightarrow>
    (ds' = ds \<and> drv' = drv) \<or> (ds = [] \<and> locked \<and> (\<exists>dr. ds' = [(want, dr)] \<and> drv' = Some 0))"
proof (induction fs arbitrary: ds drv)
  case (Cons f fs)
  then obtain a o' where a: "probe_cb same pcie want (fd_trid f) (fd_opts f) = Ok (a, o')" by fastforce
  show ?case
  proof (cases a)
    case False
    then show ?thesis using Cons a by auto
  next
    case True
    then obtain ds1 i where r: "register_ctrlr locked want (fd_num_ns f) (fd_ns f) ds = Ok (ds1, i)"
        "probe_all same pcie locked want fs (ds1, Some i) = Ok (ds', drv')"
      using Cons.prems a by (auto simp: attach_cb_def)
    then obtain dr where d: "ds = []" "locked" "ds1 = [(want, dr)]" "i = 0"
      by (auto simp: register_ctrlr_def c_assert_def split: option.splits if_splits)
    then show ?thesis using Cons.IH [OF r(2)] by auto
  qed
qed simp

lemma find_driver_Some:
  "find_driver same trid ds i = Some j \<Longrightarrow> i \<le> j \<and> j - i < length ds \<and> same (fst (ds ! (j - i))) trid"
proof (induction ds arbitrary: i)
  case (Cons d ds)
  show ?case
  proof (cases "same (fst d) trid")
    case False
    then have "Suc i \<le> j \<and> j - Suc i < length ds \<and> same (fst (ds ! (j - Suc i))) trid" using Cons by simp
    then show ?thesis by (auto simp: nth_Cons' Suc_diff_Suc)
  qed (use Cons.prems in simp)
qed simp

definition right_driver :: "('i \<Rightarrow> 'i \<Rightarrow> bool) \<Rightarrow> 'i driver_entry list \<Rightarrow> 'i \<Rightarrow> nat option \<Rightarrow> bool" where
  "right_driver same ds trid d \<longleftrightarrow> (\<forall>i. d = Some i \<longrightarrow> i < length ds \<and> same (fst (ds ! i)) trid)"

definition returns_ok :: "'i probe_env \<Rightarrow> 'i msys \<Rightarrow> bool" where
  "returns_ok env S \<longleftrightarrow> length (ms_drivers S) \<le> 1
     \<and> (\<forall>c. right_driver (pe_same env) (ms_drivers S) (ms_trid S c) (ms_driver S c))
     \<and> (\<forall>c r d. ms_caller S c = C_ret r d \<longrightarrow> right_driver (pe_same env) (ms_drivers S) (ms_trid S c) d
          \<and> r = (if d = None then - 1 else 0))
     \<and> (\<forall>c. ms_caller S c = C_idle \<longrightarrow> ms_driver S c = None)"

lemma right_driver_None [simp]: "right_driver same ds trid None"
  by (simp add: right_driver_def)

lemma mstep_returns:
  assumes same: "\<And>i. pe_same env i i"
  shows "mstep env S T \<Longrightarrow> minv S \<Longrightarrow> returns_ok env S \<Longrightarrow> returns_ok env T"
proof (induction rule: mstep.induct)
  case (mtake S c cs drivers drv)
  obtain r fs where f: "pe_probe env (probe_arg env S) = (r, fs)" by fastforce
  then have "probe_all (pe_same env) (pe_pcie env) (ms_lock S \<noteq> None) (ms_trid S c) fs (ms_drivers S, ms_driver S c) = Ok (drivers, drv)"
    using mtake(4) by (auto simp: serve_def c_assert_def split: if_splits)
  from probe_all_cases [OF this] consider "drivers = ms_drivers S" "drv = ms_driver S c"
    | dr where "ms_drivers S = []" "drivers = [(ms_trid S c, dr)]" "drv = Some 0"
    by blast
  then show ?case
  proof cases
    case 1
    then have "(ms_driver S)(c := drv) = ms_driver S" by auto
    then show ?thesis using mtake(6) 1(1) by (simp add: returns_ok_def)
  next
    case 2
    have none: "ms_driver S d = None" for d using mtake(6) 2(1) by (auto simp: returns_ok_def right_driver_def)
    have ret: "x = None \<and> k = - 1" if "ms_caller S d = C_ret k x" for d k x
      using mtake(6) 2(1) that by (fastforce simp: returns_ok_def right_driver_def)
    have "ms_caller S c \<noteq> C_idle" using minvD(9) [OF mtake(5), of c] mtake(1,3) by auto
    then show ?thesis using 2 none same by (auto simp: returns_ok_def right_driver_def dest: ret)
  qed
next
  case (mreturn S c)
  then show ?case by (auto simp: returns_ok_def)
qed (auto simp: returns_ok_def)

lemma mcall_returns: "mcall env S T \<Longrightarrow> returns_ok env S \<Longrightarrow> returns_ok env T"
proof (induction rule: mcall.induct)
  case (mfound S c trid i)
  have "i < length (ms_drivers S)" "pe_same env (fst (ms_drivers S ! i)) trid"
    using find_driver_Some [OF mfound(3)] by simp_all
  moreover have "ms_driver S c = None" using mfound(2,4) by (simp add: returns_ok_def)
  ultimately show ?case using mfound(4) by (auto simp: returns_ok_def right_driver_def)
next
  case (mqueue S c trid)
  then show ?case by (auto simp: returns_ok_def)
qed (auto simp: returns_ok_def)


interpretation mr: invariant_system "\<lambda>S T. mstep env S T \<or> mcall env S T"
    "\<lambda>S. minv S \<and> ((\<forall>i. pe_same env i i) \<longrightarrow> returns_ok env S)" for env
  by unfold_locales (metis mstep_minv mcall_minv mstep_returns mcall_returns)

lemma mreach_returns: "\<forall>i. pe_same env i i \<Longrightarrow> mreach env z S \<Longrightarrow> returns_ok env S"
  unfolding mreach_def
  by (drule mr.steps_inv) (simp_all add: minv_def returns_ok_def manager_init_def)

subsection \<open>The number that a mask is\<close>

fun digits_value :: "nat list \<Rightarrow> nat" where
  "digits_value [] = 0"
| "digits_value (c # cs) = nat (hex2dec c) + 16 * digits_value cs"

lemma hex2dec_range: "isxdigit c \<Longrightarrow> 0 \<le> hex2dec c \<and> hex2dec c < 16"
  by (auto simp: isxdigit_def hex2dec_def)

definition lowest_bit :: "nat \<Rightarrow> nat \<Rightarrow> bool" where
  "lowest_bit v k \<longleftrightarrow> 2 ^ k dvd v \<and> \<not> 2 ^ Suc k dvd v"

lemma lowest_bit_16: "lowest_bit v k \<Longrightarrow> lowest_bit (16 * v) (k + 4)"
  by (simp add: lowest_bit_def power_add)

lemma ffs_lowest:
  assumes "0 < d" "d < 16"
  shows "\<exists>k < 4. ffs (int d) = int k + 1 \<and> lowest_bit (d + 16 * w) k"
proof -
  have dv: "2 ^ j dvd d + 16 * w \<longleftrightarrow> 2 ^ j dvd d" if "j \<le> 4" for j
  proof -
    have "(2 :: nat) ^ j dvd 2 ^ 4" using that by (rule le_imp_power_dvd)
    then have "2 ^ j dvd 16 * w" by simp
    then show ?thesis by (simp add: dvd_add_left_iff)
  qed
  have l: "lowest_bit (d + 16 * w) k = lowest_bit d k" if "k < 4" for k
    using dv [of k] dv [of "Suc k"] that by (simp add: lowest_bit_def)
  have "d mod 2 = 1 \<or> d mod 4 = 2 \<or> d mod 8 = 4 \<or> d = 8" using assms by presburger
  then consider "d mod 2 = 1" | "d mod 4 = 2" | "d mod 8 = 4" | "d = 8" by blast
  then have "\<exists>k < 4. ffs (int d) = int k + 1 \<and> lowest_bit d k"
  proof cases
    case 1
    then have "int d mod 2 = 1" "lowest_bit d 0" unfolding lowest_bit_def by (presburger, simp add: dvd_eq_mod_eq_0)
    then show ?thesis by (intro exI [of _ 0]) (simp add: ffs_def)
  next
    case 2
    then have "int d mod 2 = 0" "int d mod 4 = 2" "lowest_bit d 1" unfolding lowest_bit_def
      by (presburger, presburger, simp add: dvd_eq_mod_eq_0, presburger)
    then show ?thesis by (intro exI [of _ 1]) (simp add: ffs_def)
  next
    case 3
    then have "int d mod 2 = 0" "int d mod 4 = 0" "int d mod 8 = 4" "lowest_bit d 2" unfolding lowest_bit_def
      by (presburger, presburger, presburger, simp add: dvd_eq_mod_eq_0, presburger)
    then show ?thesis by (intro exI [of _ 2]) (simp add: ffs_def)
  next
    case 4
    then show ?thesis by (intro exI [of _ 3]) (simp add: ffs_def lowest_bit_def)
  qed
  then show ?thesis using l by blast
qed

lemma first_bitset_lowest:
  "\<forall>c \<in> set cs. isxdigit c \<Longrightarrow>
    (if digits_value cs = 0 then first_bitset_loop cs pos = 0
     else \<exists>k. first_bitset_loop cs pos = pos + int k + 1 \<and> lowest_bit (digits_value cs) k)"
proof (induction cs arbitrary: pos)
  case (Cons c cs)
  have x: "isxdigit c" "\<forall>c \<in> set cs. isxdigit c" using Cons.prems by simp_all
  note h = hex2dec_range [OF x(1)]
  show ?case
  proof (cases "hex2dec c = 0")
    case True
    note IH = Cons.IH [OF x(2), of "pos + 4"]
    show ?thesis
    proof (cases "digits_value cs = 0")
      case True
      then show ?thesis using IH \<open>hex2dec c = 0\<close> x(1) by simp
    next
      case False
      then obtain k where "first_bitset_loop cs (pos + 4) = pos + 4 + int k + 1" "lowest_bit (digits_value cs) k" using IH by auto
      then show ?thesis using lowest_bit_16 False \<open>hex2dec c = 0\<close> x(1) by (auto intro!: exI [of _ "k + 4"])
    qed
  next
    case False
    then have d: "0 < nat (hex2dec c)" "nat (hex2dec c) < 16" "int (nat (hex2dec c)) = hex2dec c" using h by auto
    from ffs_lowest [OF d(1,2), of "digits_value cs"] obtain k where
      "ffs (hex2dec c) = int k + 1" "lowest_bit (nat (hex2dec c) + 16 * digits_value cs) k"
      unfolding d(3) by blast
    then show ?thesis using False x(1) d(1) by auto
  qed
qed simp

text \<open>The thread's id is set once.\<close>

interpretation mf: invariant_system "\<lambda>S T. mstep env S T \<or> mcall env S T" "\<lambda>S. ms_first S = i \<and> ms_thread S \<noteq> M_none" for env i
  by unfold_locales (elim disjE; elim mstep.cases mcall.cases; auto)

subsection \<open>Properties\<close>

text \<open>C5: no call of \<open>try_get\<close> waits for ever: from every reachable state the system's own steps, without new calls,
  cannot go on for ever, and where they end every call has returned, unless the thread stands before a probe that
  fails an assertion. No wake-up of the condition variable is lost, whatever was woken without cause before.\<close>

theorem try_get_served:
  "wf {(T, S). mreach env z S \<and> mstep env S T}
   \<and> (\<forall>S. mreach env z S \<and> (\<forall>T. \<not> mstep env S T) \<longrightarrow>
        (\<forall>c. ms_caller S c = C_idle \<or> (\<exists>r d. ms_caller S c = C_ret r d))
        \<or> (ms_thread S = M_run \<and> (\<exists>c cs e. ms_queue S = c # cs \<and> serve env c S = Fault e)))"
proof (intro conjI allI impI)
  show "wf {(T, S). mreach env z S \<and> mstep env S T}"
    by (rule wf_subset [OF mv.own_wf [of env]]) (auto dest: mreach_minv)
  fix S
  assume m: "mreach env z S \<and> (\<forall>T. \<not> mstep env S T)"
  have "minv S" by (rule mreach_minv [OF conjunct1 [OF m]])
  then have "(\<forall>c. \<not> active (ms_caller S c)) \<or> probe_fails env S" by (rule mv.stuck) (use m in simp)
  moreover have "ms_caller S c = C_idle \<or> (\<exists>r d. ms_caller S c = C_ret r d)" if "\<not> active (ms_caller S c)" for c
    using that by (cases "ms_caller S c") (auto simp: active_def)
  ultimately show "(\<forall>c. ms_caller S c = C_idle \<or> (\<exists>r d. ms_caller S c = C_ret r d))
      \<or> (ms_thread S = M_run \<and> (\<exists>c cs e. ms_queue S = c # cs \<and> serve env c S = Fault e))"
    unfolding probe_fails_def by blast
qed

definition no_device :: "nat probe_env" where
  "no_device = \<lparr>pe_same = (=), pe_pcie = (\<lambda>_. True), pe_local = (\<lambda>_. True), pe_probe = (\<lambda>_. (- 1, []))\<rparr>"

lemma first_mask: "0 < find_first_bitset ''0x1''"
  by (simp add: find_first_bitset_def isxdigit_def hex2dec_def ffs_def)

lemma mreach_init: "mreach env z (manager_init z)"
  by (simp add: mreach_def)

lemma mreach_step: "mreach env z S \<Longrightarrow> mstep env S T \<or> mcall env S T \<Longrightarrow> mreach env z T"
  unfolding mreach_def by (rule rtranclp.rtrancl_into_rtrancl)

text \<open>A call that finds nothing: it queues, is served, and returns.\<close>

lemma no_device_run:
  "\<exists>S. mreach no_device 0 S \<and> (\<forall>T. \<not> mstep no_device S T) \<and> ms_caller S 3 \<noteq> C_idle \<and> ms_driver S = (\<lambda>_. None)"
proof -
  define st where "st = (\<lambda>l t q dn c. \<lparr>ms_lock = l, ms_stopping = False, ms_drivers = [], ms_thread = t, ms_queue = q, ms_first = 0, ms_trid = (\<lambda>_. 0 :: nat),
     ms_done = (\<lambda>x :: nat. x = 3 \<and> dn), ms_driver = (\<lambda>_. None), ms_caller = (\<lambda>x. if x = 3 then c else C_idle)\<rparr>)"
  let ?R = "\<lambda>S T. mstep no_device S T \<or> mcall no_device S T"
  have u: "(\<lambda>x :: nat. if x = 3 then c else C_idle)(3 := d) = (\<lambda>x. if x = 3 then d else C_idle)"
      "(\<lambda>_ :: nat. C_idle)(3 := d) = (\<lambda>x. if x = 3 then d else C_idle)"
      "(\<lambda>x :: nat. False)(3 := True) = (\<lambda>x. x = 3)"
      "(\<lambda>x :: nat. x = 3 \<and> b)(3 := b') = (\<lambda>x. x = 3 \<and> b')" "(\<lambda>_ :: nat. y)(3 := y) = (\<lambda>_. y)" for c d b b' and y :: 'y
    by (auto simp: fun_eq_iff)
  have nt: "notify_callers (\<lambda>x. if x = 3 then C_wait else C_idle) = (\<lambda>x. if x = 3 then C_woken else C_idle)"
      "notify_callers (\<lambda>x. if x = 3 then C_enter else C_idle) = (\<lambda>x. if x = 3 then C_enter else C_idle)"
    by (auto simp: fun_eq_iff notify_callers_def)
  note simps = st_def u nt notify_thread_def
  have i: "manager_init 0 = st None M_none [] False C_idle" by (simp add: st_def manager_init_def fun_eq_iff)
  have s1: "?R (st None M_none [] False C_idle) (st (Some 3) M_init [] False C_enter)"
    using mcall.mqueue [of "st None M_none [] False C_idle" 3 no_device 0] first_mask by (simp add: simps)
  have s2: "?R (st (Some 3) M_init [] False C_enter) (st (Some 3) M_run [] False C_enter)"
    using mstep.mstart [of "st (Some 3) M_init [] False C_enter" no_device] by (simp add: simps)
  have s3: "?R (st (Some 3) M_run [] False C_enter) (st (Some 3) M_wait [] False C_enter)"
    using mstep.msleep [of "st (Some 3) M_run [] False C_enter" no_device] by (simp add: simps)
  have s4: "?R (st (Some 3) M_wait [] False C_enter) (st (Some 3) M_woken [3] False C_wait)"
    using mstep.menter [of "st (Some 3) M_wait [] False C_enter" 3 no_device] by (simp add: simps)
  have s5: "?R (st (Some 3) M_woken [3] False C_wait) (st (Some 3) M_run [3] False C_wait)"
    using mstep.mwake [of "st (Some 3) M_woken [3] False C_wait" no_device] by (simp add: simps)
  have s6: "?R (st (Some 3) M_run [3] False C_wait) (st (Some 3) M_run [] True C_woken)"
    using mstep.mtake [of "st (Some 3) M_run [3] False C_wait" 3 "[]" no_device "[]" None]
    by (simp add: simps serve_def no_device_def)
  have s7: "?R (st (Some 3) M_run [] True C_woken) (st (Some 3) M_wait [] True C_woken)"
    using mstep.msleep [of "st (Some 3) M_run [] True C_woken" no_device] by (simp add: simps)
  have s8: "?R (st (Some 3) M_wait [] True C_woken) (st None M_wait [] True (C_ret (- 1) None))"
    using mstep.mreturn [of "st (Some 3) M_wait [] True C_woken" 3 no_device] by (simp add: simps)
  have "mreach no_device 0 (st None M_wait [] True (C_ret (- 1) None))"
    using mreach_step [OF mreach_step [OF mreach_step [OF mreach_step [OF mreach_step [OF mreach_step [OF mreach_step [OF
      mreach_step [OF mreach_init [of no_device 0, unfolded i] s1] s2] s3] s4] s5] s6] s7] s8] .
  moreover have "\<not> mstep no_device (st None M_wait [] True (C_ret (- 1) None)) T" for T
    by (auto simp: st_def elim!: mstep.cases split: if_splits)
  ultimately show ?thesis by (intro exI [of _ "st None M_wait [] True (C_ret (- 1) None)"]) (simp add: st_def)
qed

lemma try_get_served_witness:
  "\<exists>S. mreach no_device 0 S \<and> (\<exists>r d. ms_caller S 3 = C_ret r d)"
proof -
  obtain S where S: "mreach no_device 0 S" "\<forall>T. \<not> mstep no_device S T" "ms_caller S 3 \<noteq> C_idle"
      "ms_driver S = (\<lambda>_. None)" using no_device_run by blast
  have "serve no_device c S \<noteq> Fault e" for c e using S(4) by (simp add: serve_def no_device_def)
  then show ?thesis using try_get_served [of no_device 0] S by blast
qed

definition sample_found :: "nat \<Rightarrow> nat found" where
  "sample_found w = \<lparr>fd_trid = w, fd_num_ns = 1, fd_ns = Some (new_shared_driver 512 1048576), fd_opts = \<lparr>num_io_queues = 0,
     io_queue_size = 0, io_queue_requests = 0, keep_alive_timeout_ms = 0\<rparr>\<rparr>"

definition one_device :: "nat probe_env" where
  "one_device = \<lparr>pe_same = (=), pe_pcie = (\<lambda>_. True), pe_local = (\<lambda>_. True), pe_probe = (\<lambda>w. (0, [sample_found 7]))\<rparr>"

text \<open>C26: a call returns 0 with a driver for the transport id that it asked for, or -1 with none; there is at most one
  driver, and while the thread probes, the manager's lock is held by the call whose context is the only one queued,
  so the assertion of \<open>register_ctrlr\<close> on the lock holds.\<close>

theorem try_get_right_driver:
  assumes "mreach env z S" "\<forall>i. pe_same env i i"
  shows "(\<forall>c r d. ms_caller S c = C_ret r d \<longrightarrow>
      (case d of None \<Rightarrow> r = - 1 | Some i \<Rightarrow> r = 0 \<and> i < length (ms_drivers S) \<and> pe_same env (fst (ms_drivers S ! i)) (ms_trid S c)))
    \<and> length (ms_drivers S) \<le> 1
    \<and> (\<forall>c. ms_thread S = M_run \<and> \<not> ms_stopping S \<and> c \<in> set (ms_queue S) \<longrightarrow> ms_lock S = Some c \<and> ms_queue S = [c])"
proof -
  note D = minvD [OF mreach_minv [OF assms(1)]]
  have r: "returns_ok env S" using mreach_returns assms by metis
  have "ms_lock S = Some c \<and> ms_queue S = [c]" if t: "ms_thread S = M_run" "c \<in> set (ms_queue S)" for c
  proof -
    have l: "ms_lock S = Some d" if "d \<in> set (ms_queue S)" for d
      using D(9) [of d] D(8) [of d] that t(1) by auto
    have e: "d = c" if "d \<in> set (ms_queue S)" for d using l [OF that] l [OF t(2)] by simp
    then have "set (ms_queue S) = {c}" using t(2) by blast
    moreover from this have "length (ms_queue S) = 1" using D(14) distinct_card [of "ms_queue S"] by simp
    ultimately have "ms_queue S = [c]" by (cases "ms_queue S") simp_all
    then show ?thesis using l [OF t(2)] by simp
  qed
  moreover have "(case d of None \<Rightarrow> k = - 1 | Some i \<Rightarrow> k = 0 \<and> i < length (ms_drivers S) \<and> pe_same env (fst (ms_drivers S ! i)) (ms_trid S c))"
    if "ms_caller S c = C_ret k d" for c k d
  proof -
    have "right_driver (pe_same env) (ms_drivers S) (ms_trid S c) d" "k = (if d = None then - 1 else 0)"
      using r that unfolding returns_ok_def by blast+
    then show ?thesis by (cases d) (simp_all add: right_driver_def)
  qed
  moreover have "length (ms_drivers S) \<le> 1" using r unfolding returns_ok_def by blast
  ultimately show ?thesis by blast
qed

lemma try_get_right_driver_witness:
  "\<exists>S. mreach no_device 0 S \<and> ms_caller S 3 \<noteq> C_idle \<and> length (ms_drivers S) \<le> 1"
proof -
  obtain S where S: "mreach no_device 0 S" "ms_caller S 3 \<noteq> C_idle" using no_device_run by blast
  have "\<forall>i. pe_same no_device i i" by (simp add: no_device_def)
  from try_get_right_driver [OF S(1) this] S show ?thesis by blast
qed

text \<open>A second device stops the process: with a driver registered, a probe that finds a controller for another id, as
  \<open>try_get\<close> of a second path does, fails the assertion of \<open>register_ctrlr\<close>.\<close>

theorem second_device_asserts:
  assumes "ms_drivers S \<noteq> []" "ms_lock S = Some c" "pe_probe env (probe_arg env S) = (r, [f])" "pe_same env (ms_trid S c) (fd_trid f)"
    "1 \<le> fd_num_ns f" "fd_ns f = Some dr"
  shows "serve env c S = Fault AssertFail"
  using assms by (simp add: serve_def probe_cb_def attach_cb_def register_ctrlr_def c_assert_def)

lemma second_device_asserts_witness:
  "serve one_device 4 ((manager_init 7)\<lparr>ms_lock := Some 4, ms_drivers := [(9, new_shared_driver 512 4096)]\<rparr>) = Fault AssertFail"
  by (rule second_device_asserts [of _ 4 one_device 0 "sample_found 7" "new_shared_driver 512 1048576"])
    (simp_all add: manager_init_def one_device_def sample_found_def)

text \<open>C38: the thread keeps the transport id of the call that created it: whatever happens after, every later call that is
  served probes with that id, so a call for another address outside the local PCI devices never reaches it: when the
  first address answers with its own controller, such a call fails the assertion of \<open>probe_cb\<close>.\<close>

theorem later_calls_probe_first_path:
  assumes "(\<lambda>S T. mstep env S T \<or> mcall env S T)\<^sup>*\<^sup>* S T" "ms_thread S \<noteq> M_none"
  shows "probe_arg env T = probe_arg env S
    \<and> (\<not> pe_local env (ms_first S) \<and> pe_probe env (Some (ms_first S)) = (r, [f]) \<and> \<not> pe_pcie env (fd_trid f)
        \<and> \<not> pe_same env (ms_trid T c) (fd_trid f) \<longrightarrow> serve env c T = Fault AssertFail)"
proof -
  have "ms_first T = ms_first S" using mf.steps_inv [OF assms(1), of "ms_first S"] assms(2) by blast
  then show ?thesis by (auto simp: serve_def probe_arg_def probe_cb_def)
qed

definition fabric_device :: "nat probe_env" where
  "fabric_device = \<lparr>pe_same = (=), pe_pcie = (\<lambda>_. False), pe_local = (\<lambda>_. False), pe_probe = (\<lambda>w. (0, [sample_found (the w)]))\<rparr>"

lemma later_calls_probe_first_path_witness:
  "serve fabric_device 4 ((manager_init 7)\<lparr>ms_thread := M_run, ms_trid := (\<lambda>_. 9), ms_queue := [4]\<rparr>) = Fault AssertFail"
proof -
  let ?S = "(manager_init 7)\<lparr>ms_thread := M_run, ms_trid := (\<lambda>_. 9), ms_queue := [4]\<rparr>"
  have "(\<lambda>S T. mstep fabric_device S T \<or> mcall fabric_device S T)\<^sup>*\<^sup>* ?S ?S" "ms_thread ?S \<noteq> M_none" by simp_all
  from later_calls_probe_first_path [OF this, of 0 "sample_found 7" 4] show ?thesis
    by (simp add: manager_init_def fabric_device_def sample_found_def)
qed

text \<open>C29: the scan of the mask from its last character, four bits at a time, finds the lowest set bit of the number that
  the digits write, counted from 1, and 0 for zero.\<close>

theorem find_first_bitset_lowest:
  assumes "\<forall>c \<in> set (map of_char digits). isxdigit c" "take 2 digits \<noteq> ''0x''" "take 2 digits \<noteq> ''0X''"
  shows "\<forall>s \<in> {digits, ''0x'' @ digits}.
    (if digits_value (map of_char (rev digits)) = 0 then find_first_bitset s = 0
     else \<exists>k. find_first_bitset s = int k + 1 \<and> lowest_bit (digits_value (map of_char (rev digits))) k)"
proof -
  have "\<forall>c \<in> set (map of_char (rev digits)). isxdigit c" using assms(1) by simp
  from first_bitset_lowest [OF this, of 0] show ?thesis using assms(2,3)
    by (cases "digits_value (map of_char (rev digits)) = 0") (auto simp: find_first_bitset_def Let_def)
qed

lemma find_first_bitset_lowest_witness: "find_first_bitset ''0x30'' = 5"
proof -
  have "\<forall>c \<in> set (map of_char ''30''). isxdigit c" "take 2 ''30'' \<noteq> ''0x''" "take 2 ''30'' \<noteq> ''0X''"
    by (simp_all add: isxdigit_def)
  from find_first_bitset_lowest [OF this] have "\<exists>k. find_first_bitset ''0x30'' = int k + 1 \<and> lowest_bit 48 k"
    by (simp add: hex2dec_def)
  then obtain k where k: "find_first_bitset ''0x30'' = int k + 1" "lowest_bit 48 k" by blast
  have "k \<le> 4"
  proof (rule ccontr)
    assume "\<not> k \<le> 4"
    then have "(2 :: nat) ^ 5 dvd 2 ^ k" by (intro le_imp_power_dvd) simp
    then have "(2 :: nat) ^ 5 dvd 48" using k(2) dvd_trans unfolding lowest_bit_def by blast
    then show False by simp
  qed
  then have "k = 0 \<or> k = 1 \<or> k = 2 \<or> k = 3 \<or> k = 4" by linarith
  then show ?thesis using k by (auto simp: lowest_bit_def)
qed

text \<open>What \<open>NVMEDevice::open\<close> gets from a call that has returned.\<close>

definition managed :: "'i msys \<Rightarrow> nat \<Rightarrow> int \<times> shared_driver" where
  "managed S c = (case ms_caller S c of
       C_ret r (Some i) \<Rightarrow> (r, snd (ms_drivers S ! i))
     | C_ret r None \<Rightarrow> (r, new_shared_driver 0 0)
     | _ \<Rightarrow> (- 1, new_shared_driver 0 0))"

text \<open>C18: a device is opened on the right namespace or not at all: with the manager in any reachable state in which the
  call of \<open>open\<close> has returned, \<open>open\<close> either fails with -1 and leaves the device as it was, or succeeds with the one
  driver that the manager has, whose id is the one asked for, registers the device there, and takes the block size
  and the name from it.\<close>

theorem open_uses_managed_driver:
  assumes "mreach env z S" "\<forall>i. pe_same env i i" "ms_caller S c = C_ret r d" "get_line path = Some line"
    "parse line = (0, ms_trid S c)"
  shows "case nvme_open get_line parse (\<lambda>_. managed S c) traddr p path dv of (r', dr, dv') \<Rightarrow>
      (r' = - 1 \<and> dr = None \<and> dv' = dv)
    \<or> (r' = 0 \<and> (\<exists>i x. ms_drivers S = [(i, x)] \<and> pe_same env i (ms_trid S c) \<and> dr = Some (register_device p x)
         \<and> dev_block_size dv' = ucast (driver_block_size x) \<and> dev_name dv' = traddr (ms_trid S c)))"
proof -
  have r: "returns_ok env S" using mreach_returns [OF assms(2,1)] .
  then have l: "length (ms_drivers S) \<le> 1" and d: "right_driver (pe_same env) (ms_drivers S) (ms_trid S c) d"
      "r = (if d = None then - 1 else 0)"
    using assms(3) unfolding returns_ok_def by blast+
  show ?thesis
  proof (cases d)
    case None
    then show ?thesis using d(2) assms(3-5) by (simp add: nvme_open_def managed_def)
  next
    case (Some k)
    then have k: "k < length (ms_drivers S)" "pe_same env (fst (ms_drivers S ! k)) (ms_trid S c)"
      using d(1) by (simp_all add: right_driver_def)
    then have "ms_drivers S = [ms_drivers S ! k]" using l by (cases "ms_drivers S") auto
    then obtain i x where "ms_drivers S = [(i, x)]" "ms_drivers S ! k = (i, x)" by (metis surj_pair)
    then show ?thesis
      using k(2) Some d(2) assms(3-5) by (simp add: nvme_open_def managed_def Let_def register_device_def)
  qed
qed

lemma open_uses_managed_driver_witness:
  "\<exists>S r d. mreach no_device 0 S \<and> ms_caller S 3 = C_ret r d
    \<and> (\<forall>dv. fst (nvme_open (\<lambda>_. Some ''sn'') (\<lambda>_. (0, ms_trid S 3)) (\<lambda>_. managed S 3) (\<lambda>_. []) 5 [] dv) \<in> {- 1, 0})"
proof -
  obtain S where S: "mreach no_device 0 S" "\<forall>T. \<not> mstep no_device S T" "ms_caller S 3 \<noteq> C_idle" "ms_driver S = (\<lambda>_. None)"
    using no_device_run by blast
  have "\<not> probe_fails no_device S" using S(4) by (simp add: probe_fails_def serve_def no_device_def)
  then have "\<not> active (ms_caller S 3)" using stuck_served [OF mreach_minv [OF S(1)]] S(2) by blast
  then obtain r d where c: "ms_caller S 3 = C_ret r d" using S(3) by (cases "ms_caller S 3") auto
  have same: "\<forall>i. pe_same no_device i i" by (simp add: no_device_def)
  have "fst (nvme_open (\<lambda>_. Some ''sn'') (\<lambda>_. (0, ms_trid S 3)) (\<lambda>_. managed S 3) (\<lambda>_. []) 5 [] dv) \<in> {- 1, 0}" for dv
    using open_uses_managed_driver [OF S(1) same c, where get_line = "\<lambda>_. Some ''sn''" and path = "[]" and line = "''sn''"
      and parse = "\<lambda>_. (0, ms_trid S 3)" and traddr = "\<lambda>_. []" and p = 5 and dv = dv]
    by (auto split: prod.splits)
  then show ?thesis using S(1) c by blast
qed

end
