(* ===== verification/Startup.thy ===== *)
theory Startup
  imports Signals
begin

section \<open>Utilities and start-up: common/util.hpp, util.cpp and init.cpp\<close>

text \<open>
  System calls are parameters with their documented answers; what the start-up does to the process is
  the list of its calls, in order. \<open>exit(1)\<close> is \<open>Inl 1\<close>.
\<close>

subsection \<open>Errors as text\<close>

text \<open>\<open>strerror\<close> gives the message; negating the least \<open>int\<close> is undefined.\<close>

definition cpp_strerror :: "(int \<Rightarrow> string) \<Rightarrow> int \<Rightarrow> string res" where
  "cpp_strerror strerror err =
     (if err = - (2 ^ 31) then Fault Undefined
      else let err = (if err < 0 then - err else err) in Ok (''('' @ int_string err @ '') '' @ strerror err))"

subsection \<open>A pipe that is closed on exec\<close>

text \<open>The descriptors of the process: those that are open, and of these the ones closed on exec.\<close>

record fds =
  open_fds :: "nat set"
  cloexec :: "nat set"

record pipe_env =
  pe_pipe :: "(nat \<times> nat) option"
  pe_setfd :: "nat \<Rightarrow> int"
  pe_errno :: int

definition close_fd :: "nat \<Rightarrow> fds \<Rightarrow> fds" where
  "close_fd fd w = w\<lparr>open_fds := open_fds w - {fd}, cloexec := cloexec w - {fd}\<rparr>"

definition set_cloexec :: "nat \<Rightarrow> fds \<Rightarrow> fds" where
  "set_cloexec fd w = w\<lparr>cloexec := insert fd (cloexec w)\<rparr>"

text \<open>\<open>pe_pipe\<close> is the answer of \<open>pipe\<close> or \<open>pipe2\<close>. The result: the code, \<open>errno\<close> after a failure, the pair, and the descriptors.\<close>

definition pipe_cloexec :: "bool \<Rightarrow> pipe_env \<Rightarrow> fds \<Rightarrow> int \<times> int \<times> (nat \<times> nat) option \<times> fds" where
  "pipe_cloexec have_pipe2 env w =
     (case pe_pipe env of
        None \<Rightarrow> (-1, pe_errno env, None, w)
      | Some (a, b) \<Rightarrow>
          if have_pipe2 then (0, 0, Some (a, b), w\<lparr>open_fds := open_fds w \<union> {a, b}, cloexec := cloexec w \<union> {a, b}\<rparr>)
          else let w = w\<lparr>open_fds := open_fds w \<union> {a, b}\<rparr> in
            if pe_setfd env a < 0 then (-1, pe_errno env, Some (a, b), close_fd b (close_fd a w))
            else let w = set_cloexec a w in
              if pe_setfd env b < 0 then (-1, pe_errno env, Some (a, b), close_fd b (close_fd a w))
              else (0, 0, Some (a, b), set_cloexec b w))"

subsection \<open>The name of a process\<close>

definition PATH_MAX :: nat where "PATH_MAX = 4096"

text \<open>\<open>read_file\<close>: \<open>None\<close> when the file does not open, and then the bytes, or \<open>None\<close> when reading fails.\<close>

definition get_process_name_by_pid :: "(string \<Rightarrow> string option option) \<Rightarrow> int \<Rightarrow> string" where
  "get_process_name_by_pid read_file pid =
     (if pid = 0 then ''Kernel''
      else (case read_file (''/proc/'' @ int_string pid @ ''/cmdline'') of
          None \<Rightarrow> ''<unknown>''
        | Some None \<Rightarrow> ''<unknown>''
        | Some (Some bytes) \<Rightarrow> map (\<lambda>c. if c = CHR 0x00 then CHR '' '' else c) (take PATH_MAX bytes)))"

subsection \<open>User and group\<close>

text \<open>\<open>atoi\<close>: white space, a sign, digits; a value that an \<open>int\<close> cannot hold is undefined.\<close>

definition is_space :: "char \<Rightarrow> bool" where
  "is_space c \<longleftrightarrow> c = CHR '' '' \<or> (9 \<le> (of_char c :: nat) \<and> (of_char c :: nat) \<le> 13)"

definition is_digit :: "char \<Rightarrow> bool" where
  "is_digit c \<longleftrightarrow> 48 \<le> (of_char c :: nat) \<and> (of_char c :: nat) \<le> 57"

fun digits_val :: "string \<Rightarrow> nat \<Rightarrow> nat" where
  "digits_val [] v = v"
| "digits_val (c # cs) v = (if is_digit c then digits_val cs (10 * v + (of_char c - 48)) else v)"

definition atoi :: "string \<Rightarrow> int res" where
  "atoi s =
     (let s = dropWhile is_space s;
          v = (case s of [] \<Rightarrow> 0
               | c # cs \<Rightarrow> if c = CHR ''-'' then - int (digits_val cs 0)
                           else if c = CHR ''+'' then int (digits_val cs 0) else int (digits_val s 0)) in
      if - (2 ^ 31) \<le> v \<and> v < 2 ^ 31 then Ok v else Fault Undefined)"

record passwd =
  pw_uid :: u32
  pw_gid :: u32
  pw_dir :: "string option"

datatype sys_call =
  Setgid u32
| Keepcaps
| Setuid u32
| Setenv_home string
| Set_dumpable
| Disable_thp
| Create_dir string
| Set_permissions string
| Chown string u32 u32

record init_env =
  ie_prctl :: bool
  ie_root :: bool
  ie_pwuid :: "u32 \<Rightarrow> passwd option"
  ie_pwnam :: "string \<Rightarrow> passwd option"
  ie_grnam :: "string \<Rightarrow> u32 option"
  ie_setgid :: "u32 \<Rightarrow> bool"
  ie_setuid :: "u32 \<Rightarrow> bool"
  ie_dir_exists :: "string \<Rightarrow> bool"
  ie_create_dir :: "string \<Rightarrow> bool"
  ie_sigaction :: "nat \<Rightarrow> int"

text \<open>
  \<open>ie_prctl\<close> is the build's \<open>HAVE_SYS_PRCTL_H\<close>; calls whose failure only warns are recorded as made.
  The outcome of a step that may be undefined, may exit, or goes on with the calls it made. The lookup
  of the user: its id, group and home.
\<close>

definition lookup_user :: "init_env \<Rightarrow> string \<Rightarrow> (int + u32 \<times> u32 \<times> string) res" where
  "lookup_user env setuser =
     (if setuser = [] then Ok (Inr (0, 0, []))
      else rbind (atoi setuser) (\<lambda>i.
        let uid = word_of_int i :: u32 in
        if uid \<noteq> 0
        then Ok (Inr (uid, 0, case ie_pwuid env uid of Some p \<Rightarrow> (case pw_dir p of Some d \<Rightarrow> d | None \<Rightarrow> []) | None \<Rightarrow> []))
        else (case ie_pwnam env setuser of
            None \<Rightarrow> Ok (Inl 1)
          | Some p \<Rightarrow> Ok (Inr (pw_uid p, pw_gid p, case pw_dir p of Some d \<Rightarrow> d | None \<Rightarrow> [])))))"

definition lookup_group :: "init_env \<Rightarrow> string \<Rightarrow> u32 \<Rightarrow> (int + u32) res" where
  "lookup_group env setgroup gid =
     (if setgroup = [] then Ok (Inr gid)
      else rbind (atoi setgroup) (\<lambda>i.
        let gid = word_of_int i :: u32 in
        if gid \<noteq> 0 then Ok (Inr gid)
        else (case ie_grnam env setgroup of None \<Rightarrow> Ok (Inl 1) | Some g \<Rightarrow> Ok (Inr g))))"

text \<open>The result: the ids that the caller sees, which stay for a process that is not root's, and the calls.\<close>

definition set_user_group ::
    "init_env \<Rightarrow> string \<Rightarrow> string \<Rightarrow> bool \<Rightarrow> u32 \<times> u32 \<Rightarrow> (int + (u32 \<times> u32) \<times> sys_call list) res" where
  "set_user_group env setuser setgroup set_keepcaps out =
     (if \<not> ie_root env then Ok (Inr (out, []))
      else rbind (lookup_user env setuser) (\<lambda>u. case u of
          Inl e \<Rightarrow> Ok (Inl e)
        | Inr (uid, gid, home) \<Rightarrow> rbind (lookup_group env setgroup gid) (\<lambda>g. case g of
            Inl e \<Rightarrow> Ok (Inl e)
          | Inr gid \<Rightarrow>
              if \<not> ie_setgid env gid then Ok (Inl 1)
              else if \<not> ie_setuid env uid then Ok (Inl 1)
              else Ok (Inr ((uid, gid),
                [Setgid gid] @ (if ie_prctl env \<and> set_keepcaps then [Keepcaps] else []) @ [Setuid uid, Setenv_home home])))))"

subsection \<open>initialize\<close>

definition chown_path :: "string \<Rightarrow> u32 \<Rightarrow> u32 \<Rightarrow> sys_call list" where
  "chown_path path owner grp = (if path = [] then [] else [Chown path owner grp])"

definition run_dir :: string where "run_dir = ''/tmp/stupid_run''"

definition prepare_run_dir :: "init_env \<Rightarrow> bool \<Rightarrow> u32 \<Rightarrow> u32 \<Rightarrow> int + sys_call list" where
  "prepare_run_dir env daemon uid gid =
     (if run_dir \<noteq> [] \<and> daemon
      then if \<not> ie_dir_exists env run_dir \<and> \<not> ie_create_dir env run_dir then Inl 1
        else Inr ((if ie_dir_exists env run_dir then [] else [Create_dir run_dir, Set_permissions run_dir])
               @ (if uid \<noteq> 0 \<or> gid \<noteq> 0 then chown_path run_dir uid gid else []))
      else Inr [])"

text \<open>The mask and the actions of the process, and the calls that \<open>initialize\<close> makes.\<close>

definition initialize ::
    "init_env \<Rightarrow> bool \<Rightarrow> sigset \<Rightarrow> (nat \<Rightarrow> action) \<Rightarrow> (int + sigset \<times> (nat \<Rightarrow> action) \<times> sys_call list) res" where
  "initialize env daemon m acts =
     rbind (block_signals 0 (Some [SIGPIPE, 0]) m) (\<lambda>(old, m).
       case install_fatal_sighandlers (ie_sigaction env) acts of
         Inl e \<Rightarrow> Ok (Inl e)
       | Inr acts \<Rightarrow> rbind (set_user_group env ''root'' ''root'' True (0, 0)) (\<lambda>u. case u of
           Inl e \<Rightarrow> Ok (Inl e)
         | Inr ((uid, gid), calls) \<Rightarrow> (case prepare_run_dir env daemon uid gid of
             Inl e \<Rightarrow> Ok (Inl e)
           | Inr dir \<Rightarrow> Ok (Inr (m, acts, calls @ (if ie_prctl env then [Set_dumpable, Disable_thp] else []) @ dir)))))"

subsection \<open>Lemmas\<close>

lemma to_string_digits: "\<forall>c \<in> set (to_string n). is_digit c"
proof (induction n rule: to_string.induct)
  case (1 n)
  show ?case
  proof (cases "n < 10")
    case True
    then show ?thesis by (subst to_string.simps) (simp add: is_digit_def of_char_of)
  next
    case False
    have "n mod 10 < 10" by simp
    then show ?thesis using 1 False by (subst to_string.simps) (auto simp: is_digit_def of_char_of)
  qed
qed

lemma to_string_not_Nil: "to_string n \<noteq> []"
  by (subst to_string.simps) simp

lemma digits_val_append: "\<forall>c \<in> set s. is_digit c \<Longrightarrow> digits_val (s @ t) v = digits_val t (digits_val s v)"
  by (induction s arbitrary: v) auto

lemma digits_val_one: "d < 10 \<Longrightarrow> digits_val [char_of (48 + d)] v = 10 * v + d"
  by (simp add: is_digit_def of_char_of)

lemma digits_val_to_string: "digits_val (to_string n) 0 = n"
proof (induction n rule: to_string.induct)
  case (1 n)
  show ?case
  proof (cases "n < 10")
    case True
    then have "to_string n = [char_of (48 + n)]" by (subst to_string.simps) simp
    then show ?thesis using digits_val_one [OF True, of 0] by simp
  next
    case False
    then have s: "to_string n = to_string (n div 10) @ [char_of (48 + n mod 10)]" by (subst to_string.simps) simp
    have "digits_val (to_string n) 0 = 10 * digits_val (to_string (n div 10)) 0 + n mod 10"
      unfolding s digits_val_append [OF to_string_digits] by (rule digits_val_one) simp
    then show ?thesis using 1 [OF False] by simp
  qed
qed

lemma digit_first: "is_digit c \<Longrightarrow> \<not> is_space c \<and> c \<noteq> CHR ''-'' \<and> c \<noteq> CHR ''+''"
  by (auto simp: is_digit_def is_space_def)

lemma atoi_to_string: "n < 2 ^ 31 \<Longrightarrow> atoi (to_string n) = Ok (int n)"
proof -
  assume n: "n < 2 ^ 31"
  obtain c cs where s: "to_string n = c # cs" using to_string_not_Nil [of n] by (cases "to_string n") auto
  then have "is_digit c" using to_string_digits [of n] by simp
  note d = digit_first [OF this]
  have "int (digits_val (c # cs) 0) = int n" using digits_val_to_string [of n] s by simp
  then show ?thesis using d n unfolding atoi_def s by (simp add: Let_def del: digits_val.simps)
qed

lemma install_loop_Ok:
  "\<forall>s \<in> set ss. sigaction s = 0 \<Longrightarrow>
    \<exists>acts'. install_loop sigaction ss acts = Inr acts' \<and> (\<forall>s. acts' s = (if s \<in> set ss then Fatal_action SA_NODEFER else acts s))"
proof (induction ss arbitrary: acts)
  case (Cons s ss)
  then have "\<forall>s \<in> set ss. sigaction s = 0" and s: "sigaction s = 0" by auto
  from Cons.IH [OF this(1), of "acts(s := Fatal_action SA_NODEFER)"] obtain acts' where
    1: "install_loop sigaction ss (acts(s := Fatal_action SA_NODEFER)) = Inr acts'" and
    2: "\<And>x. acts' x = (if x \<in> set ss then Fatal_action SA_NODEFER else (acts(s := Fatal_action SA_NODEFER)) x)"
    by blast
  have "install_loop sigaction (s # ss) acts = Inr acts'"
    using 1 s by (simp add: install_sighandler_def del: fun_upd_apply)
  moreover have "\<forall>x. acts' x = (if x \<in> set (s # ss) then Fatal_action SA_NODEFER else acts x)" using 2 by simp
  ultimately show ?case by blast
qed auto

subsection \<open>Properties\<close>

text \<open>\<open>atoi\<close> reads back every number that \<open>std::to_string\<close> writes, up to the largest \<open>int\<close>.\<close>

theorem atoi_roundtrip:
  assumes "n < 2 ^ 31"
  shows "atoi (to_string n) = Ok (int n)"
  by (rule atoi_to_string [OF assms])

lemma atoi_roundtrip_witness: "atoi (to_string 65534) = Ok 65534"
  using atoi_roundtrip [of 65534] by simp

text \<open>C35: \<open>pipe_cloexec\<close> is all or nothing: it succeeds exactly when \<open>pipe\<close> does and, in the fallback, both calls
  of \<open>fcntl\<close> do, and then the two new descriptors are open and closed on exec, beside what was open; after a failure of
  any of its calls, \<open>pipe\<close> or either \<open>fcntl\<close>, it answers -1 with that call's \<open>errno\<close>, and exactly the descriptors from
  before are open, with their flags. The descriptors that \<open>pipe\<close> gives are new.\<close>

theorem pipe_cloexec_all_or_nothing:
  assumes "\<And>a b. pe_pipe env = Some (a, b) \<Longrightarrow> a \<notin> open_fds w \<and> b \<notin> open_fds w" "cloexec w \<subseteq> open_fds w"
  shows "case pipe_cloexec have_pipe2 env w of (r, err, fd, w') \<Rightarrow>
      (r = 0 \<longleftrightarrow> (\<exists>a b. pe_pipe env = Some (a, b) \<and> (have_pipe2 \<or> 0 \<le> pe_setfd env a \<and> 0 \<le> pe_setfd env b)))
    \<and> (if r = 0 then \<exists>a b. fd = Some (a, b) \<and> pe_pipe env = Some (a, b)
         \<and> open_fds w' = open_fds w \<union> {a, b} \<and> cloexec w' = cloexec w \<union> {a, b}
       else r = - 1 \<and> err = pe_errno env \<and> w' = w)"
proof (cases "pe_pipe env")
  case None
  then show ?thesis by (simp add: pipe_cloexec_def)
next
  case (Some ab)
  obtain a b where ab: "pe_pipe env = Some (a, b)" using Some by (cases ab) simp
  have "a \<notin> open_fds w" "b \<notin> open_fds w" "a \<notin> cloexec w" "b \<notin> cloexec w" using assms ab by auto
  then show ?thesis
    using ab by (cases w) (auto simp: pipe_cloexec_def Let_def close_fd_def set_cloexec_def)
qed

lemma pipe_cloexec_all_or_nothing_witness:
  "case pipe_cloexec False \<lparr>pe_pipe = Some (3, 4), pe_setfd = (\<lambda>fd. if fd = 4 then -1 else 0), pe_errno = 9\<rparr>
      \<lparr>open_fds = {0, 1, 2}, cloexec = {}\<rparr> of (r, err, fd, w') \<Rightarrow> r = - 1 \<and> w' = \<lparr>open_fds = {0, 1, 2}, cloexec = {}\<rparr>"
proof -
  let ?e = "\<lparr>pe_pipe = Some (3, 4), pe_setfd = (\<lambda>fd. if fd = 4 then -1 else 0), pe_errno = 9\<rparr>"
  let ?w = "\<lparr>open_fds = {0, 1, 2}, cloexec = {}\<rparr>"
  have "pe_pipe ?e = Some (a, b) \<Longrightarrow> a \<notin> open_fds ?w \<and> b \<notin> open_fds ?w" for a b by auto
  moreover have "cloexec ?w \<subseteq> open_fds ?w" by simp
  ultimately show ?thesis using pipe_cloexec_all_or_nothing [of ?e ?w False] by (auto split: prod.splits if_splits)
qed

text \<open>Dropping root's rights by a numeric user id keeps root's group: with no group given the group is set to 0,
  although the comment says that zero means no change, and the user of that id has a group of its own.\<close>

theorem numeric_user_keeps_root_group:
  assumes "ie_root env" "0 < n" "n < 2 ^ 31" "ie_setgid env 0" "ie_setuid env (of_nat n)"
  shows "\<exists>home. set_user_group env (to_string n) [] False out = Ok (Inr ((of_nat n, 0), [Setgid 0, Setuid (of_nat n), Setenv_home home]))"
proof -
  have u: "word_of_int (int n) = (of_nat n :: u32)" by simp
  have "unat (of_nat n :: u32) = n" using assms(3) by (simp add: unat_of_nat)
  then have nz: "(of_nat n :: u32) \<noteq> 0" using assms(2) by auto
  show ?thesis
    using assms(1,4,5) nz to_string_not_Nil [of n]
    by (simp add: set_user_group_def lookup_user_def lookup_group_def atoi_to_string [OF assms(3)] Let_def)
qed

definition sample_init :: init_env where
  "sample_init = \<lparr>ie_prctl = True, ie_root = True, ie_pwuid = (\<lambda>u. Some \<lparr>pw_uid = u, pw_gid = u, pw_dir = Some ''/home/u''\<rparr>),
     ie_pwnam = (\<lambda>s. Some \<lparr>pw_uid = 0, pw_gid = 0, pw_dir = Some ''/root''\<rparr>), ie_grnam = (\<lambda>s. Some 0), ie_setgid = (\<lambda>_. True),
     ie_setuid = (\<lambda>_. True), ie_dir_exists = (\<lambda>_. False), ie_create_dir = (\<lambda>_. True), ie_sigaction = (\<lambda>_. 0)\<rparr>"

lemma numeric_user_keeps_root_group_witness:
  "\<exists>home. set_user_group sample_init (to_string 1000) [] False (0, 0) = Ok (Inr ((1000, 0), [Setgid 0, Setuid 1000, Setenv_home home]))"
  using numeric_user_keeps_root_group [of sample_init 1000 "(0, 0)"] by (simp add: sample_init_def)

text \<open>C34: \<open>initialize\<close> of a daemon run by root, whose calls succeed: \<open>SIGPIPE\<close> is blocked beside what was blocked, each
  of the eight fatal signals has the one-shot handler and no other signal changes, the group is set before the user,
  and the run directory is made before anything else touches it. Only a build with \<open>HAVE_SYS_PRCTL_H\<close>, which no
  file of the build defines, keeps the capabilities and stays dumpable.\<close>

theorem initialize_daemon:
  assumes "ie_root env" "\<forall>s. ie_sigaction env s = 0" "ie_pwnam env ''root'' = Some pw" "ie_grnam env ''root'' = Some g"
    "\<forall>i. ie_setgid env i \<and> ie_setuid env i" "m \<inter> {SIGKILL, SIGSTOP} = {}" "ie_dir_exists env run_dir \<or> ie_create_dir env run_dir"
  shows "\<exists>acts' home. initialize env True m acts = Ok (Inr (insert 13 m, acts',
      [Setgid g] @ (if ie_prctl env then [Keepcaps] else []) @ [Setuid (pw_uid pw), Setenv_home home]
      @ (if ie_prctl env then [Set_dumpable, Disable_thp] else [])
      @ (if ie_dir_exists env run_dir then [] else [Create_dir run_dir, Set_permissions run_dir])
      @ (if pw_uid pw \<noteq> 0 \<or> g \<noteq> 0 then [Chown run_dir (pw_uid pw) g] else [])))
    \<and> (\<forall>s. acts' s = (if s \<in> set fatal_signals then Fatal_action SA_NODEFER else acts s))"
proof -
  have b: "block_signals 0 (Some [SIGPIPE, 0]) m = Ok (m, insert 13 m)"
    by (rule block_sigpipe [OF assms(6)])
  obtain acts' where i: "install_fatal_sighandlers (ie_sigaction env) acts = Inr acts'"
      "\<forall>s. acts' s = (if s \<in> set fatal_signals then Fatal_action SA_NODEFER else acts s)"
    using install_loop_Ok [of fatal_signals "ie_sigaction env" acts] assms(2) by (auto simp: install_fatal_sighandlers_def)
  have r: "atoi ''root'' = Ok 0" by (simp add: atoi_def is_space_def is_digit_def Let_def)
  show ?thesis
    using assms(1,3,4,5,7) i
    by (intro exI [of _ acts'] exI [of _ "case pw_dir pw of Some d \<Rightarrow> d | None \<Rightarrow> []"])
      (simp add: initialize_def b set_user_group_def lookup_user_def lookup_group_def r Let_def prepare_run_dir_def chown_path_def
        run_dir_def)
qed

lemma initialize_daemon_witness:
  "\<exists>acts' home. initialize sample_init True {} (\<lambda>_. Default_action) = Ok (Inr ({13}, acts',
      [Setgid 0, Keepcaps, Setuid 0, Setenv_home home, Set_dumpable, Disable_thp, Create_dir run_dir, Set_permissions run_dir]))"
  using initialize_daemon [of sample_init "\<lparr>pw_uid = 0, pw_gid = 0, pw_dir = Some ''/root''\<rparr>" 0 "{}" "\<lambda>_. Default_action"]
  by (auto simp: sample_init_def)

end
