(* ===== verification/Diagnostics.thy ===== *)
theory Diagnostics
  imports Lockdep Threads
begin

section \<open>What is printed: lockdep\_dump\_locks, sighup\_handler, dout.cpp\<close>

text \<open>Output is appended to the text of its stream.\<close>

subsection \<open>dout\_emergency\<close>

text \<open>A C string ends at its first zero, a \<open>std::string\<close> does not.\<close>

definition dout_emergency_c :: "string \<Rightarrow> string \<Rightarrow> string" where
  "dout_emergency_c str cerr = cerr @ takeWhile (\<lambda>c. c \<noteq> CHR 0x00) str"

definition dout_emergency :: "string \<Rightarrow> string \<Rightarrow> string" where
  "dout_emergency str cerr = cerr @ str"

subsection \<open>sighup\_handler\<close>

text \<open>
  \<open>getname\<close> is \<open>pthread_getname_np\<close> on the zeroed buffer: an error leaves it. Without the function
  (\<open>have_getname\<close>) the name is empty.
\<close>

definition getname_text :: "bool \<Rightarrow> string option \<Rightarrow> string" where
  "getname_text have_getname getname =
     (if have_getname then (case getname of None \<Rightarrow> [] | Some nm \<Rightarrow> takeWhile (\<lambda>c. c \<noteq> CHR 0x00) (take 31 nm)) else [])"

definition sighup_handler :: "bool \<Rightarrow> string option \<Rightarrow> int \<Rightarrow> int \<Rightarrow> string \<Rightarrow> string" where
  "sighup_handler have_getname getname tid signum cerr =
     cerr @ ''sighup_handler signum: '' @ int_string signum @ '' thread: '' @ int_string tid @ '' thread-name: '' @
       getname_text have_getname getname @ [CHR 0x0A]"

subsection \<open>lockdep\_dump\_locks\<close>

text \<open>
  \<open>lock_names[id]\<close> inserts an empty name for an id that has none, so the dump returns the state. \<open>shown\<close> is
  the text of a thread's id, \<open>trace\<close> that of the backtrace of a lock it holds; \<open>ts\<close> are the keys of \<open>held\<close>
  in the order of their iteration.
\<close>

fun dump_held :: "(lock_id \<Rightarrow> string) \<Rightarrow> (lock_id, bt) omap \<Rightarrow> lockdep \<Rightarrow> string \<times> lockdep" where
  "dump_held trace [] s = ([], s)"
| "dump_held trace ((i, b) # qs) s =
     (let name = (case lock_names s i of None \<Rightarrow> [] | Some n \<Rightarrow> n);
          s = s\<lparr>lock_names := (lock_names s)(i \<mapsto> name)\<rparr> in
      case dump_held trace qs s of (out, s) \<Rightarrow>
        (''  * '' @ name @ [CHR 0x0A] @ (if b \<noteq> NullBT then trace i else []) @ [CHR 0x0A] @ out, s))"

fun dump_threads ::
    "(thread \<Rightarrow> string) \<Rightarrow> (thread \<Rightarrow> lock_id \<Rightarrow> string) \<Rightarrow> thread list \<Rightarrow> lockdep \<Rightarrow> string \<times> lockdep" where
  "dump_threads shown trace [] s = ([], s)"
| "dump_threads shown trace (p # ps) s =
     (case dump_held (trace p) (held s p) s of (out1, s) \<Rightarrow>
        case dump_threads shown trace ps s of (out2, s) \<Rightarrow>
          (''--- thread '' @ shown p @ '' ---'' @ [CHR 0x0A] @ out1 @ out2, s))"

definition lockdep_dump_locks ::
    "(thread \<Rightarrow> string) \<Rightarrow> (thread \<Rightarrow> lock_id \<Rightarrow> string) \<Rightarrow> thread list \<Rightarrow> lockdep \<Rightarrow> string \<Rightarrow> int \<times> string \<times> lockdep" where
  "lockdep_dump_locks shown trace ts s cout =
     (if g_lockdep s then case dump_threads shown trace ts s of (out, s) \<Rightarrow> (0, cout @ out, s) else (0, cout, s))"

lemma dump_held_keeps:
  "omap_keys qs \<subseteq> dom (lock_names s) \<Longrightarrow> dump_held trace qs s
     = (concat (map (\<lambda>(i, b). ''  * '' @ the (lock_names s i) @ [CHR 0x0A] @ (if b \<noteq> NullBT then trace i else []) @ [CHR 0x0A]) qs), s)"
proof (induction trace qs s rule: dump_held.induct)
  case (2 trace i b qs s)
  then obtain n where n: "lock_names s i = Some n" by auto
  then have "s\<lparr>lock_names := (lock_names s)(i \<mapsto> n)\<rparr> = s" by (cases s) (auto simp: fun_upd_idem)
  then show ?case using 2 n by (simp add: Let_def)
qed simp

text \<open>In a state of the checker the dump inserts nothing: it is a report, and changes no table.\<close>

theorem dump_changes_nothing:
  assumes "lockdep_inv s"
  shows "\<exists>out. lockdep_dump_locks shown trace ts s cout = (0, cout @ out, s)"
proof -
  have h: "omap_keys (held s p) \<subseteq> dom (lock_names s)" for p
    using assms by (simp add: lockdep_inv_def held_inv_def)
  have "\<exists>out. dump_threads shown trace ts s = (out, s)"
    by (induction ts) (use dump_held_keeps [OF h] in auto)
  then show ?thesis by (auto simp: lockdep_dump_locks_def)
qed

end
