(* ===== verification/Spec2Isabelle.thy ===== *)
theory Spec2Isabelle
  imports Lockdep Mutex_Debug Shared_Mutex Aio_Queue Queue_Run Device_Spec Shared_Device Submit_Race Device_Dispatch Async_Signals Signal_Races Backtrace Threads
    Nvme_Manager Startup Diagnostics
begin

text \<open>
  A verification library for the block-device layer and the common runtime of this repository
  (\<open>src/src/blk\<close> and \<open>src/src/common\<close>).

  \<^bold>\<open>The program.\<close> \<open>blk/spdk\<close> drives an NVMe device through SPDK: \<open>NVMEDevice\<close> cuts requests into
  tasks, each thread has a queue (\<open>SharedDriverQueueData\<close>) that submits and polls them, and
  \<open>NVMEManager\<close> finds the device with a thread of its own. \<open>blk/kernel\<close> wraps Linux aio, and both
  report to an \<open>IOContext\<close>. \<open>common\<close> has the lock-order checker \<open>lockdep\<close> with the mutexes that use it,
  threads, signals (masks, the handler of fatal signals, a thread for asynchronous ones), backtraces,
  and the start-up. Callers hold a device and contexts; the components below call each other downwards.

  \<^bold>\<open>Conventions.\<close> A call that can fail is a value of \<open>'a res\<close>: \<open>Ok\<close>, or a \<open>Fault\<close> that names a failed
  assertion, an \<open>abort\<close>, an exception, undefined behaviour, or a call that does not return. Unsigned C++
  integers are words of their width and wrap; \<open>int\<close> is \<open>int\<close> where the code keeps it in range, and a
  fault where it may not. State is a record that each operation returns; concurrent code is an inductive
  step relation whose steps are the sections that the code runs under one lock or between two points
  where another thread can enter. What is not under \<open>src/\<close> (SPDK, the kernel, the C library) is an
  argument: its answers are functions or records named \<open>env\<close>.

  \<^bold>\<open>Theories.\<close>
  \<^item> \<open>Prelude\<close>: types, outcomes, \<open>std::map\<close> as a sorted list, numbers as text.
    \<open>Transition_Systems\<close>: the locales \<open>invariant_system\<close> (what every step keeps holds in every reachable
    state) and \<open>serving_system\<close> (a system whose own steps end, and which is stuck only when it has served,
    serves), interpreted by \<open>Io_Context\<close>, \<open>Mutex_Debug\<close>, \<open>Shared_Mutex\<close>, \<open>Signals\<close>, \<open>Signal_Races\<close> and \<open>Nvme_Manager\<close>.
  \<^item> \<open>Lockdep\<close> (\<open>lockdep.cpp\<close>): the tables of class names, ids, reference counts, the order graph and the
    held classes. The invariant of all of them, the cycle search and its termination, what \<open>will_lock\<close>
    decides, that an order once used is enforced.
  \<^item> \<open>Mutex_Debug\<close> (\<open>mutex_debug.hpp\<close>, \<open>mutex_debug.cpp\<close>): the mutexes over \<open>Lockdep\<close>, many threads as a step
    relation; the locale \<open>ordered_waits\<close> turns the checker's acyclic order into freedom from circular waits, for
    threads that never try-lock a mutex of a class they hold (a run without that care deadlocks).
    \<open>Shared_Mutex\<close>: readers and writers of the shared mutex, interleaved, exclude each other.
  \<^item> \<open>Bit_Op\<close> (\<open>bit_op.hpp\<close>, \<open>global.cpp\<close>): rounding and page constants; the locale \<open>block_rounding\<close> is what the
    device needs of them.
  \<^item> \<open>Io_Context\<close> (\<open>io_context.hpp\<close>, \<open>io_context.cpp\<close>), \<open>Aio_Queue\<close> (\<open>aio.hpp\<close>, \<open>kernel/io_queue.*\<close>): the
    waiting and waking of a context without lost wake-ups, the submission loop and the collection of events
    against the documented contract of \<open>io_submit\<close> and \<open>io_getevents\<close>.
  \<^item> \<open>Block_Device\<close> (\<open>block_device.*\<close>): the factory and the range test.
  \<^item> \<open>Nvme_Task\<close> (\<open>task.hpp\<close>, the buffer functions of \<open>driver_queue.cpp\<close>): tasks on an explicit heap, the
    DMA buffers, gather, scatter, the scatter-gather callbacks.
  \<^item> \<open>Driver_Queue\<close>, \<open>Queue_Run\<close> (\<open>driver_queue.*\<close>): submission, polling, completion. The locale
    \<open>io_mode\<close> states what a kind of request (writes, reads) must keep for the run of \<open>_aio_handle\<close> to end
    with every task done once and every buffer back; it is interpreted for writes and for reads.
  \<^item> \<open>Nvme_Device\<close>, \<open>Device_Run\<close>, \<open>Device_Spec\<close> (\<open>nvme_device.*\<close>, \<open>driver.hpp\<close>): the split of requests,
    \<open>aio_submit\<close>, the public operations; \<open>Device_Spec\<close> has the abstract device, an array of bytes, and the
    refinement, the completion of asynchronous requests, and the life of a thread's queue.
    \<open>Shared_Device\<close>: several threads, each with its queue pair, on one disk, under every schedule of their
    calls of the library; each keeps to a region, which a monitor at its queue pair checks. \<open>Submit_Race\<close>: threads
    that share a context, access by access.
    \<open>Device_Dispatch\<close> (\<open>block_device.hpp\<close>, \<open>kernel_device.hpp\<close>): the virtual calls through what
    \<open>BlockDevice::create\<close> returns, an NVMe device or the stub \<open>KernelDevice\<close>.
  \<^item> \<open>Nvme_Manager\<close> (\<open>nvme_manager.*\<close>): \<open>try_get\<close>, the probe thread and the destructor as interleaved
    steps: every call is served, with the right driver; the core mask; the device opened through it.
  \<^item> \<open>Async_Signals\<close>, \<open>Signal_Races\<close> (\<open>signal_handler_async.cpp\<close>): the handler table and its pipes in
    sequence, then all interleavings of registration, removal, hooks and the thread's scan.
  \<^item> \<open>Signals\<close> (\<open>signal.cpp\<close>, \<open>signal_handler.cpp\<close>), \<open>Threads\<close> (\<open>thread.*\<close>), \<open>Backtrace\<close> (\<open>backtrace.*\<close>),
    \<open>Startup\<close> (\<open>init.cpp\<close>, \<open>util.cpp\<close>): masks, the one-shot handler of fatal signals over all threads, each
    of its writes and calls a step of its own, with faults on top of it,
    creation and life of threads, the printing of a stack into a bounded buffer, the calls of the start-up.
    \<open>Diagnostics\<close>: \<open>lockdep_dump_locks\<close>, \<open>sighup_handler\<close> and \<open>dout.cpp\<close>, as text.

  \<^bold>\<open>What is assumed.\<close> \<open>spdk_contract\<close> (in \<open>Driver_Queue\<close>): SPDK accepts commands while fewer than its depth
  are in flight, may complete any of them in any order at each poll, completes each once, and some
  measure shows that polling does not stall; reads and writes move the bytes that the command names. It is
  asked only for commands inside a region \<open>reg\<close> of the disk, all of it for a thread that is alone. With
  several threads (\<open>shared_ok\<close>) a call on one queue pair leaves the others' commands alone, and no two
  threads' regions meet; \<open>fifos_lib\<close> is such a library.
  \<open>fifo_spdk\<close> is a device that keeps it, so the contract can hold. \<open>read_room\<close> and \<open>request_ok\<close> keep requests in
  the device and below \<open>2\<^sup>6\<^sup>4\<close> by a margin of one task, and the block size a divisor of 128 KiB (for reads at
  most 8192 bytes).
  \<open>io_mode\<close>, \<open>ordered_waits\<close> and the other locales assume nothing of the program: each is interpreted on
  its definitions.

  \<^bold>\<open>Fuel.\<close> The loop of \<open>_aio_handle\<close> and the read split, whose position can wrap, take fuel; the theorems
  give a bound \<open>n0\<close> from which every fuel gives the same outcome, so the calls return. The search of
  \<open>does_follow\<close> has the number of classes as its depth, and is proved never to need more. All other loops
  are recursion on data or have a measure.

  \<^bold>\<open>Not modelled.\<close> Log lines and statistics counters (nothing reads them; \<open>queues_allocated\<close> is one); the POSIX aio
  branches, which the Linux build does not compile and which could not work (a successful \<open>aio_read\<close> or
  \<open>lio_listio\<close> answers 0, and the next line asserts more), and the macOS ones; \<open>mutex.hpp\<close>, which names the types;
  the options that the manager passes to SPDK; threads whose regions of the disk overlap, and one caller's memory
  used by several threads at once, which the code does not protect; the test programs.
  Build options that change behaviour are arguments: \<open>HAVE_SCHED\<close>,
  \<open>HAVE_SYS_PRCTL_H\<close> and \<open>HAVE_PIPE2\<close>, none of which the build files define. Memory is sequentially consistent,
  and the reads of \<open>stop\<close> in the asynchronous handler are not treated as data races.
\<close>

end
